(* ===== verification/Scraper_Prelude.thy ===== *)
theory Scraper_Prelude
  imports Complex_Main "HOL-Library.Word" "HOL-Library.AList" "HOL-Library.List_Lexorder"
    "HOL-Library.Multiset"
begin

text \<open>
  Types, helper functions and generic lemmas shared by the components: Python's \<open>bytes\<close>
  as lists of 8-bit words, slices and searches in them, big-endian integers
  (\<open>int.to_bytes\<close>, \<open>int.from_bytes\<close>, \<open>struct\<close> with \<open>!\<close>), decimal text
  (\<open>str(n)\<close>, \<open>int(text)\<close>, \<open>bytes.isdigit\<close>), and insertion-ordered dictionaries as
  association lists with distinct keys. The collections \<open>byte_simps\<close> and
  \<open>dict_simps\<close> carry the component proofs.
\<close>

named_theorems byte_simps
named_theorems dict_simps

type_synonym byte = "8 word"
type_synonym bytes = "byte list"
type_synonym ustr = "nat list"
type_synonym address = "string \<times> int"
type_synonym node = "bytes \<times> string \<times> int"

section \<open>Byte strings\<close>

text \<open>A bytes literal \<open>b"abc"\<close> is \<open>ascii ''abc''\<close>.\<close>

definition ascii :: "string \<Rightarrow> bytes" where
  "ascii s = map of_char s"

text \<open>Python's \<open>data[a:b]\<close> for \<open>0 \<le> a\<close>, \<open>0 \<le> b\<close>.\<close>

definition byte_slice :: "'a list \<Rightarrow> nat \<Rightarrow> nat \<Rightarrow> 'a list" where
  "byte_slice xs a b = take (b - a) (drop a xs)"

text \<open>\<open>data.find(c, start)\<close> for one byte \<open>c\<close>, with \<open>None\<close> for -1.\<close>

definition find_from :: "byte \<Rightarrow> bytes \<Rightarrow> nat \<Rightarrow> nat option" where
  "find_from c data start =
     (let k = length (takeWhile (\<lambda>x. x \<noteq> c) (drop start data))
      in if start + k < length data then Some (start + k) else None)"

definition is_digit :: "byte \<Rightarrow> bool" where
  "is_digit c \<longleftrightarrow> 48 \<le> unat c \<and> unat c \<le> 57"

text \<open>\<open>bytes.isdigit()\<close>: not empty and ASCII digits only.\<close>

definition isdigit :: "bytes \<Rightarrow> bool" where
  "isdigit text \<longleftrightarrow> text \<noteq> [] \<and> list_all is_digit text"

section \<open>Decimal text\<close>

text \<open>\<open>int(text)\<close> on ASCII digits, and \<open>str(n)\<close> for \<open>n \<ge> 0\<close>.\<close>

definition dec_value :: "bytes \<Rightarrow> nat" where
  "dec_value ds = foldl (\<lambda>a d. a * 10 + (unat d - 48)) 0 ds"

fun dec_text :: "nat \<Rightarrow> bytes" where
  "dec_text n = (if n < 10 then [of_nat (48 + n)]
     else dec_text (n div 10) @ [of_nat (48 + n mod 10)])"

declare dec_text.simps [simp del]

section \<open>Big-endian integers\<close>

fun be_bytes :: "nat \<Rightarrow> nat \<Rightarrow> bytes" where
  "be_bytes 0 n = []"
| "be_bytes (Suc k) n = be_bytes k (n div 256) @ [of_nat n]"

definition be_value :: "bytes \<Rightarrow> nat" where
  "be_value bs = foldl (\<lambda>a b. a * 256 + unat b) 0 bs"

section \<open>Insertion-ordered dictionaries\<close>

text \<open>
  A Python \<open>dict\<close> or \<open>OrderedDict\<close> is an association list in insertion order with
  distinct keys: \<open>d[k] = v\<close> is \<open>AList.update\<close> (in place, or at the end for a new
  key), \<open>d.pop(k, None)\<close> is \<open>AList.delete\<close>, \<open>d.get(k)\<close> is \<open>map_of\<close>.
\<close>

type_synonym ('k, 'v) odict = "('k \<times> 'v) list"

abbreviation od_keys :: "('k, 'v) odict \<Rightarrow> 'k list" where
  "od_keys d \<equiv> map fst d"

abbreviation od_ok :: "('k, 'v) odict \<Rightarrow> bool" where
  "od_ok d \<equiv> distinct (map fst d)"

definition od_setdefault :: "'k \<Rightarrow> 'v \<Rightarrow> ('k, 'v) odict \<Rightarrow> ('k, 'v) odict" where
  "od_setdefault k v d = (if k \<in> fst ` set d then d else d @ [(k, v)])"

definition od_move_to_end :: "'k \<Rightarrow> ('k, 'v) odict \<Rightarrow> ('k, 'v) odict" where
  "od_move_to_end k d =
     (case map_of d k of None \<Rightarrow> d | Some v \<Rightarrow> AList.delete k d @ [(k, v)])"

section \<open>Lemmas on byte strings\<close>

lemma unat_of_char [byte_simps, simp]: "unat (of_char c :: 8 word) = (of_char c :: nat)"
proof -
  have "(of_char c :: 8 word) = of_nat (of_char c :: nat)" by (rule of_nat_of_char [symmetric])
  then have "unat (of_char c :: 8 word) = (of_char c :: nat) mod 2 ^ LENGTH(8)"
    by (metis unat_of_nat)
  then show ?thesis by simp
qed

lemma of_char8_inj: "(of_char a :: 8 word) = of_char b \<longleftrightarrow> a = b"
  by (metis unat_of_char of_char_eq_iff)

lemma ascii_inj [simp]: "ascii s = ascii t \<longleftrightarrow> s = t"
  unfolding ascii_def using of_char8_inj by (metis inj_map_eq_map injI)

lemma length_ascii [simp]: "length (ascii s) = length s"
  by (simp add: ascii_def)

lemma ascii_append [simp]: "ascii (s @ t) = ascii s @ ascii t"
  by (simp add: ascii_def)

lemma ascii_eq_Nil [simp]: "ascii s = [] \<longleftrightarrow> s = []"
  by (simp add: ascii_def)

lemma length_byte_slice [simp]: "length (byte_slice xs a b) = min (b - a) (length xs - a)"
  by (simp add: byte_slice_def)

lemma byte_slice_append_mid [byte_simps]:
  "a = length p \<Longrightarrow> b = length p + length xs \<Longrightarrow> byte_slice (p @ xs @ s) a b = xs"
  by (simp add: byte_slice_def)

lemma find_from_append [byte_simps]:
  "start = length p \<Longrightarrow> c \<notin> set xs \<Longrightarrow>
     find_from c (p @ xs @ c # s) start = Some (length p + length xs)"
  by (auto simp: find_from_def Let_def takeWhile_append)

lemma find_from_bounds:
  assumes "find_from c data start = Some i"
  shows "start \<le> i" and "i < length data" and "data ! i = c"
proof -
  let ?k = "length (takeWhile (\<lambda>x. x \<noteq> c) (drop start data))"
  have i: "i = start + ?k" "start + ?k < length data"
    using assms by (auto simp: find_from_def Let_def split: if_splits)
  then have "?k < length (drop start data)" by simp
  then have "\<not> (drop start data ! ?k \<noteq> c)" by (rule nth_length_takeWhile)
  then show "start \<le> i" "i < length data" "data ! i = c" using i by auto
qed

lemma find_from_SomeD: "find_from c data start = Some i \<Longrightarrow> start \<le> i \<and> i < length data"
  using find_from_bounds by blast

lemma isdigit_Cons: "isdigit (x # xs) \<longleftrightarrow> is_digit x \<and> list_all is_digit xs"
  by (auto simp: isdigit_def)

section \<open>Lemmas on decimal text\<close>

lemma unat_of_nat8 [byte_simps]: "n < 256 \<Longrightarrow> unat (of_nat n :: 8 word) = n"
  by (simp add: unat_of_nat)

lemma unat_byte [byte_simps]: "unat (b :: 8 word) < 256"
  using unsigned_less[of b, where 'a = nat] by simp

lemma dec_value_snoc [simp]: "dec_value (ds @ [d]) = dec_value ds * 10 + (unat d - 48)"
  by (simp add: dec_value_def)

lemma dec_value_text [simp]: "dec_value (dec_text n) = n"
proof (induction n rule: dec_text.induct)
  case (1 n)
  show ?case
  proof (cases "n < 10")
    case True
    then show ?thesis by (subst dec_text.simps) (simp add: dec_value_def unat_of_nat8 del: of_nat_add)
  next
    case False
    have "48 + n mod 10 < 256" using mod_less_divisor[of 10 n] by linarith
    then have "unat (of_nat (48 + n mod 10) :: 8 word) = 48 + n mod 10"
      by (rule unat_of_nat8)
    with False 1 show ?thesis
      by (subst dec_text.simps) (simp del: of_nat_add)
  qed
qed

lemma is_digit_of_nat [simp]: "n < 10 \<Longrightarrow> is_digit (of_nat (48 + n))"
  by (auto simp: is_digit_def unat_of_nat simp del: of_nat_add)

lemma dec_text_digits: "list_all is_digit (dec_text n)"
proof (induction n rule: dec_text.induct)
  case (1 n)
  have "is_digit (of_nat (48 + n mod 10))" by (rule is_digit_of_nat) simp
  with 1 show ?case by (subst dec_text.simps) (auto simp del: of_nat_add)
qed

lemma dec_text_nonempty [simp]: "dec_text n \<noteq> []"
  by (subst dec_text.simps) simp

lemma isdigit_dec_text [simp]: "isdigit (dec_text n)"
  by (simp add: isdigit_def dec_text_digits)

lemma dec_text_hd_zero:
  assumes "hd (dec_text n) = 48" shows "n = 0"
  using assms
proof (induction n rule: dec_text.induct)
  case (1 n)
  show ?case
  proof (cases "n < 10")
    case True
    with "1.prems" have "(of_nat (48 + n) :: 8 word) = 48"
      by (subst (asm) dec_text.simps) simp
    then have "unat (of_nat (48 + n) :: 8 word) = 48" by simp
    with True show ?thesis by (simp add: unat_of_nat del: of_nat_add)
  next
    case False
    with "1.prems" have "hd (dec_text (n div 10)) = 48"
      by (subst (asm) dec_text.simps) simp
    with False "1.IH" have "n div 10 = 0" by blast
    with False show ?thesis by simp
  qed
qed

lemma length_dec_text_le: "length (dec_text n) \<le> Suc n"
proof (induction n rule: dec_text.induct)
  case (1 n)
  show ?case by (subst dec_text.simps) (use 1 in auto)
qed

lemma dec_text_0: "dec_text 0 = [48]"
  by (subst dec_text.simps) simp

section \<open>Lemmas on big-endian integers\<close>

lemma length_be_bytes [simp]: "length (be_bytes k n) = k"
  by (induction k arbitrary: n) auto

lemma be_value_snoc [simp]: "be_value (bs @ [b]) = be_value bs * 256 + unat b"
  by (simp add: be_value_def)

lemma be_value_Nil [simp]: "be_value [] = 0"
  by (simp add: be_value_def)

lemma be_value_bound: "be_value bs < 256 ^ length bs"
proof (induction bs rule: rev_induct)
  case Nil
  show ?case by simp
next
  case (snoc b bs)
  have "unat b < 256" by (rule unat_byte)
  with snoc show ?case by simp
qed

lemma be_value_be_bytes: "be_value (be_bytes k n) = n mod 256 ^ k"
proof (induction k arbitrary: n)
  case 0
  show ?case by simp
next
  case (Suc k)
  have "n mod (256 * 256 ^ k) = 256 * (n div 256 mod 256 ^ k) + n mod 256"
    by (rule mod_mult2_eq)
  then show ?case by (simp add: Suc unat_of_nat ac_simps)
qed

lemma be_bytes_be_value: "be_bytes (length bs) (be_value bs) = bs"
proof (induction bs rule: rev_induct)
  case Nil
  show ?case by simp
next
  case (snoc b bs)
  have b: "unat b < 256" by (rule unat_byte)
  then have "(be_value bs * 256 + unat b) div 256 = be_value bs" by simp
  moreover have "(of_nat (be_value bs * 256 + unat b) :: 8 word) = of_nat (unat b)"
    unfolding word_of_nat_eq_iff using b by (simp add: take_bit_eq_mod)
  ultimately show ?case using snoc by simp
qed

lemma be_value_inj: "length xs = length ys \<Longrightarrow> be_value xs = be_value ys \<Longrightarrow> xs = ys"
  by (metis be_bytes_be_value)

section \<open>Ranges and fixed-width chunks\<close>

text \<open>\<open>range(0, stop, step)\<close>, and \<open>[data[o:o + n] for o in range(0, len(data) - n + 1, n)]\<close>.\<close>

definition range_step :: "nat \<Rightarrow> nat \<Rightarrow> nat list" where
  "range_step stop step = map (\<lambda>k. k * step) [0..<(stop + step - 1) div step]"

definition chunks :: "nat \<Rightarrow> 'a list \<Rightarrow> 'a list list" where
  "chunks n xs = map (\<lambda>i. byte_slice xs i (i + n)) (range_step (length xs + 1 - n) n)"

lemma chunks_alt:
  assumes "0 < n"
  shows "chunks n xs = map (\<lambda>k. byte_slice xs (k * n) (k * n + n)) [0..<length xs div n]"
proof -
  have "(length xs + 1 - n + n - 1) div n = length xs div n"
    using assms by (cases "n \<le> length xs + 1") auto
  then show ?thesis by (simp add: chunks_def range_step_def)
qed

lemma length_chunks: "0 < n \<Longrightarrow> length (chunks n xs) = length xs div n"
  by (simp add: chunks_alt)

lemma chunks_width: "0 < n \<Longrightarrow> c \<in> set (chunks n xs) \<Longrightarrow> length c = n"
proof -
  assume n: "0 < n" and c: "c \<in> set (chunks n xs)"
  then obtain k where k: "k < length xs div n" and ck: "c = byte_slice xs (k * n) (k * n + n)"
    by (auto simp: chunks_alt)
  from k n have "Suc k * n \<le> length xs" using less_eq_div_iff_mult_less_eq[of n "Suc k" "length xs"] by simp
  then have "n \<le> length xs - k * n" by simp
  then show ?thesis by (simp add: ck)
qed

lemma chunks_short: "length xs < n \<Longrightarrow> chunks n xs = []"
  by (simp add: chunks_def range_step_def)

lemma chunks_append:
  assumes "length c = n" "0 < n"
  shows "chunks n (c @ xs) = c # chunks n xs"
proof -
  have "length (c @ xs) div n = Suc (length xs div n)" using assms by simp
  moreover have "byte_slice (c @ xs) (Suc k * n) (Suc k * n + n) = byte_slice xs (k * n) (k * n + n)" for k
    using assms by (simp add: byte_slice_def)
  moreover have "byte_slice (c @ xs) 0 n = c" using assms by (simp add: byte_slice_def)
  ultimately show ?thesis using assms(2)
    by (simp add: chunks_alt upt_conv_Cons del: upt_Suc mult_Suc flip: map_Suc_upt)
qed

section \<open>Lemmas on dictionaries\<close>

lemma map_fst_delete: "map fst (AList.delete k m) = removeAll k (map fst m)"
  by (induction m) auto

lemma length_delete_le: "length (AList.delete k m) \<le> length m"
  by (induction m) auto

lemma map_of_setdefault [dict_simps]:
  "map_of (od_setdefault k v d) = (if k \<in> dom (map_of d) then map_of d else (map_of d)(k \<mapsto> v))"
proof (cases "k \<in> fst ` set d")
  case False
  then have "map_of d k = None" by (simp add: map_of_eq_None_iff)
  with False show ?thesis
    by (auto simp: od_setdefault_def dom_map_of_conv_image_fst map_add_def fun_eq_iff split: option.splits)
qed (simp add: od_setdefault_def dom_map_of_conv_image_fst)

lemma od_ok_setdefault [dict_simps]: "od_ok d \<Longrightarrow> od_ok (od_setdefault k v d)"
  by (auto simp: od_setdefault_def image_iff)

lemma od_ok_delete [dict_simps]: "od_ok d \<Longrightarrow> od_ok (AList.delete k d)"
  by (simp add: map_fst_delete distinct_removeAll)

lemma od_ok_update [dict_simps]: "od_ok d \<Longrightarrow> od_ok (AList.update k v d)"
  by (rule AList.distinct_update)

lemma map_of_delete [dict_simps]: "map_of (AList.delete k d) = (map_of d)(k := None)"
  by (rule AList.delete_conv')

lemma map_of_update [dict_simps]: "map_of (AList.update k v d) = (map_of d)(k \<mapsto> v)"
  by (rule AList.update_conv')

lemma set_updateD: "p \<in> set (AList.update k v d) \<Longrightarrow> p = (k, v) \<or> p \<in> set d"
  by (induction d) (auto split: if_splits)

lemma keys_update: "fst ` set (AList.update k v d) = insert k (fst ` set d)"
  by (simp add: dom_update)

lemma set_delete: "set (AList.delete k d) = {p \<in> set d. fst p \<noteq> k}"
  by (induction d) auto

lemma keys_delete: "fst ` set (AList.delete k d) = fst ` set d - {k}"
  by (auto simp: set_delete)

text \<open>The sum of a measure over the values of a dictionary.\<close>

definition od_sum :: "('v \<Rightarrow> nat) \<Rightarrow> ('k, 'v) odict \<Rightarrow> nat" where
  "od_sum f d = (\<Sum>p \<leftarrow> d. f (snd p))"

lemma od_sum_Nil [simp]: "od_sum f [] = 0" and od_sum_Cons [simp]: "od_sum f (p # d) = f (snd p) + od_sum f d"
  by (simp_all add: od_sum_def)

lemma od_sum_delete:
  "od_ok d \<Longrightarrow> map_of d k = Some v \<Longrightarrow> od_sum f (AList.delete k d) + f v = od_sum f d"
proof (induction d)
  case (Cons p d)
  then have "k \<noteq> fst p \<or> AList.delete k d = d" by (auto simp: delete_id)
  with Cons show ?case by (cases p) (auto split: if_splits)
qed simp

lemma od_sum_update_new: "k \<notin> fst ` set d \<Longrightarrow> od_sum f (AList.update k v d) = od_sum f d + f v"
  by (induction d) (auto simp: od_sum_def)

lemma od_sum_update_old:
  "od_ok d \<Longrightarrow> map_of d k = Some v \<Longrightarrow> od_sum f (AList.update k w d) + f v = od_sum f d + f w"
  by (induction d) (auto simp: update_nonempty split: if_splits)

lemma update_same: "map_of d k = Some v \<Longrightarrow> od_ok d \<Longrightarrow> AList.update k v d = d"
  by (induction d) (auto split: if_splits)

lemma update_update: "AList.update k w (AList.update k v d) = AList.update k w d"
  by (induction d) auto

lemma delete_update_same: "AList.delete k (AList.update k v d) = AList.delete k d"
  by (induction d) auto

lemma length_update_le: "length (AList.update k v d) \<le> Suc (length d)"
  by (induction d) auto

lemma update_new: "k \<notin> fst ` set d \<Longrightarrow> AList.update k v d = d @ [(k, v)]"
  by (induction d) auto

lemma length_update_new: "k \<notin> fst ` set d \<Longrightarrow> length (AList.update k v d) = Suc (length d)"
  by (induction d) auto

lemma length_update_old: "k \<in> fst ` set d \<Longrightarrow> length (AList.update k v d) = length d"
  by (induction d) auto

lemma length_delete_old: "od_ok d \<Longrightarrow> k \<in> fst ` set d \<Longrightarrow> Suc (length (AList.delete k d)) = length d"
proof (induction d)
  case (Cons p d)
  then show ?case by (cases p) (auto simp: delete_id)
qed simp

section \<open>Codec interfaces\<close>

text \<open>
  A self-delimiting codec: decoding at the position where an encoding starts gives the value
  and the position after it, whatever surrounds it.
\<close>

locale prefix_codec =
  fixes enc :: "'a \<Rightarrow> 'e + bytes"
    and dec :: "bytes \<Rightarrow> nat \<Rightarrow> 'f + 'b \<times> nat"
    and canon :: "'a \<Rightarrow> 'b"
  assumes dec_at: "enc v = Inr x \<Longrightarrow> dec (p @ x @ s) (length p) = Inr (canon v, length p + length x)"
begin

lemma dec_front: "enc v = Inr x \<Longrightarrow> dec (x @ s) 0 = Inr (canon v, length x)"
  using dec_at[of v x "[]" s] by simp

lemma prefix_free:
  assumes "enc v = Inr x" and "enc w = Inr (x @ y)"
  shows "y = [] \<and> canon v = canon w"
  using dec_front[OF assms(1), of y] dec_front[OF assms(2), of "[]"] by simp

lemma enc_canon_inj: "enc v = Inr x \<Longrightarrow> enc w = Inr x \<Longrightarrow> canon v = canon w"
  using prefix_free[of v x w "[]"] by simp

end

text \<open>A fixed-width codec: a list of records is decoded chunk by chunk.\<close>

locale fixed_codec =
  fixes width :: nat
    and ok :: "'a \<Rightarrow> bool"
    and enc :: "'a \<Rightarrow> bytes"
    and dec :: "bytes \<Rightarrow> 'a"
  assumes width_pos: "0 < width"
    and enc_width: "ok a \<Longrightarrow> length (enc a) = width"
    and dec_enc: "ok a \<Longrightarrow> dec (enc a) = a"
begin

lemma dec_chunks: "list_all ok as \<Longrightarrow> map dec (chunks width (concat (map enc as))) = as"
proof (induction as)
  case Nil
  show ?case using width_pos by (simp add: chunks_short)
next
  case (Cons a as)
  then show ?case using width_pos by (simp add: chunks_append enc_width dec_enc)
qed

lemma length_concat_enc: "list_all ok as \<Longrightarrow> length (concat (map enc as)) = width * length as"
  by (induction as) (auto simp: enc_width)

end

section \<open>State machines\<close>

text \<open>A component as a state machine: an invariant of its steps holds in every reachable state.\<close>

locale invariant_system =
  fixes start :: "'s \<Rightarrow> bool"
    and step :: "'s \<Rightarrow> 's \<Rightarrow> bool"
    and inv :: "'s \<Rightarrow> bool"
  assumes start_inv: "start s \<Longrightarrow> inv s"
    and step_inv: "step s t \<Longrightarrow> inv s \<Longrightarrow> inv t"
begin

lemma steps_inv: "step\<^sup>*\<^sup>* s t \<Longrightarrow> inv s \<Longrightarrow> inv t"
  by (induction rule: rtranclp_induct) (auto intro: step_inv)

lemma reachable_inv: "start s \<Longrightarrow> step\<^sup>*\<^sup>* s t \<Longrightarrow> inv t"
  using steps_inv start_inv by blast

end

end
