(* ===== verification/Utf8_Text.thy ===== *)
theory Utf8_Text
  imports Scraper_Prelude
begin

text \<open>
  Python's UTF-8 codec as the program uses it: \<open>str.encode("utf-8")\<close>, which raises on
  surrogates, and \<open>bytes.decode("utf-8", errors="replace")\<close>, which puts U+FFFD in the place
  of every maximal invalid prefix. A \<open>str\<close> is the list of its code points.
\<close>

abbreviation cont_byte :: "nat \<Rightarrow> bool" where
  "cont_byte b \<equiv> 128 \<le> b \<and> b \<le> 191"

definition replacement_char :: nat where
  "replacement_char = 65533"

definition utf8_encode_char :: "nat \<Rightarrow> bytes option" where
  "utf8_encode_char c =
     (if c < 128 then Some [of_nat c]
      else if c < 2048 then Some [of_nat (192 + c div 64), of_nat (128 + c mod 64)]
      else if c < 65536 then
        (if 55296 \<le> c \<and> c \<le> 57343 then None
         else Some [of_nat (224 + c div 4096), of_nat (128 + c div 64 mod 64), of_nat (128 + c mod 64)])
      else if c < 1114112 then
        Some [of_nat (240 + c div 262144), of_nat (128 + c div 4096 mod 64),
              of_nat (128 + c div 64 mod 64), of_nat (128 + c mod 64)]
      else None)"

fun utf8_encode :: "ustr \<Rightarrow> bytes option" where
  "utf8_encode [] = Some []"
| "utf8_encode (c # cs) =
     (case (utf8_encode_char c, utf8_encode cs) of
        (Some x, Some y) \<Rightarrow> Some (x @ y) | _ \<Rightarrow> None)"

text \<open>The range of the second byte of a three- or four-byte sequence.\<close>

definition second_ok :: "nat \<Rightarrow> nat \<Rightarrow> bool" where
  "second_ok b0 b1 \<longleftrightarrow>
     (if b0 = 224 then 160 \<le> b1 \<and> b1 \<le> 191
      else if b0 = 237 then 128 \<le> b1 \<and> b1 \<le> 159
      else if b0 = 240 then 144 \<le> b1 \<and> b1 \<le> 191
      else if b0 = 244 then 128 \<le> b1 \<and> b1 \<le> 143
      else cont_byte b1)"

text \<open>
  One step of the decoder: the code point and the number of bytes it consumes.
\<close>

definition utf8_step :: "nat list \<Rightarrow> nat \<times> nat" where
  "utf8_step bs = (case bs of
     [] \<Rightarrow> (replacement_char, 1)
   | b0 # r0 \<Rightarrow>
     (if b0 < 128 then (b0, 1)
      else if 194 \<le> b0 \<and> b0 \<le> 223 then
        (case r0 of [] \<Rightarrow> (replacement_char, 1)
         | b1 # _ \<Rightarrow> if cont_byte b1 then ((b0 - 192) * 64 + (b1 - 128), 2) else (replacement_char, 1))
      else if 224 \<le> b0 \<and> b0 \<le> 239 then
        (case r0 of [] \<Rightarrow> (replacement_char, 1)
         | b1 # r1 \<Rightarrow> if \<not> second_ok b0 b1 then (replacement_char, 1)
             else (case r1 of [] \<Rightarrow> (replacement_char, 2)
               | b2 # _ \<Rightarrow> if cont_byte b2
                   then ((b0 - 224) * 4096 + (b1 - 128) * 64 + (b2 - 128), 3)
                   else (replacement_char, 2)))
      else if 240 \<le> b0 \<and> b0 \<le> 244 then
        (case r0 of [] \<Rightarrow> (replacement_char, 1)
         | b1 # r1 \<Rightarrow> if \<not> second_ok b0 b1 then (replacement_char, 1)
             else (case r1 of [] \<Rightarrow> (replacement_char, 2)
               | b2 # r2 \<Rightarrow> if \<not> cont_byte b2 then (replacement_char, 2)
                   else (case r2 of [] \<Rightarrow> (replacement_char, 3)
                     | b3 # _ \<Rightarrow> if cont_byte b3
                         then ((b0 - 240) * 262144 + (b1 - 128) * 4096 + (b2 - 128) * 64 + (b3 - 128), 4)
                         else (replacement_char, 3))))
      else (replacement_char, 1)))"

lemma utf8_step_consumes: "0 < snd (utf8_step bs)"
  by (auto simp: utf8_step_def split: list.splits)

function utf8_decode :: "nat list \<Rightarrow> ustr" where
  "utf8_decode bs = (if bs = [] then []
     else fst (utf8_step bs) # utf8_decode (drop (snd (utf8_step bs)) bs))"
  by pat_completeness auto
termination
  using utf8_step_consumes by (relation "measure length") auto

declare utf8_decode.simps [simp del]

definition decode_replace :: "bytes \<Rightarrow> ustr" where
  "decode_replace bs = utf8_decode (map unat bs)"

lemma utf8_step_3:
  assumes "h < 16" "m < 64" "l < 64" "h = 0 \<Longrightarrow> 32 \<le> m" "h = 13 \<Longrightarrow> m \<le> 31"
  shows "utf8_step ((224 + h) # (128 + m) # (128 + l) # rest) = (h * 4096 + m * 64 + l, 3)"
  using assms by (auto simp: utf8_step_def second_ok_def)

lemma utf8_step_4:
  assumes "t \<le> 4" "h < 64" "m < 64" "l < 64" "t = 0 \<Longrightarrow> 16 \<le> h" "t = 4 \<Longrightarrow> h \<le> 15"
  shows "utf8_step ((240 + t) # (128 + h) # (128 + m) # (128 + l) # rest) =
    (t * 262144 + h * 4096 + m * 64 + l, 4)"
  using assms by (auto simp: utf8_step_def second_ok_def)

lemma base64_split:
  fixes c :: nat
  shows "c div 4096 * 4096 + c div 64 mod 64 * 64 + c mod 64 = c" (is ?A)
    and "c div 262144 * 262144 + c div 4096 mod 64 * 4096 + c div 64 mod 64 * 64 + c mod 64 = c" (is ?B)
proof -
  have 1: "c div 64 * 64 + c mod 64 = c" by (rule div_mult_mod_eq)
  have 2: "c div 4096 * 64 + c div 64 mod 64 = c div 64"
    using div_mult_mod_eq[of "c div 64" 64] div_mult2_eq[of c 64 64] by simp
  have 3: "c div 262144 * 64 + c div 4096 mod 64 = c div 4096"
    using div_mult_mod_eq[of "c div 4096" 64] div_mult2_eq[of c 4096 64] by simp
  show ?A using 1 2 by linarith
  show ?B using 1 2 3 by linarith
qed

lemma utf8_step_encode_char:
  assumes "utf8_encode_char c = Some x"
  shows "utf8_step (map unat x @ rest) = (c, length x)"
proof -
  define l where "l = c mod 64"
  define m where "m = c div 64 mod 64"
  define h where "h = c div 4096 mod 64"
  have b: "l < 64" "m < 64" "h < 64" by (simp_all add: l_def m_def h_def)
  consider "c < 128" | "128 \<le> c" "c < 2048" | "2048 \<le> c" "c < 65536" "c < 55296 \<or> 57343 < c"
    | "65536 \<le> c" "c < 1114112"
    using assms by (auto simp: utf8_encode_char_def split: if_splits)
  then show ?thesis
  proof cases
    case 1
    with assms show ?thesis
      by (auto simp: utf8_encode_char_def utf8_step_def unat_of_nat8)
  next
    case 2
    define d where "d = c div 64"
    have c: "d * 64 + l = c" by (simp add: d_def l_def)
    have "x = [of_nat (192 + d), of_nat (128 + l)]"
      using 2 assms by (simp add: utf8_encode_char_def d_def l_def)
    with 2 b c show ?thesis
      by (auto simp: utf8_step_def unat_of_nat8 simp del: of_nat_add)
  next
    case 3
    define d where "d = c div 4096"
    have c: "d * 4096 + m * 64 + l = c" unfolding d_def m_def l_def by (rule base64_split)
    have x: "x = [of_nat (224 + d), of_nat (128 + m), of_nat (128 + l)]"
      using 3 assms by (auto simp: utf8_encode_char_def d_def m_def l_def)
    have "d < 16" "d = 0 \<Longrightarrow> 32 \<le> m" "d = 13 \<Longrightarrow> m \<le> 31" using 3 b c by auto
    with utf8_step_3[of d m l rest] b c x show ?thesis
      by (simp add: unat_of_nat8 del: of_nat_add)
  next
    case 4
    define d where "d = c div 262144"
    have c: "d * 262144 + h * 4096 + m * 64 + l = c"
      unfolding d_def h_def m_def l_def by (rule base64_split)
    have x: "x = [of_nat (240 + d), of_nat (128 + h), of_nat (128 + m), of_nat (128 + l)]"
      using 4 assms by (auto simp: utf8_encode_char_def d_def h_def m_def l_def)
    have "d \<le> 4" "d = 0 \<Longrightarrow> 16 \<le> h" "d = 4 \<Longrightarrow> h \<le> 15" using 4 b c by auto
    with utf8_step_4[of d h m l rest] b c x show ?thesis
      by (simp add: unat_of_nat8 del: of_nat_add)
  qed
qed

lemma utf8_roundtrip: "utf8_encode s = Some bs \<Longrightarrow> decode_replace bs = s"
proof (induction s arbitrary: bs)
  case Nil
  then show ?case by (simp add: decode_replace_def utf8_decode.simps)
next
  case (Cons c cs)
  then obtain x y where x: "utf8_encode_char c = Some x" and y: "utf8_encode cs = Some y" and bs: "bs = x @ y"
    by (auto split: option.splits)
  have "x \<noteq> []" using x by (auto simp: utf8_encode_char_def split: if_splits)
  then show ?case
    using utf8_step_encode_char[OF x, of "map unat y"] Cons.IH[OF y] bs
    by (simp add: decode_replace_def utf8_decode.simps[of "map unat x @ map unat y"])
qed

end
