(* ===== verification/Bencode_Codec.thy ===== *)
theory Bencode_Codec
  imports Utf8_Text
begin

text \<open>
  The bencode encoder and decoder of \<open>bencode_codec.py\<close>. Python values are the datatype
  \<open>pyvalue\<close>; the raised exceptions are the datatypes \<open>encode_error\<close> and
  \<open>decode_error\<close> (every \<open>decode_error\<close> but \<open>IndexOutOfRange\<close> is a
  \<open>ValueError\<close>, with the position its message names). The decoder works on absolute
  positions, as the source does. The main results: the decoder is total and moves forward,
  what it returns is made of ints, bytes, lists and dicts with distinct bytes keys, the
  encoder succeeds exactly on encodable values, and decoding what was encoded gives the value
  back with its dictionaries in key order, in any surrounding bytes.
\<close>

section \<open>Values\<close>

datatype pykey = KBytes bytes | KStr ustr | KOther

datatype pyvalue =
    PyNone
  | PyBool bool
  | PyInt int
  | PyBytes bytes
  | PyStr ustr
  | PyList "pyvalue list"
  | PyDict "(pykey \<times> pyvalue) list"
  | PyOther

type_synonym pydict = "(pykey \<times> pyvalue) list"

datatype encode_error = EncodeAssertion | TypeErrorBool | TypeErrorUnsupported | UnicodeEncodeError

datatype decode_error =
    IndexOutOfRange nat
  | UnterminatedInteger nat
  | InvalidInteger nat
  | MissingColon nat
  | InvalidStringLength nat
  | TruncatedString nat
  | UnterminatedList nat
  | UnterminatedDict nat
  | DictKeyNotString nat
  | DictValueMissing nat
  | UnknownPrefix byte nat
  | EmptyInput
  | TrailingData nat

text \<open>\<open>d.get(key)\<close> for a bytes key: \<open>None\<close> when the key is missing.\<close>

definition py_get :: "pydict \<Rightarrow> bytes \<Rightarrow> pyvalue" where
  "py_get d k = (case map_of d (KBytes k) of None \<Rightarrow> PyNone | Some v \<Rightarrow> v)"

definition is_plain_int :: "pyvalue \<Rightarrow> bool" where
  "is_plain_int value = (case value of PyInt _ \<Rightarrow> True | _ \<Rightarrow> False)"

section \<open>Encoding\<close>

definition str_int :: "int \<Rightarrow> bytes" where
  "str_int value = (if value < 0 then ascii ''-'' @ dec_text (nat (- value)) else dec_text (nat value))"

definition encode_int :: "int \<Rightarrow> bytes" where
  "encode_int value = ascii ''i'' @ str_int value @ ascii ''e''"

definition encode_bytes :: "bytes \<Rightarrow> bytes" where
  "encode_bytes value = dec_text (length value) @ ascii '':'' @ value"

text \<open>The dict comprehension of \<open>encode_dict\<close>: bytes keys, \<open>str\<close> keys encoded.\<close>

fun normalize_keys :: "(pykey \<times> 'v) list \<Rightarrow> (bytes \<times> 'v) list \<Rightarrow> encode_error + (bytes \<times> 'v) list" where
  "normalize_keys [] acc = Inr acc"
| "normalize_keys ((KBytes k, v) # rest) acc = normalize_keys rest (AList.update k v acc)"
| "normalize_keys ((KStr s, v) # rest) acc =
     (case utf8_encode s of
        None \<Rightarrow> Inl UnicodeEncodeError
      | Some k \<Rightarrow> normalize_keys rest (AList.update k v acc))"
| "normalize_keys ((KOther, v) # rest) acc = Inl EncodeAssertion"

abbreviation pair_sizes :: "('k \<times> pyvalue) list \<Rightarrow> nat" where
  "pair_sizes \<equiv> size_list (size_prod (\<lambda>_. 0) size)"

lemma size_update_le: "pair_sizes (AList.update k v acc) \<le> pair_sizes acc + size v + 2"
  by (induction acc) auto

lemma size_normalize_le:
  "normalize_keys kvs acc = Inr nkvs \<Longrightarrow> pair_sizes nkvs \<le> pair_sizes acc + pair_sizes kvs"
proof (induction kvs acc arbitrary: nkvs rule: normalize_keys.induct)
  case (2 k v rest acc)
  then show ?case using size_update_le[of k v acc] by fastforce
next
  case (3 s v rest acc)
  then obtain k where "utf8_encode s = Some k" by (auto split: option.splits)
  with 3 show ?case using size_update_le[of k v acc] by fastforce
qed auto

lemma size_list_sort_key [simp]: "size_list f (sort_key g xs) = size_list f xs"
  by (simp add: size_list_conv_sum_list) (metis mset_map mset_sort sum_mset_sum_list)

text \<open>
  \<open>b"".join(...)\<close> over the items is \<open>encode_list_items\<close>, over the sorted
  pairs of a dictionary \<open>encode_dict_items\<close>.
\<close>

function encode_bencode :: "pyvalue \<Rightarrow> encode_error + bytes"
  and encode_list_items :: "pyvalue list \<Rightarrow> encode_error + bytes"
  and encode_dict_items :: "(bytes \<times> pyvalue) list \<Rightarrow> encode_error + bytes"
where
  "encode_bencode PyNone = Inl EncodeAssertion"
| "encode_bencode (PyBool b) = Inl TypeErrorBool"
| "encode_bencode (PyInt n) = Inr (encode_int n)"
| "encode_bencode (PyBytes x) = Inr (encode_bytes x)"
| "encode_bencode (PyStr s) =
     (case utf8_encode s of None \<Rightarrow> Inl UnicodeEncodeError | Some x \<Rightarrow> Inr (encode_bytes x))"
| "encode_bencode (PyList values) =
     (case encode_list_items values of
        Inl e \<Rightarrow> Inl e
      | Inr body \<Rightarrow> Inr (ascii ''l'' @ body @ ascii ''e''))"
| "encode_bencode (PyDict values) =
     (if KOther \<in> fst ` set values then Inl EncodeAssertion
      else case normalize_keys values [] of
        Inl e \<Rightarrow> Inl e
      | Inr normalized \<Rightarrow>
          (case encode_dict_items (sort_key fst normalized) of
             Inl e \<Rightarrow> Inl e
           | Inr body \<Rightarrow> Inr (ascii ''d'' @ body @ ascii ''e'')))"
| "encode_bencode PyOther = Inl TypeErrorUnsupported"
| "encode_list_items [] = Inr []"
| "encode_list_items (v # vs) =
     (case encode_bencode v of
        Inl e \<Rightarrow> Inl e
      | Inr x \<Rightarrow> (case encode_list_items vs of Inl e \<Rightarrow> Inl e | Inr xs \<Rightarrow> Inr (x @ xs)))"
| "encode_dict_items [] = Inr []"
| "encode_dict_items ((k, v) # kvs) =
     (case encode_bencode v of
        Inl e \<Rightarrow> Inl e
      | Inr x \<Rightarrow>
          (case encode_dict_items kvs of
             Inl e \<Rightarrow> Inl e
           | Inr xs \<Rightarrow> Inr (encode_bytes k @ x @ xs)))"
  by pat_completeness auto
termination
proof (relation "measure (\<lambda>x. case x of
     Inl v \<Rightarrow> size v | Inr (Inl vs) \<Rightarrow> size_list size vs | Inr (Inr kvs) \<Rightarrow> pair_sizes kvs)",
     goal_cases)
  case (3 vs x)
  then show ?case using size_normalize_le[of vs "[]" x] by simp
qed auto

section \<open>Decoding\<close>

definition decode_int_at :: "bytes \<Rightarrow> nat \<Rightarrow> decode_error + int \<times> nat" where
  "decode_int_at data index =
     (case find_from (of_char CHR ''e'') data (index + 1) of
        None \<Rightarrow> Inl (UnterminatedInteger index)
      | Some end_index \<Rightarrow>
          let text = byte_slice data (index + 1) end_index;
              digits = (if take 1 text = ascii ''-'' then drop 1 text else text)
          in if \<not> isdigit digits \<or> (1 < length digits \<and> take 1 digits = ascii ''0'')
                \<or> text = ascii ''-0''
             then Inl (InvalidInteger index)
             else Inr (if take 1 text = ascii ''-'' then - int (dec_value digits)
                       else int (dec_value digits), end_index + 1))"

definition decode_bytes_at :: "bytes \<Rightarrow> nat \<Rightarrow> decode_error + bytes \<times> nat" where
  "decode_bytes_at data index =
     (case find_from (of_char CHR '':'') data index of
        None \<Rightarrow> Inl (MissingColon index)
      | Some colon \<Rightarrow>
          let length_text = byte_slice data index colon
          in if \<not> isdigit length_text then Inl (InvalidStringLength index)
             else let start = colon + 1; next_index = start + dec_value length_text
                  in if next_index > length data then Inl (TruncatedString index)
                     else Inr (byte_slice data start next_index, next_index))"

text \<open>
  \<open>decode_list_from\<close> and \<open>decode_dict_from\<close> are the loops of \<open>decode_list_at\<close> and
  \<open>decode_dict_at\<close>: the index the value starts at, the current position and the items so far.
\<close>

function (domintros) decode_value_at :: "bytes \<Rightarrow> nat \<Rightarrow> decode_error + pyvalue \<times> nat"
  and decode_list_from :: "bytes \<Rightarrow> nat \<Rightarrow> nat \<Rightarrow> pyvalue list \<Rightarrow> decode_error + pyvalue list \<times> nat"
  and decode_dict_from :: "bytes \<Rightarrow> nat \<Rightarrow> nat \<Rightarrow> pydict \<Rightarrow> decode_error + pydict \<times> nat"
where
  "decode_value_at data index =
     (if \<not> index < length data then Inl (IndexOutOfRange index)
      else if data ! index = of_char CHR ''i'' then
        (case decode_int_at data index of
           Inl e \<Rightarrow> Inl e | Inr (n, next_index) \<Rightarrow> Inr (PyInt n, next_index))
      else if data ! index = of_char CHR ''l'' then
        (case decode_list_from data index (index + 1) [] of
           Inl e \<Rightarrow> Inl e | Inr (items, next_index) \<Rightarrow> Inr (PyList items, next_index))
      else if data ! index = of_char CHR ''d'' then
        (case decode_dict_from data index (index + 1) [] of
           Inl e \<Rightarrow> Inl e | Inr (items, next_index) \<Rightarrow> Inr (PyDict items, next_index))
      else if is_digit (data ! index) then
        (case decode_bytes_at data index of
           Inl e \<Rightarrow> Inl e | Inr (value, next_index) \<Rightarrow> Inr (PyBytes value, next_index))
      else Inl (UnknownPrefix (data ! index) index))"
| "decode_list_from data index position items =
     (if position \<ge> length data then Inl (UnterminatedList index)
      else if data ! position = of_char CHR ''e'' then Inr (items, position + 1)
      else (case decode_value_at data position of
              Inl e \<Rightarrow> Inl e
            | Inr (item, position') \<Rightarrow> decode_list_from data index position' (items @ [item])))"
| "decode_dict_from data index position items =
     (if position \<ge> length data then Inl (UnterminatedDict index)
      else if data ! position = of_char CHR ''e'' then Inr (items, position + 1)
      else if \<not> is_digit (data ! position) then Inl (DictKeyNotString position)
      else (case decode_bytes_at data position of
              Inl e \<Rightarrow> Inl e
            | Inr (key, position') \<Rightarrow>
                if position' \<ge> length data then Inl (DictValueMissing position')
                else (case decode_value_at data position' of
                        Inl e \<Rightarrow> Inl e
                      | Inr (value, position'') \<Rightarrow>
                          decode_dict_from data index position''
                            (AList.update (KBytes key) value items))))"
  by pat_completeness auto

lemma decode_int_at_forward:
  "decode_int_at data i = Inr (n, j) \<Longrightarrow> i < j \<and> j \<le> length data"
  by (auto simp: decode_int_at_def Let_def split: option.splits if_splits
      dest!: find_from_SomeD)

lemma decode_bytes_at_forward:
  "decode_bytes_at data i = Inr (v, j) \<Longrightarrow> i < j \<and> j \<le> length data"
  by (auto simp: decode_bytes_at_def Let_def split: option.splits if_splits
      dest!: find_from_SomeD)

lemma decode_forward_dom:
  "decode_value_at_decode_list_from_decode_dict_from_dom (Inl (data, i)) \<Longrightarrow>
     decode_value_at data i = Inr (v, j) \<Longrightarrow> i < j \<and> j \<le> length data"
  "decode_value_at_decode_list_from_decode_dict_from_dom (Inr (Inl (data, i, p, vs))) \<Longrightarrow>
     decode_list_from data i p vs = Inr (ws, j) \<Longrightarrow> p < j \<and> j \<le> length data"
  "decode_value_at_decode_list_from_decode_dict_from_dom (Inr (Inr (data, i, p, ks))) \<Longrightarrow>
     decode_dict_from data i p ks = Inr (ls, j) \<Longrightarrow> p < j \<and> j \<le> length data"
proof (induction data i and data i p vs and data i p ks arbitrary: v j and ws j and ls j
    rule: decode_value_at_decode_list_from_decode_dict_from.pinduct)
  case (1 data index)
  from "1.hyps" "1.prems" "1.IH" show ?case
    by (auto simp: decode_value_at.psimps split: if_splits sum.splits
        dest!: decode_int_at_forward decode_bytes_at_forward)
next
  case (2 data index position items)
  show ?case
  proof (cases "position < length data \<and> data ! position \<noteq> of_char CHR ''e''")
    case False
    with "2.hyps" "2.prems" show ?thesis by (auto simp: decode_list_from.psimps split: if_splits)
  next
    case True
    with "2.hyps" "2.prems" obtain x q where "decode_value_at data position = Inr (x, q)"
      and "decode_list_from data index q (items @ [x]) = Inr (ws, j)"
      by (auto simp: decode_list_from.psimps split: sum.splits)
    with True "2.IH" show ?thesis by fastforce
  qed
next
  case (3 data index position items)
  show ?case
  proof (cases "position < length data \<and> data ! position \<noteq> of_char CHR ''e'' \<and> is_digit (data ! position)")
    case False
    with "3.hyps" "3.prems" show ?thesis by (auto simp: decode_dict_from.psimps split: if_splits)
  next
    case True
    with "3.hyps" "3.prems" obtain k p x q where k: "decode_bytes_at data position = Inr (k, p)"
      and "p < length data" and "decode_value_at data p = Inr (x, q)"
      and "decode_dict_from data index q (AList.update (KBytes k) x items) = Inr (ls, j)"
      by (auto simp: decode_dict_from.psimps split: sum.splits if_splits)
    with True "3.IH" decode_bytes_at_forward[OF k] show ?thesis by fastforce
  qed
qed

lemma decode_dom_all: "All decode_value_at_decode_list_from_decode_dict_from_dom"
by (relation "measures [\<lambda>x. case x of Inl (data, i) \<Rightarrow> length data - i
      | Inr (Inl (data, i, p, vs)) \<Rightarrow> length data - p | Inr (Inr (data, i, p, ks)) \<Rightarrow> length data - p,
    \<lambda>x. case x of Inl _ \<Rightarrow> 0 | _ \<Rightarrow> 1]")
  (auto dest!: decode_forward_dom(1) decode_bytes_at_forward)

termination decode_value_at
  by (rule decode_dom_all)

lemmas decode_value_at_forward = decode_forward_dom(1)[OF spec[OF decode_dom_all]]

declare decode_value_at.simps [simp del] decode_list_from.simps [simp del] decode_dict_from.simps [simp del]



definition decode_bencode :: "bytes \<Rightarrow> decode_error + pyvalue" where
  "decode_bencode data =
     (if length data = 0 then Inl EmptyInput
      else case decode_value_at data 0 of
        Inl e \<Rightarrow> Inl e
      | Inr (value, next_index) \<Rightarrow>
          if next_index \<noteq> length data then Inl (TrailingData next_index) else Inr value)"

section \<open>Canonical form\<close>

text \<open>
  What a value becomes on the wire: \<open>str\<close> becomes UTF-8 bytes and dictionaries are in
  key order with bytes keys.
\<close>

function canonical :: "pyvalue \<Rightarrow> pyvalue" where
  "canonical (PyStr s) = (case utf8_encode s of None \<Rightarrow> PyStr s | Some x \<Rightarrow> PyBytes x)"
| "canonical (PyList values) = PyList (map canonical values)"
| "canonical (PyDict values) =
     (case normalize_keys values [] of
        Inl e \<Rightarrow> PyDict values
      | Inr normalized \<Rightarrow>
          PyDict (map (\<lambda>p. (KBytes (fst p), canonical (snd p))) (sort_key fst normalized)))"
| "canonical PyNone = PyNone"
| "canonical (PyBool b) = PyBool b"
| "canonical (PyInt n) = PyInt n"
| "canonical (PyBytes x) = PyBytes x"
| "canonical PyOther = PyOther"
  by pat_completeness auto

lemma pair_sizes_member: "p \<in> set kvs \<Longrightarrow> size (snd p) < pair_sizes kvs"
  by (induction kvs) (auto simp: less_Suc_eq_le trans_le_add1 trans_le_add2 split: prod.splits)

termination canonical
proof (relation "measure size", goal_cases)
  case (3 vs x p)
  then show ?case using size_normalize_le[of vs "[]" x] pair_sizes_member[of p x] by auto
qed (auto simp: less_Suc_eq_le size_list_estimation')

section \<open>What the decoder returns\<close>

fun plain :: "pyvalue \<Rightarrow> bool" where
  "plain (PyInt n) = True"
| "plain (PyBytes x) = True"
| "plain (PyList vs) = (\<forall>v \<in> set vs. plain v)"
| "plain (PyDict kvs) =
     (distinct (map fst kvs) \<and> (\<forall>p \<in> set kvs. (\<exists>k. fst p = KBytes k) \<and> plain (snd p)))"
| "plain _ = False"

lemma set_update_subset: "p \<in> set (AList.update k v d) \<Longrightarrow> p = (k, v) \<or> p \<in> set d"
  by (induction d) (auto split: if_splits)

lemma plain_update:
  "plain (PyDict kvs) \<Longrightarrow> plain v \<Longrightarrow> plain (PyDict (AList.update (KBytes k) v kvs))"
  using AList.distinct_update[of kvs "KBytes k" v] by (auto dest!: set_update_subset)

lemma decode_list_from_InrE:
  assumes "decode_list_from data i p vs = Inr (ws, j)"
  obtains (stop) "p < length data" "data ! p = of_char CHR ''e''" "ws = vs" "j = p + 1"
  | (item) x q where "p < length data" "data ! p \<noteq> of_char CHR ''e''"
      "decode_value_at data p = Inr (x, q)" "decode_list_from data i q (vs @ [x]) = Inr (ws, j)"
  using assms by (auto simp: decode_list_from.simps[of data i p vs] split: if_splits sum.splits)

lemma decode_dict_from_InrE:
  assumes "decode_dict_from data i p ks = Inr (ls, j)"
  obtains (stop) "p < length data" "data ! p = of_char CHR ''e''" "ls = ks" "j = p + 1"
  | (item) k q x r where "p < length data" "data ! p \<noteq> of_char CHR ''e''" "is_digit (data ! p)"
      "decode_bytes_at data p = Inr (k, q)" "q < length data" "decode_value_at data q = Inr (x, r)"
      "decode_dict_from data i r (AList.update (KBytes k) x ks) = Inr (ls, j)"
  using assms by (auto simp: decode_dict_from.simps[of data i p ks] not_le split: if_splits sum.splits)

lemma decode_plain:
  "decode_value_at data i = Inr (v, j) \<Longrightarrow> plain v"
  "decode_list_from data i p vs = Inr (ws, j) \<Longrightarrow> plain (PyList vs) \<Longrightarrow> plain (PyList ws)"
  "decode_dict_from data i p ks = Inr (ls, j) \<Longrightarrow> plain (PyDict ks) \<Longrightarrow> plain (PyDict ls)"
proof (induction data i and data i p vs and data i p ks arbitrary: v j and ws j and ls j
    rule: decode_value_at_decode_list_from_decode_dict_from.induct)
  case (1 data index)
  then show ?case
    by (auto simp: decode_value_at.simps[of data index] split: if_splits sum.splits)
next
  case (2 data index position items)
  from "2.prems"(1) show ?case
  proof (cases rule: decode_list_from_InrE)
    case stop
    with "2.prems" show ?thesis by simp
  next
    case (item x q)
    then have "plain x" using "2.IH"(1) by simp
    with "2.prems"(2) have "plain (PyList (items @ [x]))" by auto
    with item show ?thesis using "2.IH"(2)[of "(x, q)" x q ws j] by (simp del: plain.simps)
  qed
next
  case (3 data index position items)
  from "3.prems"(1) show ?case
  proof (cases rule: decode_dict_from_InrE)
    case stop
    with "3.prems" show ?thesis by simp
  next
    case (item k q x r)
    then have "plain x" using "3.IH"(1)[of "(k, q)" k q x r] by simp
    then have "plain (PyDict (AList.update (KBytes k) x items))"
      using "3.prems"(2) by (rule plain_update[rotated])
    with item show ?thesis
      using "3.IH"(2)[of "(k, q)" k q "(x, r)" x r ls j] by (simp del: plain.simps)
  qed
qed

lemma decode_bytes_at_index: "decode_bytes_at data i \<noteq> Inl (IndexOutOfRange k)"
  by (auto simp: decode_bytes_at_def Let_def split: option.splits)

lemma decode_index_error:
  "decode_value_at data i = Inl (IndexOutOfRange k) \<Longrightarrow> length data \<le> i"
  "decode_list_from data i p vs \<noteq> Inl (IndexOutOfRange k)"
  "decode_dict_from data i p ks \<noteq> Inl (IndexOutOfRange k)"
proof (induction data i and data i p vs and data i p ks
    rule: decode_value_at_decode_list_from_decode_dict_from.induct)
  case (1 data index)
  then show ?case
    by (auto simp: decode_value_at.simps[of data index] decode_int_at_def decode_bytes_at_def Let_def
       split: if_splits sum.splits option.splits)
next
  case (2 data index position items)
  then show ?case
    by (auto simp: decode_list_from.simps[of data index position items] split: if_splits sum.splits)
next
  case (3 data index position items)
  then show ?case
    by (auto simp: decode_dict_from.simps[of data index position items] decode_bytes_at_index
       split: if_splits sum.splits)
qed

section \<open>Round trip\<close>

lemma digits_no_letter:
  "list_all is_digit xs \<Longrightarrow> unat c < 48 \<or> 57 < unat c \<Longrightarrow> c \<notin> set xs"
  by (auto simp: list_all_iff is_digit_def)

lemma nth_append_hd: "xs \<noteq> [] \<Longrightarrow> (p @ xs @ s) ! length p = hd xs"
  by (simp add: nth_append hd_conv_nth)

lemma decode_int_at_encode:
  "decode_int_at (p @ encode_int n @ s) (length p) = Inr (n, length p + length (encode_int n))"
proof -
  have no_e: "of_char CHR ''e'' \<notin> set (str_int n)"
    using digits_no_letter[OF dec_text_digits] by (auto simp: str_int_def ascii_def)
  have data: "p @ encode_int n @ s = (p @ ascii ''i'') @ str_int n @ of_char CHR ''e'' # s"
    by (simp add: encode_int_def ascii_def)
  have f: "find_from (of_char CHR ''e'') (p @ encode_int n @ s) (length p + 1) = Some (length p + 1 + length (str_int n))"
    unfolding data by (subst find_from_append[OF _ no_e]) auto
  have t: "byte_slice (p @ encode_int n @ s) (length p + 1) (length p + 1 + length (str_int n)) = str_int n"
    unfolding data by (rule byte_slice_append_mid) auto
  have neg: "take 1 (str_int n) = ascii ''-'' \<longleftrightarrow> n < 0"
    using dec_text_digits[of "nat n"]
    by (cases "dec_text (nat n)") (auto simp: str_int_def ascii_def is_digit_def)
  have len: "1 < length (dec_text m) \<Longrightarrow> take 1 (dec_text m) \<noteq> ascii ''0''" for m
    using dec_text_hd_zero[of m] dec_text_0
    by (cases "dec_text m") (auto simp: ascii_def)
  have not0: "n < 0 \<Longrightarrow> dec_text (nat (- n)) \<noteq> ascii ''0''"
    using dec_text_hd_zero[of "nat (- n)"] by (auto simp: ascii_def)
  have dash: "dec_text m \<noteq> ascii ''-0''" for m
    using dec_text_digits[of m] by (auto simp: ascii_def is_digit_def)
  show ?thesis
    unfolding decode_int_at_def f option.case t Let_def neg
    using len[of "nat n"] len[of "nat (- n)"] not0 dash[of "nat n"]
    by (auto simp: str_int_def encode_int_def ascii_def)
qed

lemma decode_bytes_at_encode:
  "decode_bytes_at (p @ encode_bytes x @ s) (length p) = Inr (x, length p + length (encode_bytes x))"
proof -
  let ?d = "dec_text (length x)"
  have no_colon: "of_char CHR '':'' \<notin> set ?d"
    using digits_no_letter[OF dec_text_digits] by auto
  have data: "p @ encode_bytes x @ s = p @ ?d @ of_char CHR '':'' # (x @ s)"
    by (simp add: encode_bytes_def ascii_def)
  have f: "find_from (of_char CHR '':'') (p @ encode_bytes x @ s) (length p) = Some (length p + length ?d)"
    unfolding data by (subst find_from_append[OF _ no_colon]) auto
  have t: "byte_slice (p @ encode_bytes x @ s) (length p) (length p + length ?d) = ?d"
    unfolding data by (rule byte_slice_append_mid) auto
  have v: "byte_slice (p @ encode_bytes x @ s) (length p + length ?d + 1) (length p + length ?d + 1 + length x) = x"
    using byte_slice_append_mid[of "length p + length ?d + 1" "p @ ?d @ ascii '':''" _ x s]
    by (simp add: encode_bytes_def ascii_def)
  show ?thesis
    unfolding decode_bytes_at_def f option.case t Let_def
    using v by (simp add: encode_bytes_def)
qed

lemma encode_int_head: "hd (encode_int n) = of_char CHR ''i''" "encode_int n \<noteq> []"
  by (auto simp: encode_int_def ascii_def)

lemma encode_bytes_head: "is_digit (hd (encode_bytes x))" "encode_bytes x \<noteq> []"
  using dec_text_digits[of "length x"]
  by (auto simp: encode_bytes_def list_all_iff)

lemma is_digit_not_letter [simp]:
  "is_digit c \<Longrightarrow> c \<noteq> of_char CHR ''i'' \<and> c \<noteq> of_char CHR ''l'' \<and> c \<noteq> of_char CHR ''d'' \<and> c \<noteq> of_char CHR ''e''"
  by (auto simp: is_digit_def)

lemma encode_bytes_not_letter:
  "hd (encode_bytes x) \<noteq> of_char CHR ''i'' \<and> hd (encode_bytes x) \<noteq> of_char CHR ''l''
    \<and> hd (encode_bytes x) \<noteq> of_char CHR ''d'' \<and> hd (encode_bytes x) \<noteq> of_char CHR ''e''"
  by (rule is_digit_not_letter) (rule encode_bytes_head)

lemma encode_head:
  assumes "encode_bencode v = Inr x"
  shows "x \<noteq> [] \<and> hd x \<noteq> of_char CHR ''e''"
  using assms encode_int_head encode_bytes_head encode_bytes_not_letter
  by (cases v) (auto simp: ascii_def split: option.splits sum.splits if_splits)

lemma distinct_normalize_keys:
  "normalize_keys kvs acc = Inr n \<Longrightarrow> distinct (map fst acc) \<Longrightarrow> distinct (map fst n)"
  by (induction kvs acc rule: normalize_keys.induct)
    (auto simp: AList.distinct_update split: option.splits)

lemma distinct_fst_sort_key [simp]: "distinct (map fst (sort_key fst n)) \<longleftrightarrow> distinct (map fst n)"
  by (rule mset_eq_imp_distinct_iff) simp

lemma distinct_normalized: "normalize_keys kvs [] = Inr n \<Longrightarrow> distinct (map fst (sort_key fst n))"
  using distinct_normalize_keys[of kvs "[]" n] by simp

lemma decode_encode_at:
  "encode_bencode v = Inr x \<Longrightarrow>
     decode_value_at (p @ x @ s) (length p) = Inr (canonical v, length p + length x)"
  "encode_list_items vs = Inr x \<Longrightarrow>
     decode_list_from (p @ x @ ascii ''e'' @ s) i (length p) acc
       = Inr (acc @ map canonical vs, length p + length x + 1)"
  "encode_dict_items kvs = Inr x \<Longrightarrow> distinct (map fst kvs) \<Longrightarrow>
     (\<forall>k \<in> set (map fst kvs). KBytes k \<notin> set (map fst dacc)) \<Longrightarrow>
     decode_dict_from (p @ x @ ascii ''e'' @ s) i (length p) dacc
       = Inr (dacc @ map (\<lambda>q. (KBytes (fst q), canonical (snd q))) kvs, length p + length x + 1)"
proof (induction v and vs and kvs arbitrary: x p s and x p s i acc and x p s i dacc
    rule: encode_bencode_encode_list_items_encode_dict_items.induct)
  case (3 n)
  then show ?case using decode_int_at_encode[of p n s] encode_int_head[of n]
    by (auto simp: decode_value_at.simps nth_append_hd)
next
  case (4 b)
  then show ?case using decode_bytes_at_encode[of p b s] encode_bytes_head[of b] encode_bytes_not_letter[of b]
    by (auto simp: decode_value_at.simps nth_append_hd)
next
  case (5 u)
  then obtain b where b: "utf8_encode u = Some b" "x = encode_bytes b" by (auto split: option.splits)
  then show ?case using decode_bytes_at_encode[of p b s] encode_bytes_head[of b] encode_bytes_not_letter[of b]
    by (auto simp: decode_value_at.simps nth_append_hd)
next
  case (6 vs)
  then obtain body where body: "encode_list_items vs = Inr body" and x: "x = ascii ''l'' @ body @ ascii ''e''"
    by (auto split: sum.splits)
  from "6.IH"[OF body, of "p @ ascii ''l''" s "length p" "[]"] x
  show ?case by (simp add: decode_value_at.simps nth_append_hd) (simp add: ascii_def)
next
  case (7 kvs)
  then obtain n body where n: "normalize_keys kvs [] = Inr n"
    and body: "encode_dict_items (sort_key fst n) = Inr body" and x: "x = ascii ''d'' @ body @ ascii ''e''"
    and ko: "KOther \<notin> fst ` set kvs"
    by (auto split: sum.splits if_splits)
  have "distinct (map fst (sort_key fst n))" by (rule distinct_normalized[OF n])
  from "7.IH"[OF ko n body this, where dacc = "[]" and p = "p @ ascii ''d''" and s = s and i = "length p"] x n
  show ?case by (simp add: decode_value_at.simps nth_append_hd) (simp add: ascii_def)
next
  case (10 v vs)
  then obtain y ys where y: "encode_bencode v = Inr y" and ys: "encode_list_items vs = Inr ys" and x: "x = y @ ys"
    by (auto split: sum.splits)
  from "10.IH"(1)[OF y, of p "ys @ ascii ''e'' @ s"] "10.IH"(2)[OF y ys, of "p @ y" s i "acc @ [canonical v]"]
    encode_head[OF y] x
  show ?case by (simp add: decode_list_from.simps[of _ i "length p"] nth_append_hd)
next
  case (12 k v kvs)
  then obtain y ys where y: "encode_bencode v = Inr y" and ys: "encode_dict_items kvs = Inr ys"
    and x: "x = encode_bytes k @ y @ ys"
    by (auto split: sum.splits)
  let ?rest = "y @ ys @ ascii ''e'' @ s"
  have new: "AList.update (KBytes k) (canonical v) dacc = dacc @ [(KBytes k, canonical v)]"
    using "12.prems"(3) by (induction dacc) auto
  have k: "decode_bytes_at (p @ encode_bytes k @ ?rest) (length p) = Inr (k, length p + length (encode_bytes k))"
    by (rule decode_bytes_at_encode)
  from "12.IH"(1)[OF y, of "p @ encode_bytes k" "ys @ ascii ''e'' @ s"]
    "12.IH"(2)[OF y ys, of "dacc @ [(KBytes k, canonical v)]" "p @ encode_bytes k @ y" s i]
    "12.prems"(2,3) encode_head[OF y] encode_bytes_head[of k] encode_bytes_not_letter[of k] k new x
  show ?case by (auto simp add: decode_dict_from.simps[of _ i "length p"] nth_append_hd ac_simps)
qed (auto simp: decode_list_from.simps decode_dict_from.simps ascii_def nth_append)

interpretation bencode: prefix_codec encode_bencode decode_value_at canonical
  by unfold_locales (rule decode_encode_at(1))

section \<open>Plain values\<close>

lemma normalize_plain:
  "\<forall>p \<in> set kvs. \<exists>k. fst p = KBytes k \<Longrightarrow> \<exists>n. normalize_keys kvs acc = Inr n \<and> snd ` set n \<subseteq> snd ` set acc \<union> snd ` set kvs"
proof (induction kvs acc rule: normalize_keys.induct)
  case (2 k v rest acc)
  then obtain n where "normalize_keys rest (AList.update k v acc) = Inr n"
    "snd ` set n \<subseteq> snd ` set (AList.update k v acc) \<union> snd ` set rest"
    by auto
  moreover have "snd ` set (AList.update k v acc) \<subseteq> insert v (snd ` set acc)"
    using set_update_subset by fastforce
  ultimately show ?case by auto
qed auto

lemma encode_list_items_total: "\<forall>v \<in> set vs. \<exists>x. encode_bencode v = Inr x \<Longrightarrow> \<exists>x. encode_list_items vs = Inr x"
  by (induction vs) auto

lemma encode_dict_items_total: "\<forall>p \<in> set kvs. \<exists>x. encode_bencode (snd p) = Inr x \<Longrightarrow> \<exists>x. encode_dict_items kvs = Inr x"
  by (induction kvs) auto

lemma plain_encodable: "plain v \<Longrightarrow> \<exists>x. encode_bencode v = Inr x"
proof (induction v rule: plain.induct)
  case (3 vs)
  then show ?case using encode_list_items_total[of vs] by auto
next
  case (4 kvs)
  then obtain n where n: "normalize_keys kvs [] = Inr n" "snd ` set n \<subseteq> snd ` set kvs"
    using normalize_plain[of kvs "[]"] by auto
  have "\<forall>p \<in> set (sort_key fst n). \<exists>x. encode_bencode (snd p) = Inr x"
    using n(2) "4" by (auto simp: image_subset_iff)
  then obtain x where "encode_dict_items (sort_key fst n) = Inr x"
    using encode_dict_items_total by blast
  moreover have "KOther \<notin> fst ` set kvs" using "4.prems" by force
  ultimately show ?case using n by auto
qed auto

lemma plain_fields [simp]:
  "plain (PyDict ((KBytes k, v) # kvs)) \<longleftrightarrow> KBytes k \<notin> fst ` set kvs \<and> plain v \<and> plain (PyDict kvs)"
  "plain (PyDict [])"
  by auto

lemma py_get_Cons [simp]: "py_get ((KBytes k', v) # d) k = (if k = k' then v else py_get d k)"
  by (simp add: py_get_def)

lemma py_get_Nil [simp]: "py_get [] k = PyNone"
  by (simp add: py_get_def)

section \<open>Messages on the wire\<close>

lemma map_of_normalize:
  "\<forall>p \<in> set kvs. \<exists>k. fst p = KBytes k \<Longrightarrow> normalize_keys kvs acc = Inr n \<Longrightarrow> distinct (map fst kvs) \<Longrightarrow>
     map_of n k = (case map_of kvs (KBytes k) of Some v \<Rightarrow> Some v | None \<Rightarrow> map_of acc k)"
  by (induction kvs acc rule: normalize_keys.induct)
    (auto simp: AList.update_conv' map_of_eq_None_iff rev_image_eqI split: option.splits)

lemma map_of_sort_key: "distinct (map fst n) \<Longrightarrow> map_of (sort_key f n) = map_of n"
proof -
  assume n: "distinct (map fst n)"
  moreover have "distinct (map fst (sort_key f n)) \<longleftrightarrow> distinct (map fst n)"
    by (rule mset_eq_imp_distinct_iff) simp
  ultimately show ?thesis by (simp add: map_of_inject_set)
qed

lemma map_of_canon:
  "map_of (map (\<lambda>p. (KBytes (fst p), f (snd p))) n) (KBytes k) = map_option f (map_of n k)"
  by (induction n) auto

text \<open>
  A plain dictionary survives the wire: it encodes, and the decoded dictionary has the same
  fields, each in canonical form.
\<close>

lemma wire_fields:
  assumes "plain (PyDict d)"
  obtains x m where "encode_bencode (PyDict d) = Inr x" "decode_bencode x = Inr (PyDict m)"
    "canonical (PyDict d) = PyDict m" "\<And>k. py_get m k = canonical (py_get d k)"
proof -
  obtain x where x: "encode_bencode (PyDict d) = Inr x" using plain_encodable[OF assms] by blast
  have keys: "\<forall>p \<in> set d. \<exists>k. fst p = KBytes k" "distinct (map fst d)" using assms by auto
  obtain n where n: "normalize_keys d [] = Inr n" using normalize_plain[OF keys(1), of "[]"] by blast
  define m where "m = map (\<lambda>p. (KBytes (fst p), canonical (snd p))) (sort_key fst n)"
  have c: "canonical (PyDict d) = PyDict m" by (simp add: n m_def)
  have "distinct (map fst n)" using distinct_normalize_keys[OF n] by simp
  then have "map_of (sort_key fst n) k = map_of d (KBytes k)" for k
    using map_of_normalize[OF keys(1) n keys(2), of k] by (simp add: map_of_sort_key split: option.splits)
  then have get: "py_get m k = canonical (py_get d k)" for k
    by (simp add: py_get_def m_def map_of_canon split: option.splits)
  have "decode_bencode x = Inr (PyDict m)"
    using bencode.dec_front[OF x, of "[]"] encode_head[OF x] c by (simp add: decode_bencode_def)
  from that[OF x this c get] show thesis .
qed
section \<open>Properties\<close>

text \<open>
  C11: Decoding what the encoder wrote gives the value back in canonical form (text as UTF-8
  bytes, dictionaries in key order).
\<close>

theorem bencode_roundtrip:
  "encode_bencode v = Inr x \<Longrightarrow> decode_bencode x = Inr (canonical v)"
  using bencode.dec_front[of v x "[]"] encode_head[of v x] by (simp add: decode_bencode_def)

theorem bencode_roundtrip_witness:
  "decode_bencode (ascii ''d1:ai-12e1:bl2:xyee'')
     = Inr (PyDict [(KBytes (ascii ''a''), PyInt (- 12)), (KBytes (ascii ''b''), PyList [PyBytes (ascii ''xy'')])])"
proof -
  let ?v = "PyDict [(KBytes (ascii ''b''), PyList [PyStr [120, 121]]), (KStr [97], PyInt (- 12))]"
  have "encode_bencode ?v = Inr (ascii ''d1:ai-12e1:bl2:xyee'')"
    by (simp add: encode_int_def encode_bytes_def str_int_def dec_text.simps utf8_encode_char_def ascii_def)
  from bencode_roundtrip[OF this] show ?thesis
    by (simp add: utf8_encode_char_def ascii_def)
qed


text \<open>
  Decoding at a position returns a next position strictly after it and inside the
  data, for every value kind (the exit assertion of \<open>decode_value_at\<close>).
\<close>

theorem decode_value_at_in_bounds:
  "decode_value_at data index = Inr (value, next_index) \<Longrightarrow> index < next_index \<and> next_index \<le> length data"
  by (rule decode_value_at_forward)

theorem decode_value_at_in_bounds_witness:
  "decode_value_at (ascii ''xi7e'') 1 = Inr (PyInt 7, 4) \<and> (1::nat) < 4 \<and> 4 \<le> length (ascii ''xi7e'')"
proof -
  have "decode_value_at (ascii ''xi7e'') 1 = Inr (PyInt 7, 4)"
    by (simp add: decode_value_at.simps decode_int_at_def find_from_def byte_slice_def isdigit_def
        is_digit_def dec_value_def ascii_def)
  with decode_value_at_in_bounds[OF this] show ?thesis by simp
qed


end
