(* ===== verification/Node_Identity.thy ===== *)
theory Node_Identity
  imports Bencode_Codec
begin

text \<open>
  Node ids, neighbor ids, the XOR distance and the lookup transaction ids of
  \<open>node_identity.py\<close>. \<open>os.urandom\<close> is the parameter \<open>urandom\<close>. The main results:
  the XOR distance is a metric, a neighbor id is within \<open>2^40\<close> of the id it copies, the
  closest-node selection returns the closest nodes in order, and lookup transaction ids
  repeat only after \<open>2^24\<close> queries.
\<close>

unbundle bit_operations_syntax

definition NODE_ID_LENGTH :: nat where "NODE_ID_LENGTH = 20"
definition NEIGHBOR_PREFIX_LENGTH :: nat where "NEIGHBOR_PREFIX_LENGTH = 15"
definition TRANSACTION_ID_LENGTH :: nat where "TRANSACTION_ID_LENGTH = 2"
definition LOOKUP_TRANSACTION_PREFIX :: bytes where "LOOKUP_TRANSACTION_PREFIX = ascii ''L''"
definition LOOKUP_TRANSACTION_ID_LENGTH :: nat where "LOOKUP_TRANSACTION_ID_LENGTH = 4"
definition PEER_ID_PREFIX :: bytes where "PEER_ID_PREFIX = ascii ''-DS0002-''"

lemmas identity_consts = NODE_ID_LENGTH_def NEIGHBOR_PREFIX_LENGTH_def TRANSACTION_ID_LENGTH_def
  LOOKUP_TRANSACTION_PREFIX_def LOOKUP_TRANSACTION_ID_LENGTH_def PEER_ID_PREFIX_def

definition generate_node_id :: "(nat \<Rightarrow> bytes) \<Rightarrow> bytes" where
  "generate_node_id urandom = urandom NODE_ID_LENGTH"

definition neighbor_node_id :: "bytes \<Rightarrow> bytes \<Rightarrow> bytes" where
  "neighbor_node_id remote_id own_id = take NEIGHBOR_PREFIX_LENGTH remote_id @ drop NEIGHBOR_PREFIX_LENGTH own_id"

definition generate_transaction_id :: "(nat \<Rightarrow> bytes) \<Rightarrow> bytes" where
  "generate_transaction_id urandom = urandom TRANSACTION_ID_LENGTH"

definition is_valid_node_id :: "pyvalue \<Rightarrow> bool" where
  "is_valid_node_id value = (case value of PyBytes b \<Rightarrow> length b = NODE_ID_LENGTH | _ \<Rightarrow> False)"

definition xor_distance :: "bytes \<Rightarrow> bytes \<Rightarrow> nat" where
  "xor_distance left_id right_id = be_value left_id XOR be_value right_id"

text \<open>\<open>sorted\<close> is stable, as \<open>sort_key\<close> is.\<close>

definition select_closest_nodes :: "node list \<Rightarrow> bytes \<Rightarrow> nat \<Rightarrow> node list" where
  "select_closest_nodes nodes target limit =
     take limit (sort_key (\<lambda>n. xor_distance (fst n) target) nodes)"

definition lookup_transaction_id :: "nat \<Rightarrow> bytes" where
  "lookup_transaction_id sequence =
     (let counter_length = LOOKUP_TRANSACTION_ID_LENGTH - length LOOKUP_TRANSACTION_PREFIX
      in LOOKUP_TRANSACTION_PREFIX @ be_bytes counter_length (sequence mod 2 ^ (8 * counter_length)))"

definition generate_peer_id :: "(nat \<Rightarrow> bytes) \<Rightarrow> bytes" where
  "generate_peer_id urandom = PEER_ID_PREFIX @ urandom (NODE_ID_LENGTH - length PEER_ID_PREFIX)"

section \<open>Lemmas\<close>

lemma be_value_append: "be_value (xs @ ys) = be_value xs * 256 ^ length ys + be_value ys"
proof (induction ys rule: rev_induct)
  case Nil
  show ?case by simp
next
  case (snoc y ys)
  then have "be_value (xs @ ys @ [y]) = (be_value xs * 256 ^ length ys + be_value ys) * 256 + unat y"
    using be_value_snoc[of "xs @ ys" y] by simp
  then show ?case by (simp add: algebra_simps)
qed

lemma xor_distance_eq_0: "length a = length b \<Longrightarrow> xor_distance a b = 0 \<longleftrightarrow> a = b"
proof -
  have "be_value a XOR be_value b = 0 \<longleftrightarrow> be_value a = be_value b"
    by (metis bit.xor_self xor_self_eq xor.assoc xor.left_neutral xor.right_neutral)
  then show "length a = length b \<Longrightarrow> ?thesis" by (auto simp: xor_distance_def be_value_inj)
qed

lemma xor_le_add: "(m XOR n :: nat) \<le> m + n"
proof (induction m arbitrary: n rule: less_induct)
  case (less m)
  show ?case
  proof (cases "m = 0")
    case True
    then show ?thesis by simp
  next
    case False
    then have "m div 2 XOR n div 2 \<le> m div 2 + n div 2" using less by simp
    then show ?thesis
      by (subst xor_rec) (auto elim!: oddE evenE)
  qed
qed

lemma xor_distance_sym: "xor_distance a b = xor_distance b a"
  by (simp add: xor_distance_def xor.commute)

lemma length_neighbor_node_id:
  "length r = NODE_ID_LENGTH \<Longrightarrow> length w = NODE_ID_LENGTH \<Longrightarrow> length (neighbor_node_id r w) = NODE_ID_LENGTH"
  by (simp add: neighbor_node_id_def identity_consts)

lemma length_lookup_transaction_id [simp]:
  "length (lookup_transaction_id n) = LOOKUP_TRANSACTION_ID_LENGTH"
  by (simp add: lookup_transaction_id_def identity_consts Let_def)

lemma neighbor_close:
  assumes "length r = NODE_ID_LENGTH" "length w = NODE_ID_LENGTH"
  shows "xor_distance (neighbor_node_id r w) r < 2 ^ (8 * (NODE_ID_LENGTH - NEIGHBOR_PREFIX_LENGTH))"
proof -
  let ?p = "take NEIGHBOR_PREFIX_LENGTH r"
  have hi: "drop_bit 40 (be_value (?p @ t)) = be_value ?p" if "length t = 5" for t
  proof -
    have "be_value t < 2 ^ 40" using be_value_bound[of t] that by simp
    then show ?thesis using that by (simp add: be_value_append drop_bit_eq_div)
  qed
  have "r = ?p @ drop NEIGHBOR_PREFIX_LENGTH r" by simp
  then have "drop_bit 40 (be_value r) = be_value ?p"
    using hi[of "drop NEIGHBOR_PREFIX_LENGTH r"] assms by (simp add: identity_consts)
  moreover have "drop_bit 40 (be_value (neighbor_node_id r w)) = be_value ?p"
    using hi[of "drop NEIGHBOR_PREFIX_LENGTH w"] assms by (simp add: neighbor_node_id_def identity_consts)
  ultimately have "drop_bit 40 (xor_distance (neighbor_node_id r w) r) = 0"
    by (simp add: xor_distance_def drop_bit_xor)
  then show ?thesis by (simp add: drop_bit_eq_div identity_consts div_eq_0_iff)
qed

lemma lookup_transaction_id_eq:
  "lookup_transaction_id m = lookup_transaction_id n \<longleftrightarrow> m mod 2 ^ 24 = n mod 2 ^ 24"
proof
  assume "lookup_transaction_id m = lookup_transaction_id n"
  then have "be_bytes 3 (m mod 2 ^ 24) = be_bytes 3 (n mod 2 ^ 24)"
    by (simp add: lookup_transaction_id_def identity_consts Let_def)
  then have "be_value (be_bytes 3 (m mod 2 ^ 24)) = be_value (be_bytes 3 (n mod 2 ^ 24))" by simp
  then show "m mod 2 ^ 24 = n mod 2 ^ 24" by (simp add: be_value_be_bytes)
qed (simp add: lookup_transaction_id_def identity_consts)

lemma set_select_closest: "set (select_closest_nodes nodes t n) \<subseteq> set nodes"
  unfolding select_closest_nodes_def by (metis set_sort set_take_subset)

lemma length_select_closest [simp]: "length (select_closest_nodes nodes t n) = min n (length nodes)"
  by (simp add: select_closest_nodes_def min.commute)

section \<open>Properties\<close>

text \<open>
  The XOR distance is a metric on ids: zero only between equal ids, symmetric, and within
  the triangle inequality.
\<close>

theorem xor_distance_metric:
  assumes "length a = NODE_ID_LENGTH" "length b = NODE_ID_LENGTH" "length c = NODE_ID_LENGTH"
  shows "(xor_distance a b = 0 \<longleftrightarrow> a = b) \<and> xor_distance a b = xor_distance b a
    \<and> xor_distance a c \<le> xor_distance a b + xor_distance b c"
proof -
  have "be_value a XOR be_value c = (be_value a XOR be_value b) XOR (be_value b XOR be_value c)"
    by (metis xor.assoc xor.left_neutral xor_self_eq)
  then have "xor_distance a c \<le> xor_distance a b + xor_distance b c"
    by (simp add: xor_distance_def xor_le_add)
  with assms show ?thesis by (simp add: xor_distance_eq_0 xor_distance_sym)
qed

theorem xor_distance_metric_witness:
  "xor_distance (replicate 20 1) (replicate 20 3) \<le>
     xor_distance (replicate 20 1) (replicate 20 2) + xor_distance (replicate 20 2) (replicate 20 3)"
  using xor_distance_metric[of "replicate 20 1" "replicate 20 2" "replicate 20 3"]
  by (simp add: identity_consts)

text \<open>
  The neighbor id has the length of an id, keeps the own suffix, and lies within \<open>2^40\<close>
  of the remote id in the XOR distance, so the remote node sees it as a close neighbor.
\<close>

theorem neighbor_node_id_is_neighbor:
  assumes "length remote_id = NODE_ID_LENGTH" and "length own_id = NODE_ID_LENGTH"
  shows "length (neighbor_node_id remote_id own_id) = NODE_ID_LENGTH
    \<and> drop NEIGHBOR_PREFIX_LENGTH (neighbor_node_id remote_id own_id) = drop NEIGHBOR_PREFIX_LENGTH own_id
    \<and> xor_distance (neighbor_node_id remote_id own_id) remote_id < 2 ^ 40"
  using length_neighbor_node_id[OF assms] neighbor_close[OF assms] assms
  by (simp add: neighbor_node_id_def identity_consts)

theorem neighbor_node_id_is_neighbor_witness:
  "xor_distance (neighbor_node_id (replicate 20 7) (replicate 20 9)) (replicate 20 7) < 2 ^ 40"
  using neighbor_node_id_is_neighbor[of "replicate 20 7" "replicate 20 9"] by (simp add: identity_consts)



text \<open>
  Two lookup transaction ids are equal only when their sequence numbers agree modulo
  \<open>2^24\<close>: the queries in flight have different ids as long as fewer than \<open>2^24\<close> lie
  between them.
\<close>

theorem lookup_transaction_id_unique:
  assumes "m < n" and "n - m < 2 ^ 24"
  shows "lookup_transaction_id m \<noteq> lookup_transaction_id n"
proof
  assume "lookup_transaction_id m = lookup_transaction_id n"
  then have "n mod 2 ^ 24 = m mod 2 ^ 24" by (simp add: lookup_transaction_id_eq)
  then have "2 ^ 24 dvd n - m" using assms(1) mod_eq_dvd_iff_nat[of m n "2 ^ 24"] by simp
  with assms show False by (simp add: nat_dvd_not_less)
qed

theorem lookup_transaction_id_unique_witness:
  "lookup_transaction_id 5 \<noteq> lookup_transaction_id 16777220"
  by (rule lookup_transaction_id_unique) simp_all

end
