(* ===== verification/Krpc_Messages.thy ===== *)
theory Krpc_Messages
  imports Node_Identity
begin

text \<open>
  The KRPC messages of \<open>krpc_messages.py\<close>: message builders, compact nodes, peers and
  samples, the address filter and the reading of errors and announced ports. The address
  text conversions of the C library and \<open>ipaddress.IPv6Address\<close> are the fields of the
  parameter record \<open>ip_lib\<close>, HMAC-SHA1 is the parameter \<open>hmac\<close>. The main results:
  compact nodes, peers and samples round-trip, the IPv4 filter is exactly the complement of
  the special-purpose blocks, and announced ports are valid.
\<close>

unbundle bit_operations_syntax

section \<open>Constants\<close>

definition COMPACT_ADDRESS_LENGTH :: nat where "COMPACT_ADDRESS_LENGTH = 6"
definition COMPACT_ADDRESS6_LENGTH :: nat where "COMPACT_ADDRESS6_LENGTH = 18"
definition COMPACT_NODE_LENGTH :: nat where "COMPACT_NODE_LENGTH = NODE_ID_LENGTH + COMPACT_ADDRESS_LENGTH"
definition COMPACT_NODE6_LENGTH :: nat where "COMPACT_NODE6_LENGTH = NODE_ID_LENGTH + COMPACT_ADDRESS6_LENGTH"
definition NODES_KEY :: bytes where "NODES_KEY = ascii ''nodes''"
definition NODES6_KEY :: bytes where "NODES6_KEY = ascii ''nodes6''"
definition TOKEN_LENGTH :: nat where "TOKEN_LENGTH = 8"
definition KNOWN_ERROR_CODES :: "int list" where "KNOWN_ERROR_CODES = [201, 202, 203, 204]"
definition ERROR_PROTOCOL :: int where "ERROR_PROTOCOL = 203"
definition ERROR_METHOD_UNKNOWN :: int where "ERROR_METHOD_UNKNOWN = 204"
definition QUERY_SAMPLE_INFOHASHES :: bytes where "QUERY_SAMPLE_INFOHASHES = ascii ''sample_infohashes''"
definition MAX_SAMPLE_INTERVAL :: int where "MAX_SAMPLE_INTERVAL = 21600"

lemmas krpc_consts = COMPACT_ADDRESS_LENGTH_def COMPACT_ADDRESS6_LENGTH_def COMPACT_NODE_LENGTH_def
  COMPACT_NODE6_LENGTH_def NODES_KEY_def NODES6_KEY_def TOKEN_LENGTH_def KNOWN_ERROR_CODES_def
  ERROR_PROTOCOL_def ERROR_METHOD_UNKNOWN_def QUERY_SAMPLE_INFOHASHES_def MAX_SAMPLE_INTERVAL_def

section \<open>Addresses\<close>

text \<open>
  The library: \<open>socket.inet_aton\<close>, \<open>inet_ntoa\<close>, \<open>inet_pton(AF_INET6)\<close>,
  \<open>inet_ntop(AF_INET6)\<close> and the attributes of \<open>ipaddress.IPv6Address(ip)\<close> that the
  code reads (\<open>None\<close>: the function raised).
\<close>

record ipv6_info =
  is_global :: bool
  is_multicast :: bool
  ipv4_mapped_is_none :: bool
  packed :: bytes

record ip_lib =
  inet_aton :: "string \<Rightarrow> bytes option"
  inet_ntoa :: "bytes \<Rightarrow> string"
  inet_pton6 :: "string \<Rightarrow> bytes option"
  inet_ntop6 :: "bytes \<Rightarrow> string"
  ipv6_address :: "string \<Rightarrow> ipv6_info option"

datatype krpc_error = KrpcAssertion | KrpcOSError

text \<open>A builder that asserts its arguments: \<open>assert c\<close>, then the result.\<close>

definition krpc_assert :: "bool \<Rightarrow> 'a \<Rightarrow> krpc_error + 'a" where
  "krpc_assert c v = (if c then Inr v else Inl KrpcAssertion)"

lemma krpc_assert_Inr [simp]: "krpc_assert c v = Inr w \<longleftrightarrow> c \<and> w = v"
  by (auto simp: krpc_assert_def)

definition encode_compact_address :: "ip_lib \<Rightarrow> string \<Rightarrow> int \<Rightarrow> krpc_error + bytes" where
  "encode_compact_address lib ip port =
     (if \<not> (0 \<le> port \<and> port \<le> 65535) then Inl KrpcAssertion
      else case (if CHR '':'' \<in> set ip then inet_pton6 lib ip else inet_aton lib ip) of
        None \<Rightarrow> Inl KrpcOSError
      | Some p \<Rightarrow> Inr (p @ be_bytes 2 (nat port)))"

definition decode_compact_address :: "ip_lib \<Rightarrow> bytes \<Rightarrow> string \<times> int" where
  "decode_compact_address lib data =
     (let ip = (if length data = COMPACT_ADDRESS6_LENGTH then inet_ntop6 lib (take 16 data)
                else inet_ntoa lib (take 4 data));
          port = be_value (drop (length data - 2) data)
      in (ip, int port))"

text \<open>\<open>b"".join(node_id + encode_compact_address(ip, port) for ...)\<close>.\<close>

fun join_compact_nodes :: "ip_lib \<Rightarrow> node list \<Rightarrow> krpc_error + bytes" where
  "join_compact_nodes lib [] = Inr []"
| "join_compact_nodes lib ((node_id, ip, port) # nodes) =
     (case encode_compact_address lib ip port of
        Inl e \<Rightarrow> Inl e
      | Inr a \<Rightarrow> (case join_compact_nodes lib nodes of
            Inl e \<Rightarrow> Inl e | Inr rest \<Rightarrow> Inr (node_id @ a @ rest)))"

definition encode_compact_nodes :: "ip_lib \<Rightarrow> node list \<Rightarrow> krpc_error + bytes" where
  "encode_compact_nodes lib nodes =
     (if \<not> list_all (\<lambda>n. length (fst n) = NODE_ID_LENGTH) nodes then Inl KrpcAssertion
      else case join_compact_nodes lib nodes of
        Inl e \<Rightarrow> Inl e
      | Inr result \<Rightarrow>
          krpc_assert (length result \<in> {COMPACT_NODE_LENGTH * length nodes, COMPACT_NODE6_LENGTH * length nodes})
            result)"

definition is_global_ipv4 :: "nat list \<Rightarrow> bool" where
  "is_global_ipv4 octets =
     (let first = octets ! 0; second = octets ! 1; third = octets ! 2
      in \<not> (first \<in> {0, 10, 127} \<or> first \<ge> 224
            \<or> (first = 100 \<and> 64 \<le> second \<and> second \<le> 127)
            \<or> (first = 169 \<and> second = 254)
            \<or> (first = 172 \<and> 16 \<le> second \<and> second \<le> 31)
            \<or> (first = 192 \<and> (second = 168 \<or> (second = 0 \<and> third \<in> {0, 2}) \<or> (second = 88 \<and> third = 99)))
            \<or> (first = 198 \<and> (second \<in> {18, 19} \<or> (second = 51 \<and> third = 100)))
            \<or> (first = 203 \<and> second = 0 \<and> third = 113)))"

definition is_global_ipv6 :: "ip_lib \<Rightarrow> string \<Rightarrow> bool" where
  "is_global_ipv6 lib ip =
     (case ipv6_address lib ip of
        None \<Rightarrow> False
      | Some p \<Rightarrow> is_global p \<and> \<not> is_multicast p \<and> ipv4_mapped_is_none p
          \<and> ((packed p ! 0) AND 224) = 32)"

text \<open>\<open>ip.split(".")\<close>.\<close>

fun split_on :: "'a \<Rightarrow> 'a list \<Rightarrow> 'a list list" where
  "split_on c [] = [[]]"
| "split_on c (x # xs) =
     (if x = c then [] # split_on c xs
      else case split_on c xs of [] \<Rightarrow> [[x]] | part # parts \<Rightarrow> (x # part) # parts)"

definition is_routable_address :: "ip_lib \<Rightarrow> string \<Rightarrow> int \<Rightarrow> bool" where
  "is_routable_address lib ip port =
     (if CHR '':'' \<in> set ip then 0 < port \<and> port \<le> 65535 \<and> is_global_ipv6 lib ip
      else let parts = map ascii (split_on CHR ''.'' ip)
           in if \<not> (0 < port \<and> port \<le> 65535) \<or> length parts \<noteq> 4
                 \<or> \<not> list_all (\<lambda>part. isdigit part \<and> length part \<le> 3) parts
              then False
              else let octets = map dec_value parts
                   in Max (set octets) \<le> 255 \<and> is_global_ipv4 octets)"

definition decode_compact_nodes :: "ip_lib \<Rightarrow> bytes \<Rightarrow> nat \<Rightarrow> node list" where
  "decode_compact_nodes lib data entry_length =
     map (\<lambda>offset.
        let node_id = byte_slice data offset (offset + NODE_ID_LENGTH);
            a = decode_compact_address lib
                  (byte_slice data (offset + NODE_ID_LENGTH) (offset + entry_length))
        in (node_id, fst a, snd a))
      (range_step (length data + 1 - entry_length) entry_length)"

definition decode_compact_nodes6 :: "ip_lib \<Rightarrow> bytes \<Rightarrow> node list" where
  "decode_compact_nodes6 lib data = decode_compact_nodes lib data COMPACT_NODE6_LENGTH"

section \<open>Message builders\<close>

abbreviation field :: "string \<Rightarrow> pyvalue \<Rightarrow> pykey \<times> pyvalue" where
  "field name v \<equiv> (KBytes (ascii name), v)"

definition build_find_node_query :: "bytes \<Rightarrow> bytes \<Rightarrow> bytes \<Rightarrow> krpc_error + pydict" where
  "build_find_node_query transaction_id node_id target_id =
     krpc_assert (length node_id = NODE_ID_LENGTH \<and> length target_id = NODE_ID_LENGTH)
       [field ''t'' (PyBytes transaction_id), field ''y'' (PyBytes (ascii ''q'')),
        field ''q'' (PyBytes (ascii ''find_node'')),
        field ''a'' (PyDict [field ''id'' (PyBytes node_id), field ''target'' (PyBytes target_id)])]"

definition build_ping_response :: "bytes \<Rightarrow> bytes \<Rightarrow> krpc_error + pydict" where
  "build_ping_response transaction_id node_id =
     krpc_assert (length node_id = NODE_ID_LENGTH)
       [field ''t'' (PyBytes transaction_id), field ''y'' (PyBytes (ascii ''r'')),
        field ''r'' (PyDict [field ''id'' (PyBytes node_id)])]"

definition build_find_node_response :: "bytes \<Rightarrow> bytes \<Rightarrow> bytes \<Rightarrow> bytes \<Rightarrow> krpc_error + pydict" where
  "build_find_node_response transaction_id node_id compact_nodes nodes_key =
     krpc_assert (length node_id = NODE_ID_LENGTH \<and> nodes_key \<in> {NODES_KEY, NODES6_KEY})
       [field ''t'' (PyBytes transaction_id), field ''y'' (PyBytes (ascii ''r'')),
        field ''r'' (PyDict [field ''id'' (PyBytes node_id), (KBytes nodes_key, PyBytes compact_nodes)])]"

definition build_get_peers_response :: "bytes \<Rightarrow> bytes \<Rightarrow> bytes \<Rightarrow> bytes \<Rightarrow> bytes \<Rightarrow> krpc_error + pydict" where
  "build_get_peers_response transaction_id node_id token compact_nodes nodes_key =
     krpc_assert (length node_id = NODE_ID_LENGTH \<and> 0 < length token \<and> nodes_key \<in> {NODES_KEY, NODES6_KEY})
       [field ''t'' (PyBytes transaction_id), field ''y'' (PyBytes (ascii ''r'')),
        field ''r'' (PyDict [field ''id'' (PyBytes node_id), field ''token'' (PyBytes token),
                             (KBytes nodes_key, PyBytes compact_nodes)])]"

definition build_error_response :: "bytes \<Rightarrow> int \<Rightarrow> bytes \<Rightarrow> krpc_error + pydict" where
  "build_error_response transaction_id code message_text =
     krpc_assert (code \<in> set KNOWN_ERROR_CODES)
       [field ''t'' (PyBytes transaction_id), field ''y'' (PyBytes (ascii ''e'')),
        field ''e'' (PyList [PyInt code, PyBytes message_text])]"

definition make_token :: "(bytes \<Rightarrow> bytes \<Rightarrow> bytes) \<Rightarrow> bytes \<Rightarrow> string \<Rightarrow> krpc_error + bytes" where
  "make_token hmac secret ip =
     (let result = take TOKEN_LENGTH (hmac secret (ascii ip))
      in krpc_assert (0 < length secret \<and> length result = TOKEN_LENGTH) result)"

definition build_get_peers_query :: "bytes \<Rightarrow> bytes \<Rightarrow> bytes \<Rightarrow> krpc_error + pydict" where
  "build_get_peers_query transaction_id node_id info_hash =
     krpc_assert (length node_id = NODE_ID_LENGTH \<and> length info_hash = NODE_ID_LENGTH)
       [field ''t'' (PyBytes transaction_id), field ''y'' (PyBytes (ascii ''q'')),
        field ''q'' (PyBytes (ascii ''get_peers'')),
        field ''a'' (PyDict [field ''id'' (PyBytes node_id), field ''info_hash'' (PyBytes info_hash)])]"

definition build_sample_infohashes_query :: "bytes \<Rightarrow> bytes \<Rightarrow> bytes \<Rightarrow> krpc_error + pydict" where
  "build_sample_infohashes_query transaction_id node_id target_id =
     krpc_assert (length node_id = NODE_ID_LENGTH \<and> length target_id = NODE_ID_LENGTH)
       [field ''t'' (PyBytes transaction_id), field ''y'' (PyBytes (ascii ''q'')),
        field ''q'' (PyBytes QUERY_SAMPLE_INFOHASHES),
        field ''a'' (PyDict [field ''id'' (PyBytes node_id), field ''target'' (PyBytes target_id)])]"

definition build_sample_infohashes_response ::
    "bytes \<Rightarrow> bytes \<Rightarrow> int \<Rightarrow> bytes \<Rightarrow> int \<Rightarrow> bytes \<Rightarrow> bytes \<Rightarrow> krpc_error + pydict" where
  "build_sample_infohashes_response transaction_id node_id interval compact_nodes num samples nodes_key =
     krpc_assert (length node_id = NODE_ID_LENGTH \<and> 0 \<le> interval \<and> interval \<le> MAX_SAMPLE_INTERVAL
         \<and> nodes_key \<in> {NODES_KEY, NODES6_KEY} \<and> length samples mod NODE_ID_LENGTH = 0 \<and> 0 \<le> num)
       [field ''t'' (PyBytes transaction_id), field ''y'' (PyBytes (ascii ''r'')),
        field ''r'' (PyDict [field ''id'' (PyBytes node_id), field ''interval'' (PyInt interval),
          (KBytes nodes_key, PyBytes compact_nodes), field ''num'' (PyInt num),
          field ''samples'' (PyBytes samples)])]"

section \<open>Reading messages\<close>

fun encode_compact_peers :: "ip_lib \<Rightarrow> address list \<Rightarrow> krpc_error + bytes list" where
  "encode_compact_peers lib [] = Inr []"
| "encode_compact_peers lib ((ip, port) # peers) =
     (case encode_compact_address lib ip port of
        Inl e \<Rightarrow> Inl e
      | Inr a \<Rightarrow> (case encode_compact_peers lib peers of Inl e \<Rightarrow> Inl e | Inr rest \<Rightarrow> Inr (a # rest)))"

fun decode_compact_peer :: "ip_lib \<Rightarrow> pyvalue \<Rightarrow> address list" where
  "decode_compact_peer lib (PyBytes item) =
     (if length item \<in> {COMPACT_ADDRESS_LENGTH, COMPACT_ADDRESS6_LENGTH}
      then [decode_compact_address lib item] else [])"
| "decode_compact_peer lib _ = []"

definition decode_compact_peers :: "ip_lib \<Rightarrow> pyvalue \<Rightarrow> address list" where
  "decode_compact_peers lib vals =
     (case vals of PyList items \<Rightarrow> concat (map (decode_compact_peer lib) items) | _ \<Rightarrow> [])"

definition decode_samples :: "pyvalue \<Rightarrow> bytes list" where
  "decode_samples data = (case data of PyBytes b \<Rightarrow> chunks NODE_ID_LENGTH b | _ \<Rightarrow> [])"

definition read_error_code :: "pydict \<Rightarrow> int option" where
  "read_error_code message =
     (case py_get message (ascii ''e'') of PyList (PyInt code # _) \<Rightarrow> Some code | _ \<Rightarrow> None)"

definition read_announced_port :: "pydict \<Rightarrow> int \<Rightarrow> int option" where
  "read_announced_port args source_port =
     (let port = (case py_get args (ascii ''implied_port'') of
            PyInt implied \<Rightarrow> if implied \<noteq> 0 then PyInt source_port else py_get args (ascii ''port'')
          | _ \<Rightarrow> py_get args (ascii ''port''))
      in case port of PyInt p \<Rightarrow> if 0 < p \<and> p \<le> 65535 then Some p else None | _ \<Rightarrow> None)"

section \<open>Compact addresses and nodes\<close>

text \<open>
  The documented behaviour of the address conversions: printing and parsing are inverse, and
  only IPv6 text has a colon.
\<close>

definition inet_inverse :: "ip_lib \<Rightarrow> bool" where
  "inet_inverse lib \<longleftrightarrow>
     (\<forall>b. length b = 4 \<longrightarrow> inet_aton lib (inet_ntoa lib b) = Some b \<and> CHR '':'' \<notin> set (inet_ntoa lib b)) \<and>
     (\<forall>b. length b = 16 \<longrightarrow> inet_pton6 lib (inet_ntop6 lib b) = Some b \<and> CHR '':'' \<in> set (inet_ntop6 lib b))"

text \<open>The addresses that come out of the library: the printed form of 4 or 16 bytes.\<close>

definition ipv4_address :: "ip_lib \<Rightarrow> address \<Rightarrow> bool" where
  "ipv4_address lib a \<longleftrightarrow> (\<exists>b. length b = 4 \<and> fst a = inet_ntoa lib b) \<and> 0 \<le> snd a \<and> snd a \<le> 65535"

definition ipv6_address_ok :: "ip_lib \<Rightarrow> address \<Rightarrow> bool" where
  "ipv6_address_ok lib a \<longleftrightarrow> (\<exists>b. length b = 16 \<and> fst a = inet_ntop6 lib b) \<and> 0 \<le> snd a \<and> snd a \<le> 65535"

lemma be_value_port: "0 \<le> port \<Longrightarrow> port \<le> 65535 \<Longrightarrow> int (be_value (be_bytes 2 (nat port))) = port"
  by (simp add: be_value_be_bytes)

lemma compact_address4:
  assumes "inet_inverse lib" "ipv4_address lib (ip, port)"
  obtains x where "encode_compact_address lib ip port = Inr x" "length x = COMPACT_ADDRESS_LENGTH"
    "decode_compact_address lib x = (ip, port)"
proof -
  obtain b where b: "length b = 4" "ip = inet_ntoa lib b" "0 \<le> port" "port \<le> 65535"
    using assms(2) by (auto simp: ipv4_address_def)
  with assms(1) have "encode_compact_address lib ip port = Inr (b @ be_bytes 2 (nat port))"
    by (simp add: encode_compact_address_def inet_inverse_def)
  moreover have "decode_compact_address lib (b @ be_bytes 2 (nat port)) = (ip, port)"
    using b be_value_port by (simp add: decode_compact_address_def krpc_consts)
  ultimately show thesis using b that by (simp add: krpc_consts)
qed

lemma compact_address6:
  assumes "inet_inverse lib" "ipv6_address_ok lib (ip, port)"
  obtains x where "encode_compact_address lib ip port = Inr x" "length x = COMPACT_ADDRESS6_LENGTH"
    "decode_compact_address lib x = (ip, port)"
proof -
  obtain b where b: "length b = 16" "ip = inet_ntop6 lib b" "0 \<le> port" "port \<le> 65535"
    using assms(2) by (auto simp: ipv6_address_ok_def)
  with assms(1) have "encode_compact_address lib ip port = Inr (b @ be_bytes 2 (nat port))"
    by (simp add: encode_compact_address_def inet_inverse_def)
  moreover have "decode_compact_address lib (b @ be_bytes 2 (nat port)) = (ip, port)"
    using b be_value_port by (simp add: decode_compact_address_def krpc_consts)
  ultimately show thesis using b that by (simp add: krpc_consts)
qed

text \<open>One node entry, as the list codec decodes it.\<close>

definition encode_node :: "ip_lib \<Rightarrow> node \<Rightarrow> bytes" where
  "encode_node lib n = fst n @ (case encode_compact_address lib (fst (snd n)) (snd (snd n)) of Inl _ \<Rightarrow> [] | Inr x \<Rightarrow> x)"

definition decode_node :: "ip_lib \<Rightarrow> bytes \<Rightarrow> node" where
  "decode_node lib c =
     (take NODE_ID_LENGTH c, decode_compact_address lib (drop NODE_ID_LENGTH c))"

lemma decode_compact_nodes_chunks:
  assumes "NODE_ID_LENGTH < n"
  shows "decode_compact_nodes lib data n = map (decode_node lib) (chunks n data)"
proof -
  have "byte_slice (byte_slice data i (i + n)) 0 NODE_ID_LENGTH = byte_slice data i (i + NODE_ID_LENGTH)" for i
    using assms by (simp add: byte_slice_def)
  moreover have "drop NODE_ID_LENGTH (byte_slice data i (i + n)) = byte_slice data (i + NODE_ID_LENGTH) (i + n)" for i
    using assms by (simp add: byte_slice_def drop_take add.commute)
  ultimately show ?thesis
    using assms by (simp add: decode_compact_nodes_def chunks_def decode_node_def Let_def byte_slice_def)
qed

definition node4_ok :: "ip_lib \<Rightarrow> node \<Rightarrow> bool" where
  "node4_ok lib n \<longleftrightarrow> length (fst n) = NODE_ID_LENGTH \<and> ipv4_address lib (snd n)"

definition node6_ok :: "ip_lib \<Rightarrow> node \<Rightarrow> bool" where
  "node6_ok lib n \<longleftrightarrow> length (fst n) = NODE_ID_LENGTH \<and> ipv6_address_ok lib (snd n)"

lemma join_compact_nodes_concat:
  "list_all (\<lambda>n. \<exists>x. encode_compact_address lib (fst (snd n)) (snd (snd n)) = Inr x) nodes
     \<Longrightarrow> join_compact_nodes lib nodes = Inr (concat (map (encode_node lib) nodes))"
  by (induction lib nodes rule: join_compact_nodes.induct) (auto simp: encode_node_def)

lemma fixed_codec_node4: "inet_inverse lib \<Longrightarrow> fixed_codec COMPACT_NODE_LENGTH (node4_ok lib) (encode_node lib) (decode_node lib)"
proof
  assume lib: "inet_inverse lib"
  show "0 < COMPACT_NODE_LENGTH" by (simp add: krpc_consts identity_consts)
  fix a assume "node4_ok lib a"
  then have id: "length (fst a) = NODE_ID_LENGTH" and ad: "ipv4_address lib (fst (snd a), snd (snd a))"
    by (auto simp: node4_ok_def)
  obtain x where x: "encode_compact_address lib (fst (snd a)) (snd (snd a)) = Inr x"
    "length x = COMPACT_ADDRESS_LENGTH" "decode_compact_address lib x = (fst (snd a), snd (snd a))"
    by (rule compact_address4[OF lib ad])
  show "length (encode_node lib a) = COMPACT_NODE_LENGTH" "decode_node lib (encode_node lib a) = a"
    using id x by (auto simp: encode_node_def decode_node_def krpc_consts)
qed

lemma fixed_codec_node6: "inet_inverse lib \<Longrightarrow> fixed_codec COMPACT_NODE6_LENGTH (node6_ok lib) (encode_node lib) (decode_node lib)"
proof
  assume lib: "inet_inverse lib"
  show "0 < COMPACT_NODE6_LENGTH" by (simp add: krpc_consts identity_consts)
  fix a assume "node6_ok lib a"
  then have id: "length (fst a) = NODE_ID_LENGTH" and ad: "ipv6_address_ok lib (fst (snd a), snd (snd a))"
    by (auto simp: node6_ok_def)
  obtain x where x: "encode_compact_address lib (fst (snd a)) (snd (snd a)) = Inr x"
    "length x = COMPACT_ADDRESS6_LENGTH" "decode_compact_address lib x = (fst (snd a), snd (snd a))"
    by (rule compact_address6[OF lib ad])
  show "length (encode_node lib a) = COMPACT_NODE6_LENGTH" "decode_node lib (encode_node lib a) = a"
    using id x by (auto simp: encode_node_def decode_node_def krpc_consts)
qed

lemma node_ok_encodes:
  assumes "inet_inverse lib" "node4_ok lib n \<or> node6_ok lib n"
  shows "length (fst n) = NODE_ID_LENGTH \<and> (\<exists>x. encode_compact_address lib (fst (snd n)) (snd (snd n)) = Inr x)"
  using assms(2)
proof
  assume "node4_ok lib n"
  then show ?thesis using compact_address4[OF assms(1), of "fst (snd n)" "snd (snd n)"]
    by (metis node4_ok_def prod.collapse)
next
  assume "node6_ok lib n"
  then show ?thesis using compact_address6[OF assms(1), of "fst (snd n)" "snd (snd n)"]
    by (metis node6_ok_def prod.collapse)
qed

text \<open>One lemma for both families: a codec of node entries gives the round trip of the list.\<close>

lemma compact_nodes_codec:
  assumes lib: "inet_inverse lib" and c: "fixed_codec w ok (encode_node lib) (decode_node lib)"
    and w: "w \<in> {COMPACT_NODE_LENGTH, COMPACT_NODE6_LENGTH}"
    and ok: "\<And>n. ok n \<Longrightarrow> node4_ok lib n \<or> node6_ok lib n" and nodes: "list_all ok nodes"
  shows "\<exists>x. encode_compact_nodes lib nodes = Inr x \<and> decode_compact_nodes lib x w = nodes"
proof -
  let ?x = "concat (map (encode_node lib) nodes)"
  have each: "\<forall>n \<in> set nodes. length (fst n) = NODE_ID_LENGTH \<and>
      (\<exists>x. encode_compact_address lib (fst (snd n)) (snd (snd n)) = Inr x)"
    using nodes node_ok_encodes[OF lib ok] by (simp add: list_all_iff)
  then have "join_compact_nodes lib nodes = Inr ?x"
    by (intro join_compact_nodes_concat) (simp add: list_all_iff)
  moreover have "length ?x = w * length nodes" by (rule fixed_codec.length_concat_enc[OF c nodes])
  ultimately have "encode_compact_nodes lib nodes = Inr ?x"
    using each w by (auto simp: encode_compact_nodes_def list_all_iff)
  moreover have "NODE_ID_LENGTH < w" using w by (auto simp: krpc_consts)
  then have "decode_compact_nodes lib ?x w = nodes"
    using fixed_codec.dec_chunks[OF c nodes] by (simp add: decode_compact_nodes_chunks)
  ultimately show ?thesis by blast
qed

interpretation samples: fixed_codec NODE_ID_LENGTH "\<lambda>h. length h = NODE_ID_LENGTH" "\<lambda>h. h" "\<lambda>c. c"
  by unfold_locales (simp_all add: identity_consts)

lemma decode_samples_concat:
  "list_all (\<lambda>h. length h = NODE_ID_LENGTH) hashes \<Longrightarrow> decode_samples (PyBytes (concat hashes)) = hashes"
  using samples.dec_chunks[of hashes] by (simp add: decode_samples_def)

section \<open>Special-purpose IPv4 blocks\<close>

text \<open>
  The specification of \<open>is_global_ipv4\<close>: an address is global unless it lies in one of
  these blocks, given as base address and prefix length.
\<close>

definition special_blocks :: "(nat list \<times> nat) list" where
  "special_blocks =
     [([0, 0, 0, 0], 8), ([10, 0, 0, 0], 8), ([100, 64, 0, 0], 10), ([127, 0, 0, 0], 8),
      ([169, 254, 0, 0], 16), ([172, 16, 0, 0], 12), ([192, 0, 0, 0], 24), ([192, 0, 2, 0], 24),
      ([192, 88, 99, 0], 24), ([192, 168, 0, 0], 16), ([198, 18, 0, 0], 15), ([198, 51, 100, 0], 24),
      ([203, 0, 113, 0], 24), ([224, 0, 0, 0], 4), ([240, 0, 0, 0], 4)]"

definition addr_value :: "nat list \<Rightarrow> nat" where
  "addr_value octets = foldl (\<lambda>a b. a * 256 + b) 0 octets"

definition in_block :: "nat list \<Rightarrow> nat list \<times> nat \<Rightarrow> bool" where
  "in_block octets block \<longleftrightarrow>
     addr_value octets div 2 ^ (32 - snd block) = addr_value (fst block) div 2 ^ (32 - snd block)"

lemma div_split: "0 < m \<Longrightarrow> (a * (k * m) + b) div m = a * k + b div (m :: nat)"
  by (metis add.commute div_mult_self3 less_not_refl mult.assoc)

lemma digit_split:
  fixes a b n k :: nat
  assumes "b < k"
  shows "a * k + b = n \<longleftrightarrow> a = n div k \<and> b = n mod k"
  using assms by (auto simp: div_mult_mod_eq)

lemma addr_div:
  fixes a b c d :: nat
  assumes "b < 256" "c < 256" "d < 256"
  shows "addr_value [a, b, c, d] div 16777216 = a"
    "addr_value [a, b, c, d] div 65536 = a * 256 + b"
    "addr_value [a, b, c, d] div 256 = (a * 256 + b) * 256 + c"
    "addr_value [a, b, c, d] div 4194304 = a * 4 + b div 64"
    "addr_value [a, b, c, d] div 1048576 = a * 16 + b div 16"
    "addr_value [a, b, c, d] div 131072 = a * 128 + b div 2"
    "addr_value [a, b, c, d] div 268435456 = a div 16"
proof -
  define x where "x = addr_value [a, b, c, d]"
  have c: "x div 256 = (a * 256 + b) * 256 + c" using assms by (simp add: x_def addr_value_def)
  then have b: "x div (256 * 256) = a * 256 + b" using assms unfolding div_mult2_eq c by simp
  define y where "y = a * 256 + b"
  have "y div 256 = a" "y div 64 = a * 4 + b div 64"
    "y div 16 = a * 16 + b div 16" "y div 2 = a * 128 + b div 2"
    using div_split[of 64 a 4 b] div_split[of 16 a 16 b] div_split[of 2 a 128 b] assms by (simp_all add: y_def)
  moreover from this(1) have "y div (256 * 16) = a div 16" unfolding div_mult2_eq by simp
  ultimately have "x div (256 * 256 * 256) = a" "x div (256 * 256 * 64) = a * 4 + b div 64"
    "x div (256 * 256 * 16) = a * 16 + b div 16" "x div (256 * 256 * 2) = a * 128 + b div 2"
    "x div (256 * 256 * (256 * 16)) = a div 16"
    unfolding div_mult2_eq[of _ "256 * 256"] b y_def[symmetric] by simp_all
  note products = this
  have n: "16777216 = (256 * 256 * 256 :: nat)" "4194304 = (256 * 256 * 64 :: nat)"
    "1048576 = (256 * 256 * 16 :: nat)" "131072 = (256 * 256 * 2 :: nat)"
    "268435456 = (256 * 256 * (256 * 16) :: nat)" "65536 = (256 * 256 :: nat)"
    by simp_all
  show "addr_value [a, b, c, d] div 16777216 = a" "addr_value [a, b, c, d] div 65536 = a * 256 + b"
    "addr_value [a, b, c, d] div 256 = (a * 256 + b) * 256 + c"
    "addr_value [a, b, c, d] div 4194304 = a * 4 + b div 64"
    "addr_value [a, b, c, d] div 1048576 = a * 16 + b div 16"
    "addr_value [a, b, c, d] div 131072 = a * 128 + b div 2" "addr_value [a, b, c, d] div 268435456 = a div 16"
    unfolding n x_def[symmetric] by (fact products b c)+
qed

lemma div_range: "0 < k \<Longrightarrow> (b :: nat) div k = m \<longleftrightarrow> m * k \<le> b \<and> b < Suc m * k"
proof
  assume "0 < k" "b div k = m"
  then show "m * k \<le> b \<and> b < Suc m * k"
    using dividend_less_times_div[of k b] div_times_less_eq_dividend[of b k] by (simp add: mult.commute)
next
  assume "m * k \<le> b \<and> b < Suc m * k"
  then show "b div k = m" by (intro div_nat_eqI) (simp_all add: mult.commute)
qed

lemma is_global_ipv4_blocks:
  assumes "a < 256" "b < 256" "c < 256" "d < 256"
  shows "is_global_ipv4 [a, b, c, d] \<longleftrightarrow> (\<forall>block \<in> set special_blocks. \<not> in_block [a, b, c, d] block)"
proof -
  have *: "in_block [a, b, c, d] ([0, 0, 0, 0], 8) \<longleftrightarrow> a = 0"
    "in_block [a, b, c, d] ([10, 0, 0, 0], 8) \<longleftrightarrow> a = 10"
    "in_block [a, b, c, d] ([127, 0, 0, 0], 8) \<longleftrightarrow> a = 127"
    "in_block [a, b, c, d] ([100, 64, 0, 0], 10) \<longleftrightarrow> a * 4 + b div 64 = 401"
    "in_block [a, b, c, d] ([169, 254, 0, 0], 16) \<longleftrightarrow> a * 256 + b = 43518"
    "in_block [a, b, c, d] ([172, 16, 0, 0], 12) \<longleftrightarrow> a * 16 + b div 16 = 2753"
    "in_block [a, b, c, d] ([192, 0, 0, 0], 24) \<longleftrightarrow> (a * 256 + b) * 256 + c = 12582912"
    "in_block [a, b, c, d] ([192, 0, 2, 0], 24) \<longleftrightarrow> (a * 256 + b) * 256 + c = 12582914"
    "in_block [a, b, c, d] ([192, 88, 99, 0], 24) \<longleftrightarrow> (a * 256 + b) * 256 + c = 12605539"
    "in_block [a, b, c, d] ([192, 168, 0, 0], 16) \<longleftrightarrow> a * 256 + b = 49320"
    "in_block [a, b, c, d] ([198, 18, 0, 0], 15) \<longleftrightarrow> a * 128 + b div 2 = 25353"
    "in_block [a, b, c, d] ([198, 51, 100, 0], 24) \<longleftrightarrow> (a * 256 + b) * 256 + c = 12989284"
    "in_block [a, b, c, d] ([203, 0, 113, 0], 24) \<longleftrightarrow> (a * 256 + b) * 256 + c = 13303921"
    "in_block [a, b, c, d] ([224, 0, 0, 0], 4) \<longleftrightarrow> a div 16 = 14"
    "in_block [a, b, c, d] ([240, 0, 0, 0], 4) \<longleftrightarrow> a div 16 = 15"
    using assms by (simp_all add: in_block_def addr_div)
  have "b div 64 < 4" "b div 16 < 16" "b div 2 < 128" using assms by auto
  then have splits: "a * 4 + b div 64 = 401 \<longleftrightarrow> a = 100 \<and> b div 64 = 1"
    "a * 256 + b = 43518 \<longleftrightarrow> a = 169 \<and> b = 254"
    "a * 16 + b div 16 = 2753 \<longleftrightarrow> a = 172 \<and> b div 16 = 1"
    "(a * 256 + b) * 256 + c = 12582912 \<longleftrightarrow> a = 192 \<and> b = 0 \<and> c = 0"
    "(a * 256 + b) * 256 + c = 12582914 \<longleftrightarrow> a = 192 \<and> b = 0 \<and> c = 2"
    "(a * 256 + b) * 256 + c = 12605539 \<longleftrightarrow> a = 192 \<and> b = 88 \<and> c = 99"
    "a * 256 + b = 49320 \<longleftrightarrow> a = 192 \<and> b = 168"
    "a * 128 + b div 2 = 25353 \<longleftrightarrow> a = 198 \<and> b div 2 = 9"
    "(a * 256 + b) * 256 + c = 12989284 \<longleftrightarrow> a = 198 \<and> b = 51 \<and> c = 100"
    "(a * 256 + b) * 256 + c = 13303921 \<longleftrightarrow> a = 203 \<and> b = 0 \<and> c = 113"
    using assms by (simp_all add: digit_split del: distrib_right_numeral)
  have divs: "b div 64 = 1 \<longleftrightarrow> 64 \<le> b \<and> b \<le> 127" "b div 16 = 1 \<longleftrightarrow> 16 \<le> b \<and> b \<le> 31"
    "b div 2 = 9 \<longleftrightarrow> b = 18 \<or> b = 19" "a div 16 = 14 \<longleftrightarrow> 224 \<le> a \<and> a \<le> 239" "a div 16 = 15 \<longleftrightarrow> 240 \<le> a"
    using assms(1) by (auto simp: div_range)
  have "(\<forall>block \<in> set special_blocks. \<not> in_block [a, b, c, d] block) \<longleftrightarrow>
      \<not> (a = 0 \<or> a = 10 \<or> a = 100 \<and> 64 \<le> b \<and> b \<le> 127 \<or> a = 127 \<or> a = 169 \<and> b = 254
        \<or> a = 172 \<and> 16 \<le> b \<and> b \<le> 31 \<or> a = 192 \<and> b = 0 \<and> c = 0 \<or> a = 192 \<and> b = 0 \<and> c = 2
        \<or> a = 192 \<and> b = 88 \<and> c = 99 \<or> a = 192 \<and> b = 168 \<or> a = 198 \<and> (b = 18 \<or> b = 19)
        \<or> a = 198 \<and> b = 51 \<and> c = 100 \<or> a = 203 \<and> b = 0 \<and> c = 113
        \<or> 224 \<le> a \<and> a \<le> 239 \<or> 240 \<le> a)"
    unfolding special_blocks_def list.set ball_simps * splits divs by (simp only: de_Morgan_disj simp_thms conj_assoc)
  moreover have "224 \<le> a \<longleftrightarrow> 224 \<le> a \<and> a \<le> 239 \<or> 240 \<le> a" by linarith
  moreover have "[a, b, c, d] ! 0 = a" "[a, b, c, d] ! 1 = b" "[a, b, c, d] ! 2 = c" by simp_all
  ultimately show ?thesis unfolding is_global_ipv4_def Let_def
    by (simp only: insert_iff empty_iff) satx
qed

section \<open>Dotted text\<close>

text \<open>The text of an IPv4 address, as the socket library writes it.\<close>

definition octet_text :: "nat \<Rightarrow> string" where
  "octet_text n = map (\<lambda>b. char_of (unat b)) (dec_text n)"

fun dotted :: "nat list \<Rightarrow> string" where
  "dotted [] = []"
| "dotted [x] = octet_text x"
| "dotted (x # xs) = octet_text x @ CHR ''.'' # dotted xs"

lemma ascii_octet_text: "ascii (octet_text n) = dec_text n"
proof -
  have "(of_char (char_of (unat b) :: char) :: 8 word) = b" for b :: byte
  proof -
    have "(of_char (char_of (unat b) :: char) :: 8 word) = of_nat (of_char (char_of (unat b) :: char))"
      by (rule of_nat_of_char[symmetric])
    also have "\<dots> = b" unfolding of_char_of using unat_byte[of b] by simp
    finally show ?thesis .
  qed
  then show ?thesis by (simp add: ascii_def octet_text_def map_idI)
qed

lemma octet_text_char: "x \<in> set (octet_text n) \<Longrightarrow> x \<noteq> CHR ''.'' \<and> x \<noteq> CHR '':''"
proof -
  assume "x \<in> set (octet_text n)"
  then have "of_char x \<in> set (ascii (octet_text n))" unfolding ascii_def by simp
  then have "is_digit (of_char x)" using dec_text_digits[of n] by (simp add: ascii_octet_text list_all_iff)
  then show ?thesis by (auto simp: is_digit_def)
qed

lemma octet_text_seps [simp]: "CHR ''.'' \<notin> set (octet_text n)" "CHR '':'' \<notin> set (octet_text n)"
  using octet_text_char by blast+

lemma split_on_none: "c \<notin> set xs \<Longrightarrow> split_on c xs = [xs]"
  by (induction xs) auto

lemma split_on_first: "c \<notin> set xs \<Longrightarrow> split_on c (xs @ c # ys) = xs # split_on c ys"
  by (induction xs) auto

lemma split_on_dotted: "octets \<noteq> [] \<Longrightarrow> split_on CHR ''.'' (dotted octets) = map octet_text octets"
  by (induction octets rule: dotted.induct) (auto simp: split_on_none split_on_first dest: octet_text_char)

lemma dotted_no_colon: "CHR '':'' \<notin> set (dotted octets)"
  by (induction octets rule: dotted.induct) (auto dest: octet_text_char)

lemma length_dec_text: "n < 1000 \<Longrightarrow> length (dec_text n) \<le> 3"
  by (simp add: dec_text.simps[of n] dec_text.simps[of "n div 10"] dec_text.simps[of "n div 10 div 10"])

section \<open>Properties\<close>

text \<open>
  C24: A list of nodes of one family encodes, and decoding the compact form with the entry
  length of that family gives the same nodes in the same order (IPv4 and IPv6).
\<close>

theorem compact_nodes_roundtrip:
  assumes "inet_inverse lib"
  shows "(list_all (node4_ok lib) nodes \<longrightarrow>
      (\<exists>x. encode_compact_nodes lib nodes = Inr x \<and> decode_compact_nodes lib x COMPACT_NODE_LENGTH = nodes))
    \<and> (list_all (node6_ok lib) nodes \<longrightarrow>
      (\<exists>x. encode_compact_nodes lib nodes = Inr x \<and> decode_compact_nodes6 lib x = nodes))"
  using compact_nodes_codec[OF assms fixed_codec_node4[OF assms]]
    compact_nodes_codec[OF assms fixed_codec_node6[OF assms]]
  by (simp add: decode_compact_nodes6_def)

text \<open>A library that satisfies the hypothesis: dotted text for both families.\<close>

definition dotted_lib :: ip_lib where
  "dotted_lib =
     \<lparr> inet_aton = (\<lambda>s. Some (map (\<lambda>part. of_nat (dec_value (ascii part))) (split_on CHR ''.'' s))),
       inet_ntoa = (\<lambda>b. dotted (map unat b)),
       inet_pton6 = (\<lambda>s. Some (map (\<lambda>part. of_nat (dec_value (ascii part))) (split_on CHR ''.'' (tl s)))),
       inet_ntop6 = (\<lambda>b. CHR '':'' # dotted (map unat b)),
       ipv6_address = (\<lambda>_. None) \<rparr>"

lemma dotted_lib_inverse: "inet_inverse dotted_lib"
proof -
  have "map (\<lambda>part. of_nat (dec_value (ascii part))) (split_on CHR ''.'' (dotted (map unat b))) = (b :: bytes)"
    if "b \<noteq> []" for b
    using that by (subst split_on_dotted) (simp_all add: comp_def ascii_octet_text map_idI)
  then show ?thesis unfolding inet_inverse_def dotted_lib_def
    by (simp add: dotted_no_colon) (metis length_0_conv zero_neq_numeral)
qed

theorem compact_nodes_roundtrip_witness:
  "\<exists>x. encode_compact_nodes dotted_lib [(replicate 20 7, dotted [1, 2, 3, 4], 80)] = Inr x
     \<and> decode_compact_nodes dotted_lib x COMPACT_NODE_LENGTH = [(replicate 20 7, dotted [1, 2, 3, 4], 80)]"
proof -
  have "dotted [1, 2, 3, 4] = inet_ntoa dotted_lib [1, 2, 3, 4]" by (simp add: dotted_lib_def)
  then have "list_all (node4_ok dotted_lib) [(replicate 20 7, dotted [1, 2, 3, 4], 80)]"
    unfolding node4_ok_def ipv4_address_def list.pred_inject fst_conv snd_conv
    by (intro conjI exI[of _ "[1, 2, 3, 4]"]) (auto simp: identity_consts)
  then show ?thesis using compact_nodes_roundtrip[OF dotted_lib_inverse] by blast
qed

text \<open>
  C27: The address filter on dotted IPv4 text accepts exactly the ports 1 to 65535 of the
  addresses outside the special-purpose blocks.
\<close>

theorem is_routable_address_ipv4:
  assumes "length octets = 4" and "\<forall>x \<in> set octets. x < 256"
  shows "is_routable_address lib (dotted octets) port \<longleftrightarrow>
    0 < port \<and> port \<le> 65535 \<and> (\<forall>block \<in> set special_blocks. \<not> in_block octets block)"
proof -
  obtain a b c d where o: "octets = [a, b, c, d]" and abcd: "a < 256" "b < 256" "c < 256" "d < 256"
    using assms by (auto simp: numeral_eq_Suc length_Suc_conv)
  have "map ascii (split_on CHR ''.'' (dotted octets)) = map dec_text octets"
    using assms by (subst split_on_dotted) (auto simp: ascii_octet_text)
  moreover have "list_all (\<lambda>part. isdigit part \<and> length part \<le> 3) (map dec_text octets)"
    using abcd length_dec_text by (simp add: o)
  ultimately show ?thesis
    using is_global_ipv4_blocks[OF abcd] abcd
    by (auto simp: is_routable_address_def dotted_no_colon o comp_def)
qed

theorem is_routable_address_ipv4_witness:
  "\<not> is_routable_address dotted_lib (dotted [192, 168, 1, 7]) 6881
    \<and> is_routable_address dotted_lib (dotted [8, 8, 8, 8]) 6881"
  using is_routable_address_ipv4[of "[192, 168, 1, 7]" dotted_lib 6881]
    is_routable_address_ipv4[of "[8, 8, 8, 8]" dotted_lib 6881]
  by (simp add: special_blocks_def in_block_def addr_value_def)


text \<open>
  The queries the crawler sends survive the wire: encoded and decoded by the receiver,
  a \<open>get_peers\<close> query has its transaction id, its type, its method and, in its
  arguments, the node id and the info hash it was built with.
\<close>

theorem get_peers_query_on_the_wire:
  assumes "length node_id = NODE_ID_LENGTH" and "length info_hash = NODE_ID_LENGTH"
  shows "\<exists>query x m a. build_get_peers_query transaction_id node_id info_hash = Inr query
    \<and> encode_bencode (PyDict query) = Inr x \<and> decode_bencode x = Inr (PyDict m)
    \<and> py_get m (ascii ''t'') = PyBytes transaction_id \<and> py_get m (ascii ''y'') = PyBytes (ascii ''q'')
    \<and> py_get m (ascii ''q'') = PyBytes (ascii ''get_peers'') \<and> py_get m (ascii ''a'') = PyDict a
    \<and> py_get a (ascii ''id'') = PyBytes node_id \<and> py_get a (ascii ''info_hash'') = PyBytes info_hash"
proof -
  define args where "args = [field ''id'' (PyBytes node_id), field ''info_hash'' (PyBytes info_hash)]"
  define query where "query = [field ''t'' (PyBytes transaction_id), field ''y'' (PyBytes (ascii ''q'')),
      field ''q'' (PyBytes (ascii ''get_peers'')), field ''a'' (PyDict args)]"
  have b: "build_get_peers_query transaction_id node_id info_hash = Inr query"
    using assms by (simp add: build_get_peers_query_def query_def args_def)
  have pa: "plain (PyDict args)" by (auto simp: args_def)
  then have "plain (PyDict query)" by (auto simp: query_def simp del: plain.simps(4))
  then obtain x m where m: "encode_bencode (PyDict query) = Inr x" "decode_bencode x = Inr (PyDict m)"
    "\<And>k. py_get m k = canonical (py_get query k)" by (rule wire_fields) blast
  obtain a where a: "canonical (PyDict args) = PyDict a" "\<And>k. py_get a k = canonical (py_get args k)"
    using pa by (rule wire_fields) blast
  show ?thesis
    using b m(1,2) a(1) by (intro exI[of _ query] exI[of _ x] exI[of _ m] exI[of _ a])
      (simp add: m(3) a(2) query_def args_def del: canonical.simps(3))
qed

theorem get_peers_query_on_the_wire_witness:
  "\<exists>query x m. build_get_peers_query (ascii ''aa'') (replicate 20 1) (replicate 20 2) = Inr query
    \<and> encode_bencode (PyDict query) = Inr x \<and> decode_bencode x = Inr (PyDict m)
    \<and> py_get m (ascii ''t'') = PyBytes (ascii ''aa'')"
proof -
  have "length (replicate 20 1 :: bytes) = NODE_ID_LENGTH" "length (replicate 20 2 :: bytes) = NODE_ID_LENGTH"
    by (simp_all add: identity_consts)
  from get_peers_query_on_the_wire[OF this, of "ascii ''aa''"] show ?thesis by blast
qed

text \<open>
  A sample response built for a list of info hashes carries them over the wire: the
  receiver's \<open>decode_samples\<close> gives the same hashes in the same order.
\<close>

theorem samples_on_the_wire:
  assumes "build_sample_infohashes_response transaction_id node_id interval compact_nodes num (concat hashes) nodes_key
      = Inr response"
    and "list_all (\<lambda>h. length h = NODE_ID_LENGTH) hashes"
  shows "\<exists>x m r. encode_bencode (PyDict response) = Inr x \<and> decode_bencode x = Inr (PyDict m)
    \<and> py_get m (ascii ''t'') = PyBytes transaction_id \<and> py_get m (ascii ''r'') = PyDict r
    \<and> py_get r (ascii ''num'') = PyInt num \<and> py_get r nodes_key = PyBytes compact_nodes
    \<and> decode_samples (py_get r (ascii ''samples'')) = hashes"
proof -
  define body where "body = [field ''id'' (PyBytes node_id), field ''interval'' (PyInt interval),
      (KBytes nodes_key, PyBytes compact_nodes), field ''num'' (PyInt num),
      field ''samples'' (PyBytes (concat hashes))]"
  have r: "response = [field ''t'' (PyBytes transaction_id), field ''y'' (PyBytes (ascii ''r'')),
      field ''r'' (PyDict body)]" and key: "nodes_key \<in> {NODES_KEY, NODES6_KEY}"
    using assms(1) by (simp_all add: build_sample_infohashes_response_def body_def)
  have pb: "plain (PyDict body)" using key by (auto simp: body_def krpc_consts)
  then have "plain (PyDict response)" by (auto simp: r simp del: plain.simps(4))
  then obtain x m where m: "encode_bencode (PyDict response) = Inr x" "decode_bencode x = Inr (PyDict m)"
    "\<And>k. py_get m k = canonical (py_get response k)" by (rule wire_fields) blast
  obtain b where b: "canonical (PyDict body) = PyDict b" "\<And>k. py_get b k = canonical (py_get body k)"
    using pb by (rule wire_fields) blast
  show ?thesis
    using m(1,2) b(1) key decode_samples_concat[OF assms(2)] by (intro exI[of _ x] exI[of _ m] exI[of _ b])
      (auto simp: m(3) b(2) r body_def krpc_consts simp del: canonical.simps(3))
qed

theorem samples_on_the_wire_witness:
  "\<exists>response x m r. build_sample_infohashes_response (ascii ''aa'') (replicate 20 1) 60 [] 1 (concat [replicate 20 5]) NODES_KEY
      = Inr response \<and> encode_bencode (PyDict response) = Inr x \<and> decode_bencode x = Inr (PyDict m)
    \<and> py_get m (ascii ''r'') = PyDict r \<and> decode_samples (py_get r (ascii ''samples'')) = [replicate 20 5]"
proof -
  obtain response where r: "build_sample_infohashes_response (ascii ''aa'') (replicate 20 1) 60 [] 1
      (concat [replicate 20 5]) NODES_KEY = Inr response"
    by (simp add: build_sample_infohashes_response_def identity_consts krpc_consts krpc_assert_def)
  moreover have "list_all (\<lambda>h. length h = NODE_ID_LENGTH) [replicate 20 5]" by (simp add: identity_consts)
  ultimately show ?thesis using samples_on_the_wire[OF r] by blast
qed

text \<open>
  An announced port is a valid port: it is the source port when \<open>implied_port\<close> is a
  nonzero int, the \<open>port\<close> argument otherwise, and nothing when that is not an int
  between 1 and 65535.
\<close>

theorem read_announced_port_spec:
  "read_announced_port args source_port = Some p \<longleftrightarrow>
     1 \<le> p \<and> p \<le> 65535 \<and>
     (if \<exists>i. i \<noteq> 0 \<and> py_get args (ascii ''implied_port'') = PyInt i then p = source_port
      else py_get args (ascii ''port'') = PyInt p)"
  by (auto simp: read_announced_port_def Let_def split: pyvalue.splits)

end
