(* ===== verification/Dht_Lookup.thy ===== *)
theory Dht_Lookup
  imports Krpc_Messages "HOL-Library.Product_Lexorder" "HOL-Library.List_Lexorder" "HOL-Library.Char_ord"
begin

text \<open>
  The get_peers lookups of \<open>dht_lookup.py\<close>. A \<open>PeerLookup\<close> is an object that the
  dictionary \<open>active\<close> owns under its info hash; a helper that changes a lookup takes and
  returns it beside the manager, and \<open>write_back\<close> puts it back where the object is. The
  callbacks (\<open>send_query\<close>, \<open>on_peers\<close>, \<open>on_finished\<close>) are the calls logged in
  \<open>lm_calls\<close>, in order; none of them calls back into the manager. The clock reading is the
  argument \<open>clock\<close>. Sets and counters are as in the source; times and tokens are exact reals.
\<close>

section \<open>Limits, lookups and the manager\<close>

record lookup_limits =
  ll_alpha :: nat
  ll_query_timeout :: real
  ll_hint_timeout :: real
  ll_deadline :: real
  ll_max_queries :: nat
  ll_enough_peers :: nat
  ll_max_value_responses :: nat
  ll_max_active :: nat
  ll_queries_per_second :: real
  ll_max_per_node :: nat
  ll_shortlist_size :: nat
  ll_max_peers :: nat

definition DEFAULT_LOOKUP_LIMITS :: lookup_limits where
  "DEFAULT_LOOKUP_LIMITS =
     \<lparr>ll_alpha = 1, ll_query_timeout = 1.5, ll_hint_timeout = 1, ll_deadline = 6, ll_max_queries = 16,
      ll_enough_peers = 8, ll_max_value_responses = 2, ll_max_active = 256, ll_queries_per_second = 420,
      ll_max_per_node = 4, ll_shortlist_size = 32, ll_max_peers = 50\<rparr>"

text \<open>\<open>found_peers\<close> is a dictionary without values: its keys in insertion order.\<close>

record peer_lookup =
  pl_info_hash :: bytes
  pl_shortlist :: "(bytes, node) odict"
  pl_queried :: "address set"
  pl_pending :: "(bytes, address \<times> real) odict"
  pl_found_peers :: "address list"
  pl_queries_sent :: nat
  pl_value_responses :: nat
  pl_hint_transaction :: "bytes option"
  pl_deadline :: real
  pl_finished :: bool

definition new_lookup :: "bytes \<Rightarrow> real \<Rightarrow> peer_lookup" where
  "new_lookup info_hash deadline =
     \<lparr>pl_info_hash = info_hash, pl_shortlist = [], pl_queried = {}, pl_pending = [], pl_found_peers = [],
      pl_queries_sent = 0, pl_value_responses = 0, pl_hint_transaction = None, pl_deadline = deadline,
      pl_finished = False\<rparr>"

datatype lookup_call =
    SendQuery bytes node bytes
  | OnPeers bytes "address list"
  | OnFinished bytes "address list"

record lookup_manager =
  lm_on_peers :: bool
  lm_node_filter :: "node \<Rightarrow> bool"
  lm_limits :: lookup_limits
  lm_active :: "(bytes, peer_lookup) odict"
  lm_transactions :: "(bytes, bytes) odict"
  lm_in_flight :: "(address, nat) odict"
  lm_tokens :: real
  lm_tokens_time :: real
  lm_sequence :: nat
  lm_started_total :: nat
  lm_finished_total :: nat
  lm_with_peers_total :: nat
  lm_peers_found_total :: nat
  lm_queries_total :: nat
  lm_hint_queries :: nat
  lm_hint_answers :: nat
  lm_hint_values :: nat
  lm_calls :: "lookup_call list"

definition accept_every_node :: "node \<Rightarrow> bool" where
  "accept_every_node node \<longleftrightarrow> True"

definition new_manager :: "real \<Rightarrow> (node \<Rightarrow> bool) \<Rightarrow> bool \<Rightarrow> lookup_limits \<Rightarrow> lookup_manager" where
  "new_manager clock node_filter on_peers limits =
     \<lparr>lm_on_peers = on_peers, lm_node_filter = node_filter, lm_limits = limits, lm_active = [],
      lm_transactions = [], lm_in_flight = [], lm_tokens = ll_queries_per_second limits,
      lm_tokens_time = clock, lm_sequence = 0, lm_started_total = 0, lm_finished_total = 0,
      lm_with_peers_total = 0, lm_peers_found_total = 0, lm_queries_total = 0, lm_hint_queries = 0,
      lm_hint_answers = 0, lm_hint_values = 0, lm_calls = []\<rparr>"

definition address_of :: "node \<Rightarrow> address" where
  "address_of node = (fst (snd node), snd (snd node))"

definition in_flight_at :: "lookup_manager \<Rightarrow> address \<Rightarrow> nat" where
  "in_flight_at m address = (case map_of (lm_in_flight m) address of None \<Rightarrow> 0 | Some n \<Rightarrow> n)"

text \<open>The lookup object where the dictionary of active lookups holds it.\<close>

definition write_back :: "lookup_manager \<Rightarrow> peer_lookup \<Rightarrow> lookup_manager" where
  "write_back m l = m\<lparr>lm_active := AList.update (pl_info_hash l) l (lm_active m)\<rparr>"

definition log_call :: "lookup_manager \<Rightarrow> lookup_call \<Rightarrow> lookup_manager" where
  "log_call m call = m\<lparr>lm_calls := lm_calls m @ [call]\<rparr>"

section \<open>Operations\<close>

definition is_usable_node :: "node \<Rightarrow> (node \<Rightarrow> bool) \<Rightarrow> bool" where
  "is_usable_node node node_filter \<longleftrightarrow> is_valid_node_id (PyBytes (fst node)) \<and> node_filter node"

definition free_slots :: "lookup_manager \<Rightarrow> int" where
  "free_slots m = int (ll_max_active (lm_limits m)) - int (length (lm_active m))"

definition owns_transaction :: "lookup_manager \<Rightarrow> pyvalue \<Rightarrow> bool" where
  "owns_transaction m transaction_id =
     (case transaction_id of PyBytes t \<Rightarrow> t \<in> fst ` set (lm_transactions m) | _ \<Rightarrow> False)"

definition refill :: "lookup_manager \<Rightarrow> real \<Rightarrow> lookup_manager" where
  "refill m now =
     (let qps = ll_queries_per_second (lm_limits m);
          elapsed = max 0 (now - lm_tokens_time m)
      in m\<lparr>lm_tokens := min qps (lm_tokens m + elapsed * qps), lm_tokens_time := max (lm_tokens_time m) now\<rparr>)"

definition add_to_shortlist :: "lookup_manager \<Rightarrow> peer_lookup \<Rightarrow> node list \<Rightarrow> peer_lookup" where
  "add_to_shortlist m l nodes =
     (let shortlist = foldl (\<lambda>d node.
            if is_usable_node node (lm_node_filter m) \<and> address_of node \<notin> pl_queried l
            then AList.update (fst node) node d else d) (pl_shortlist l) nodes;
          size = ll_shortlist_size (lm_limits m)
      in l\<lparr>pl_shortlist :=
           (if length shortlist > size
            then foldl (\<lambda>d node. AList.update (fst node) node d) []
                   (select_closest_nodes (map snd shortlist) (pl_info_hash l) size)
            else shortlist)\<rparr>)"

definition send_to ::
    "lookup_manager \<Rightarrow> peer_lookup \<Rightarrow> node \<Rightarrow> real \<Rightarrow> real \<Rightarrow> bytes \<times> lookup_manager \<times> peer_lookup" where
  "send_to m l node now timeout =
     (let transaction_id = lookup_transaction_id (lm_sequence m);
          address = address_of node;
          l1 = l\<lparr>pl_pending := AList.update transaction_id (address, now + timeout) (pl_pending l),
                 pl_queried := insert address (pl_queried l),
                 pl_queries_sent := pl_queries_sent l + 1\<rparr>;
          m1 = m\<lparr>lm_sequence := lm_sequence m + 1,
                 lm_transactions := AList.update transaction_id (pl_info_hash l) (lm_transactions m),
                 lm_in_flight := AList.update address (in_flight_at m address + 1) (lm_in_flight m),
                 lm_tokens := lm_tokens m - 1,
                 lm_queries_total := lm_queries_total m + 1\<rparr>
      in (transaction_id, log_call m1 (SendQuery transaction_id node (pl_info_hash l)), l1))"

definition release_transaction ::
    "lookup_manager \<Rightarrow> peer_lookup \<Rightarrow> bytes \<Rightarrow> lookup_manager \<times> peer_lookup" where
  "release_transaction m l transaction_id =
     (let address = (case map_of (pl_pending l) transaction_id of Some (a, _) \<Rightarrow> a | None \<Rightarrow> ([], 0));
          remaining = int (in_flight_at m address) - 1
      in (m\<lparr>lm_transactions := AList.delete transaction_id (lm_transactions m),
            lm_in_flight := (if remaining > 0 then AList.update address (nat remaining) (lm_in_flight m)
                             else AList.delete address (lm_in_flight m))\<rparr>,
          l\<lparr>pl_pending := AList.delete transaction_id (pl_pending l),
            pl_hint_transaction := (if pl_hint_transaction l = Some transaction_id then None
                                    else pl_hint_transaction l)\<rparr>))"

text \<open>The sending loop of \<open>top_up\<close>; the result counts the queries sent.\<close>

fun top_up_loop ::
    "lookup_manager \<Rightarrow> peer_lookup \<Rightarrow> real \<Rightarrow> node list \<Rightarrow> nat \<Rightarrow> nat \<times> lookup_manager \<times> peer_lookup" where
  "top_up_loop m l now [] sent = (sent, m, l)"
| "top_up_loop m l now (node # nodes) sent =
     (if lm_tokens m < 1 then (sent, m, l)
      else let (_, m1, l1) = send_to m l node now (ll_query_timeout (lm_limits m))
           in top_up_loop m1 l1 now nodes (sent + 1))"

definition top_up_candidates :: "lookup_manager \<Rightarrow> peer_lookup \<Rightarrow> node list" where
  "top_up_candidates m l =
     filter (\<lambda>node. address_of node \<notin> pl_queried l
               \<and> in_flight_at m (address_of node) < ll_max_per_node (lm_limits m)) (map snd (pl_shortlist l))"

definition top_up :: "lookup_manager \<Rightarrow> peer_lookup \<Rightarrow> real \<Rightarrow> nat \<times> lookup_manager \<times> peer_lookup" where
  "top_up m l now =
     (let free = min (int (ll_alpha (lm_limits m)) - int (length (pl_pending l)))
                     (int (ll_max_queries (lm_limits m)) - int (pl_queries_sent l))
      in if free \<le> 0 then (0, m, l)
         else let m1 = refill m now
              in if lm_tokens m1 < 1 then (0, m1, l)
                 else top_up_loop m1 l now
                        (select_closest_nodes (top_up_candidates m1 l) (pl_info_hash l) (nat free)) 0)"

definition can_query_more :: "lookup_manager \<Rightarrow> peer_lookup \<Rightarrow> bool" where
  "can_query_more m l \<longleftrightarrow>
     pl_queries_sent l < ll_max_queries (lm_limits m)
     \<and> (\<exists>node \<in> set (map snd (pl_shortlist l)). address_of node \<notin> pl_queried l)"

text \<open>A loop of \<open>release_transaction\<close> calls over transaction ids.\<close>

fun release_all :: "lookup_manager \<Rightarrow> peer_lookup \<Rightarrow> bytes list \<Rightarrow> lookup_manager \<times> peer_lookup" where
  "release_all m l [] = (m, l)"
| "release_all m l (t # ts) = (let (m1, l1) = release_transaction m l t in release_all m1 l1 ts)"

definition finish :: "lookup_manager \<Rightarrow> peer_lookup \<Rightarrow> lookup_manager" where
  "finish m l =
     (let (m1, l1) = release_all m (l\<lparr>pl_finished := True\<rparr>) (map fst (pl_pending l));
          peers = sort (pl_found_peers l1);
          m2 = m1\<lparr>lm_active := AList.delete (pl_info_hash l1) (lm_active m1),
                  lm_finished_total := lm_finished_total m1 + 1,
                  lm_peers_found_total := lm_peers_found_total m1 + length peers,
                  lm_with_peers_total := lm_with_peers_total m1 + (if peers \<noteq> [] then 1 else 0)\<rparr>
      in log_call m2 (OnFinished (pl_info_hash l1) peers))"

definition advance :: "lookup_manager \<Rightarrow> peer_lookup \<Rightarrow> real \<Rightarrow> lookup_manager" where
  "advance m l now =
     (let limits = lm_limits m
      in if pl_finished l then m
         else if now \<ge> pl_deadline l \<or> length (pl_found_peers l) \<ge> ll_enough_peers limits
                 \<or> pl_value_responses l \<ge> ll_max_value_responses limits
         then finish m l
         else if pl_hint_transaction l = None
         then let (_, m1, l1) = top_up m l now
              in if pl_pending l1 = [] \<and> \<not> can_query_more m1 l1 then finish m1 l1 else write_back m1 l1
         else write_back m l)"

definition start_lookup ::
    "lookup_manager \<Rightarrow> bytes \<Rightarrow> node list \<Rightarrow> real \<Rightarrow> node option \<Rightarrow> bool \<times> lookup_manager" where
  "start_lookup m info_hash seed_nodes now hint0 =
     (if info_hash \<in> fst ` set (lm_active m) \<or> free_slots m = 0 then (False, m)
      else let m1 = refill m now
           in if lm_tokens m1 < 1 then (False, m1)
              else let hint = (case hint0 of None \<Rightarrow> None
                        | Some node \<Rightarrow> if is_usable_node node (lm_node_filter m1) then Some node else None)
                   in if (case hint of None \<Rightarrow> False
                          | Some node \<Rightarrow> in_flight_at m1 (address_of node) \<ge> ll_max_per_node (lm_limits m1))
                      then (False, m1)
                      else let l = add_to_shortlist m1 (new_lookup info_hash (now + ll_deadline (lm_limits m1))) seed_nodes
                           in if hint = None \<and> pl_shortlist l = [] then (False, m1)
                              else let m2 = (write_back m1 l)\<lparr>lm_started_total := lm_started_total m1 + 1\<rparr>
                                   in case hint of
                                        Some node \<Rightarrow>
                                          let (t, m3, l3) = send_to m2 l node now (ll_hint_timeout (lm_limits m2))
                                          in (True, (write_back m3 (l3\<lparr>pl_hint_transaction := Some t\<rparr>))
                                                      \<lparr>lm_hint_queries := lm_hint_queries m3 + 1\<rparr>)
                                      | None \<Rightarrow> let (_, m3, l3) = top_up m2 l now in (True, write_back m3 l3))"

text \<open>The loop over the decoded values: the new peers, appended to those found.\<close>

definition collect_peers :: "ip_lib \<Rightarrow> nat \<Rightarrow> address list \<Rightarrow> address list \<Rightarrow> address list" where
  "collect_peers lib max_peers found peers =
     foldl (\<lambda>found peer.
        if is_routable_address lib (fst peer) (snd peer) \<and> peer \<notin> set found \<and> length found < max_peers
        then found @ [peer] else found) found peers"

definition read_response ::
    "ip_lib \<Rightarrow> lookup_manager \<Rightarrow> peer_lookup \<Rightarrow> pyvalue \<Rightarrow> bool \<Rightarrow> lookup_manager \<times> peer_lookup" where
  "read_response lib m l response from_hint =
     (case response of
        PyDict d \<Rightarrow>
          let vals = decode_compact_peers lib (py_get d (ascii ''values''));
              m1 = m\<lparr>lm_hint_values := lm_hint_values m + (if from_hint \<and> vals \<noteq> [] then 1 else 0)\<rparr>;
              found = collect_peers lib (ll_max_peers (lm_limits m)) (pl_found_peers l) vals;
              new_peers = drop (length (pl_found_peers l)) found;
              l1 = l\<lparr>pl_found_peers := found,
                     pl_value_responses := pl_value_responses l + (if vals \<noteq> [] then 1 else 0)\<rparr>;
              m2 = (if new_peers \<noteq> [] \<and> lm_on_peers m1 then log_call m1 (OnPeers (pl_info_hash l) new_peers) else m1);
              l2 = (case py_get d (ascii ''nodes'') of
                      PyBytes b \<Rightarrow> add_to_shortlist m2 l1 (decode_compact_nodes lib b COMPACT_NODE_LENGTH) | _ \<Rightarrow> l1);
              l3 = (case py_get d (ascii ''nodes6'') of
                      PyBytes b \<Rightarrow> add_to_shortlist m2 l2 (decode_compact_nodes6 lib b) | _ \<Rightarrow> l2)
          in (m2, l3)
      | _ \<Rightarrow> (m, l))"

definition handle_response ::
    "ip_lib \<Rightarrow> lookup_manager \<Rightarrow> bytes \<Rightarrow> pyvalue \<Rightarrow> address \<Rightarrow> real \<Rightarrow> lookup_manager" where
  "handle_response lib m transaction_id response address clock =
     (case map_of (lm_transactions m) transaction_id of
        None \<Rightarrow> m
      | Some info_hash \<Rightarrow>
          (case map_of (lm_active m) info_hash of
             None \<Rightarrow> m
           | Some l \<Rightarrow>
               if map_option fst (map_of (pl_pending l) transaction_id) \<noteq> Some address then m
               else let from_hint = pl_hint_transaction l = Some transaction_id;
                        (m1, l1) = release_transaction m l transaction_id;
                        m2 = m1\<lparr>lm_hint_answers := lm_hint_answers m1 + (if from_hint then 1 else 0)\<rparr>;
                        (m3, l3) = read_response lib m2 l1 response from_hint
                    in advance m3 l3 clock))"

definition handle_error :: "lookup_manager \<Rightarrow> bytes \<Rightarrow> real \<Rightarrow> lookup_manager" where
  "handle_error m transaction_id clock =
     (let drop_it = m\<lparr>lm_transactions := AList.delete transaction_id (lm_transactions m)\<rparr>
      in case Option.bind (map_of (lm_transactions m) transaction_id) (map_of (lm_active m)) of
           None \<Rightarrow> drop_it
         | Some l \<Rightarrow>
             if transaction_id \<in> fst ` set (pl_pending l)
             then let (m1, l1) = release_transaction m l transaction_id in advance m1 l1 clock
             else drop_it)"

definition expire_pending :: "lookup_manager \<Rightarrow> peer_lookup \<Rightarrow> real \<Rightarrow> lookup_manager \<times> peer_lookup" where
  "expire_pending m l now =
     release_all m l (map fst (filter (\<lambda>p. snd (snd p) \<le> now) (pl_pending l)))"

definition tick_one :: "real \<Rightarrow> lookup_manager \<Rightarrow> bytes \<Rightarrow> lookup_manager" where
  "tick_one now m h =
     (case map_of (lm_active m) h of
        None \<Rightarrow> m
      | Some l \<Rightarrow> let (m1, l1) = expire_pending m l now in advance m1 l1 now)"

definition tick :: "lookup_manager \<Rightarrow> real \<Rightarrow> lookup_manager" where
  "tick m now = foldl (tick_one now) (refill m now) (map fst (lm_active m))"

definition finish_one :: "lookup_manager \<Rightarrow> bytes \<Rightarrow> lookup_manager" where
  "finish_one m h = (case map_of (lm_active m) h of None \<Rightarrow> m | Some l \<Rightarrow> finish m l)"

definition abort_all :: "lookup_manager \<Rightarrow> lookup_manager" where
  "abort_all m = foldl finish_one m (map fst (lm_active m))"

record lookup_counts =
  lc_finished :: nat
  lc_with_peers :: nat
  lc_peers_found :: nat
  lc_queries_sent :: nat
  lc_hint_queries :: nat
  lc_hint_answers :: nat
  lc_hint_values :: nat
  lc_active :: nat

definition lookup_snapshot_counts :: "lookup_manager \<Rightarrow> lookup_counts" where
  "lookup_snapshot_counts m =
     \<lparr>lc_finished = lm_finished_total m, lc_with_peers = lm_with_peers_total m,
      lc_peers_found = lm_peers_found_total m, lc_queries_sent = lm_queries_total m,
      lc_hint_queries = lm_hint_queries m, lc_hint_answers = lm_hint_answers m,
      lc_hint_values = lm_hint_values m, lc_active = length (lm_active m)\<rparr>"

end
