(* ===== verification/Lookup_Invariant.thy ===== *)
theory Lookup_Invariant
  imports Dht_Lookup
begin

text \<open>
  The invariant of the lookup manager of \<open>dht_lookup.py\<close>, preserved by every operation.
  \<open>manager_ok\<close> holds without any assumption on how long the manager runs;
  \<open>exact\<close> (every pending query is routed, \<open>in_flight\<close> counts the pending queries of an
  address) holds as long as the transaction ids have not wrapped, that is for the first
  \<open>2^24\<close> queries.
\<close>

declare map_of_eq_Some_iff [simp del] Some_eq_map_of_iff [simp del]

section \<open>The invariant\<close>

definition limits_ok :: "lookup_limits \<Rightarrow> bool" where
  "limits_ok lims \<longleftrightarrow> 1 \<le> ll_alpha lims \<and> 1 \<le> ll_max_active lims \<and> 0 < ll_queries_per_second lims \<and> 1 \<le> ll_max_per_node lims"

definition pending_ids :: "peer_lookup \<Rightarrow> bytes set" where
  "pending_ids l = fst ` set (pl_pending l)"

definition shortlist_ok :: "lookup_limits \<Rightarrow> (bytes, node) odict \<Rightarrow> bool" where
  "shortlist_ok lims d \<longleftrightarrow> od_ok d \<and> (\<forall>p \<in> set d. fst p = fst (snd p)) \<and> length d \<le> ll_shortlist_size lims"

definition lookup_ok :: "lookup_limits \<Rightarrow> nat \<Rightarrow> peer_lookup \<Rightarrow> bool" where
  "lookup_ok lims seq l \<longleftrightarrow>
     \<not> pl_finished l \<and> od_ok (pl_pending l) \<and> length (pl_pending l) \<le> ll_alpha lims
     \<and> (\<forall>t \<in> pending_ids l. \<exists>k < seq. t = lookup_transaction_id k)
     \<and> (\<forall>p \<in> set (pl_pending l). fst (snd p) \<in> pl_queried l)
     \<and> (\<forall>t. pl_hint_transaction l = Some t \<longrightarrow> t \<in> pending_ids l)
     \<and> pl_queries_sent l \<le> max (ll_max_queries lims) 1
     \<and> shortlist_ok lims (pl_shortlist l)
     \<and> distinct (pl_found_peers l) \<and> length (pl_found_peers l) \<le> ll_max_peers lims"

definition lookups_ok :: "lookup_limits \<Rightarrow> nat \<Rightarrow> (bytes, peer_lookup) odict \<Rightarrow> bool" where
  "lookups_ok lims seq D \<longleftrightarrow>
     od_ok D \<and> length D \<le> ll_max_active lims
     \<and> (\<forall>h l. map_of D h = Some l \<longrightarrow> pl_info_hash l = h \<and> lookup_ok lims seq l)"

definition routes :: "(bytes, peer_lookup) odict \<Rightarrow> (bytes, bytes) odict \<Rightarrow> bool" where
  "routes D tr \<longleftrightarrow> od_ok tr \<and> (\<forall>t h. map_of tr t = Some h \<longrightarrow> (\<exists>l. map_of D h = Some l \<and> t \<in> pending_ids l))"

definition is_send :: "lookup_call \<Rightarrow> bool" where
  "is_send call = (case call of SendQuery _ _ _ \<Rightarrow> True | _ \<Rightarrow> False)"

definition is_finished :: "lookup_call \<Rightarrow> bool" where
  "is_finished call = (case call of OnFinished _ _ \<Rightarrow> True | _ \<Rightarrow> False)"

definition budget_ok :: "lookup_manager \<Rightarrow> bool" where
  "budget_ok m \<longleftrightarrow>
     0 \<le> lm_tokens m \<and> lm_tokens m \<le> ll_queries_per_second (lm_limits m)
     \<and> (\<forall>a. in_flight_at m a \<le> ll_max_per_node (lm_limits m) + ll_alpha (lm_limits m) - 1)
     \<and> lm_started_total m = lm_finished_total m + length (lm_active m)
     \<and> lm_queries_total m = lm_sequence m
     \<and> length (filter is_send (lm_calls m)) = lm_queries_total m
     \<and> length (filter is_finished (lm_calls m)) = lm_finished_total m"

definition at_addr :: "address \<Rightarrow> peer_lookup \<Rightarrow> nat" where
  "at_addr a l = od_sum (\<lambda>v. if fst v = a then 1 else 0) (pl_pending l)"

definition exact :: "lookup_manager \<Rightarrow> bool" where
  "exact m \<longleftrightarrow>
     (\<forall>h l t. map_of (lm_active m) h = Some l \<longrightarrow> t \<in> pending_ids l \<longrightarrow> map_of (lm_transactions m) t = Some h)
     \<and> (\<forall>a. in_flight_at m a = od_sum (at_addr a) (lm_active m))"

definition manager_ok :: "lookup_manager \<Rightarrow> bool" where
  "manager_ok m \<longleftrightarrow>
     limits_ok (lm_limits m) \<and> lookups_ok (lm_limits m) (lm_sequence m) (lm_active m)
     \<and> routes (lm_active m) (lm_transactions m) \<and> budget_ok m
     \<and> (lm_sequence m \<le> 2 ^ 24 \<longrightarrow> exact m)"

text \<open>The invariant while a lookup is held beside the manager.\<close>

definition attached :: "lookup_manager \<Rightarrow> peer_lookup \<Rightarrow> bool" where
  "attached m l \<longleftrightarrow> pl_info_hash l \<in> fst ` set (lm_active m) \<and> manager_ok (write_back m l)"

lemmas lookup_inv_defs = manager_ok_def budget_ok_def in_flight_at_def

lemma write_back_simps [simp]:
  "lm_limits (write_back m l) = lm_limits m" "lm_transactions (write_back m l) = lm_transactions m"
  "lm_in_flight (write_back m l) = lm_in_flight m" "lm_tokens (write_back m l) = lm_tokens m"
  "lm_tokens_time (write_back m l) = lm_tokens_time m" "lm_sequence (write_back m l) = lm_sequence m"
  "lm_queries_total (write_back m l) = lm_queries_total m" "lm_calls (write_back m l) = lm_calls m"
  "lm_active (write_back m l) = AList.update (pl_info_hash l) l (lm_active m)"
  "lm_started_total (write_back m l) = lm_started_total m" "lm_finished_total (write_back m l) = lm_finished_total m"
  "in_flight_at (write_back m l) = in_flight_at m" "lm_node_filter (write_back m l) = lm_node_filter m"
  by (simp_all add: write_back_def in_flight_at_def fun_eq_iff)

lemma attached_active:
  assumes "manager_ok m" "map_of (lm_active m) h = Some l"
  shows "attached m l" "pl_info_hash l = h"
proof -
  show h: "pl_info_hash l = h" using assms by (auto simp: manager_ok_def lookups_ok_def)
  then have "write_back m l = m" using assms by (simp add: write_back_def update_same manager_ok_def lookups_ok_def)
  with assms h show "attached m l" by (auto simp: attached_def dest: map_of_SomeD intro: rev_image_eqI)
qed

lemma lookups_okD:
  "lookups_ok lims seq D \<Longrightarrow> map_of D h = Some l \<Longrightarrow> pl_info_hash l = h \<and> lookup_ok lims seq l"
  by (simp add: lookups_ok_def)

lemma attachedD:
  assumes "attached m l"
  shows "manager_ok (write_back m l)" "lookup_ok (lm_limits m) (lm_sequence m) l"
    "pl_info_hash l \<in> fst ` set (lm_active m)" "limits_ok (lm_limits m)"
proof -
  show m: "manager_ok (write_back m l)" and "pl_info_hash l \<in> fst ` set (lm_active m)"
    using assms by (simp_all add: attached_def)
  then show "limits_ok (lm_limits m)" by (simp add: manager_ok_def)
  have "map_of (lm_active (write_back m l)) (pl_info_hash l) = Some l" by (simp add: dict_simps)
  moreover have "lookups_ok (lm_limits m) (lm_sequence m) (lm_active (write_back m l))" using m by (simp add: manager_ok_def)
  ultimately show "lookup_ok (lm_limits m) (lm_sequence m) l" using lookups_okD by blast
qed

lemma lookup_ok_mono: "lookup_ok lims seq l \<Longrightarrow> seq \<le> seq' \<Longrightarrow> lookup_ok lims seq' l"
  by (auto simp: lookup_ok_def) (meson less_le_trans)

lemma lookups_ok_update:
  assumes "lookups_ok lims seq D" "seq \<le> seq'" "pl_info_hash l' = h" "h \<in> fst ` set D" "lookup_ok lims seq' l'"
  shows "lookups_ok lims seq' (AList.update h l' D)"
  using assms by (auto simp: lookups_ok_def dict_simps length_update_old intro: lookup_ok_mono)

text \<open>A change of the held lookup and of the tables.\<close>

lemma attached_change:
  assumes a: "attached m l" and same: "lm_active m' = lm_active m" "pl_info_hash l' = pl_info_hash l" "lm_limits m' = lm_limits m"
    and seq: "lm_sequence m \<le> lm_sequence m'" and ok: "lookup_ok (lm_limits m) (lm_sequence m') l'"
    and rt: "routes (lm_active (write_back m l)) (lm_transactions m) \<Longrightarrow> routes (lm_active (write_back m' l')) (lm_transactions m')"
    and bud: "budget_ok (write_back m l) \<Longrightarrow> budget_ok (write_back m' l')"
    and ex: "lm_sequence m' \<le> 2 ^ 24 \<Longrightarrow> exact (write_back m l) \<Longrightarrow> exact (write_back m' l')"
  shows "attached m' l'"
proof -
  have k: "pl_info_hash l \<in> fst ` set (lm_active m)" and m: "manager_ok (write_back m l)" using attachedD[OF a] by auto
  have "lm_active (write_back m' l') = AList.update (pl_info_hash l) l' (lm_active (write_back m l))"
    by (simp add: same update_update)
  moreover have "pl_info_hash l \<in> fst ` set (lm_active (write_back m l))" by (simp add: dom_update)
  ultimately have "lookups_ok (lm_limits m) (lm_sequence m') (lm_active (write_back m' l'))"
    using lookups_ok_update[OF _ seq same(2) _ ok, of "lm_active (write_back m l)"] m
    by (simp add: manager_ok_def update_update)
  then show ?thesis using m k rt bud ex seq same by (simp add: attached_def manager_ok_def)
qed

section \<open>The helpers\<close>

lemma lookups_ok_od: "lookups_ok lims seq D \<Longrightarrow> od_ok D"
  unfolding lookups_ok_def by blast


lemma refill_simps [simp]:
  "lm_limits (refill m now) = lm_limits m" "lm_transactions (refill m now) = lm_transactions m"
  "lm_in_flight (refill m now) = lm_in_flight m" "lm_sequence (refill m now) = lm_sequence m"
  "lm_queries_total (refill m now) = lm_queries_total m" "lm_calls (refill m now) = lm_calls m"
  "lm_active (refill m now) = lm_active m" "lm_started_total (refill m now) = lm_started_total m"
  "lm_finished_total (refill m now) = lm_finished_total m" "in_flight_at (refill m now) = in_flight_at m"
  "lm_node_filter (refill m now) = lm_node_filter m"
  by (simp_all add: refill_def Let_def in_flight_at_def fun_eq_iff)

lemma refill_tokens:
  assumes "0 \<le> lm_tokens m" "0 < ll_queries_per_second (lm_limits m)"
  shows "0 \<le> lm_tokens (refill m now)" "lm_tokens (refill m now) \<le> ll_queries_per_second (lm_limits m)"
  using assms by (simp_all add: refill_def Let_def)

lemma refill_ok: "manager_ok m \<Longrightarrow> manager_ok (refill m now)"
  using refill_tokens[of m now] by (simp add: manager_ok_def budget_ok_def limits_ok_def exact_def)

lemma refill_attached:
  assumes "attached m l"
  shows "attached (refill m now) l"
proof -
  have "write_back (refill m now) l = refill (write_back m l) now"
    by (simp add: write_back_def refill_def Let_def)
  with assms refill_ok[of "write_back m l" now] show ?thesis by (simp add: attached_def)
qed

lemma log_call_simps [simp]:
  "lm_limits (log_call m c) = lm_limits m" "lm_transactions (log_call m c) = lm_transactions m"
  "lm_in_flight (log_call m c) = lm_in_flight m" "lm_sequence (log_call m c) = lm_sequence m"
  "lm_queries_total (log_call m c) = lm_queries_total m" "lm_calls (log_call m c) = lm_calls m @ [c]"
  "lm_active (log_call m c) = lm_active m" "lm_started_total (log_call m c) = lm_started_total m"
  "lm_finished_total (log_call m c) = lm_finished_total m" "in_flight_at (log_call m c) = in_flight_at m"
  "lm_node_filter (log_call m c) = lm_node_filter m" "lm_tokens (log_call m c) = lm_tokens m"
  "lm_tokens_time (log_call m c) = lm_tokens_time m" "lm_on_peers (log_call m c) = lm_on_peers m"
  by (simp_all add: log_call_def in_flight_at_def fun_eq_iff)

lemma lookup_id_fresh:
  assumes "lookup_ok lims seq l" "seq < 2 ^ 24"
  shows "lookup_transaction_id seq \<notin> pending_ids l"
proof
  assume "lookup_transaction_id seq \<in> pending_ids l"
  then obtain k where "k < seq" "lookup_transaction_id seq = lookup_transaction_id k"
    using assms(1) by (auto simp: lookup_ok_def)
  with assms(2) show False by (simp add: lookup_transaction_id_eq)
qed

lemma send_to_simps:
  assumes "send_to m l node now timeout = (t, m', l')"
  shows "t = lookup_transaction_id (lm_sequence m)" "lm_active m' = lm_active m" "lm_limits m' = lm_limits m"
    "lm_sequence m' = Suc (lm_sequence m)" "lm_tokens m' = lm_tokens m - 1" "lm_tokens_time m' = lm_tokens_time m"
    "lm_queries_total m' = Suc (lm_queries_total m)"
    "lm_transactions m' = AList.update t (pl_info_hash l) (lm_transactions m)"
    "in_flight_at m' = (in_flight_at m)(address_of node := Suc (in_flight_at m (address_of node)))"
    "lm_calls m' = lm_calls m @ [SendQuery t node (pl_info_hash l)]" "lm_started_total m' = lm_started_total m"
    "lm_finished_total m' = lm_finished_total m"
    "l' = l\<lparr>pl_pending := AList.update t (address_of node, now + timeout) (pl_pending l),
        pl_queried := insert (address_of node) (pl_queried l), pl_queries_sent := Suc (pl_queries_sent l)\<rparr>"
  using assms by (auto simp: send_to_def Let_def in_flight_at_def fun_eq_iff dict_simps)

lemma lookup_ok_send:
  assumes ok: "lookup_ok lims seq l" and room: "length (pl_pending l) < ll_alpha lims"
    and more: "pl_queries_sent l < max (ll_max_queries lims) 1"
  shows "lookup_ok lims (Suc seq) (l\<lparr>pl_pending := AList.update (lookup_transaction_id seq) (a, x) (pl_pending l),
        pl_queried := insert a (pl_queried l), pl_queries_sent := Suc (pl_queries_sent l)\<rparr>)"
proof -
  let ?t = "lookup_transaction_id seq"
  have "\<forall>p \<in> set (AList.update ?t (a, x) (pl_pending l)). fst (snd p) \<in> insert a (pl_queried l)"
    using ok by (auto simp: lookup_ok_def dest!: set_updateD)
  moreover have "length (AList.update ?t (a, x) (pl_pending l)) \<le> ll_alpha lims"
    using room length_update_le[of ?t "(a, x)" "pl_pending l"] by linarith
  ultimately show ?thesis using ok more lookup_ok_mono[OF ok, of "Suc seq"]
    by (auto simp: lookup_ok_def pending_ids_def keys_update dict_simps)
qed

lemma routes_send:
  assumes "routes D tr" "map_of D h = Some l" "pending_ids l' = insert t (pending_ids l)"
  shows "routes (AList.update h l' D) (AList.update t h tr)"
  using assms by (auto simp: routes_def dict_simps) (metis option.inject)+

lemma at_addr_update:
  assumes "t \<notin> pending_ids l"
  shows "at_addr a (l\<lparr>pl_pending := AList.update t (b, x) (pl_pending l), pl_queried := Q, pl_queries_sent := n\<rparr>)
    = at_addr a l + (if b = a then 1 else 0)"
  using assms by (simp add: at_addr_def od_sum_update_new pending_ids_def)

lemma exact_send:
  assumes ex: "exact m" and l: "map_of (lm_active m) h = Some l" and od: "od_ok (lm_active m)"
    and fresh: "\<And>h l. map_of (lm_active m) h = Some l \<Longrightarrow> t \<notin> pending_ids l"
    and l': "pending_ids l' = insert t (pending_ids l)" "\<And>a. at_addr a l' = at_addr a l + (if b = a then 1 else 0)"
    and m': "lm_active m' = AList.update h l' (lm_active m)" "lm_transactions m' = AList.update t h (lm_transactions m)"
      "in_flight_at m' = (in_flight_at m)(b := Suc (in_flight_at m b))"
  shows "exact m'"
  unfolding exact_def
proof (intro conjI allI impI)
  fix h2 l2 t2
  assume "map_of (lm_active m') h2 = Some l2" "t2 \<in> pending_ids l2"
  then show "map_of (lm_transactions m') t2 = Some h2"
    using ex l fresh l'(1) unfolding exact_def m' by (auto simp: dict_simps split: if_splits)
next
  fix a
  have "in_flight_at m a = od_sum (at_addr a) (lm_active m)" using ex unfolding exact_def by blast
  with od_sum_update_old[OF od l, of "at_addr a" l'] show "in_flight_at m' a = od_sum (at_addr a) (lm_active m')"
    by (auto simp: m' l'(2) split: if_splits)
qed

lemma send_to_attached:
  assumes a: "attached m l" and s: "send_to m l node now timeout = (t, m', l')"
    and room: "length (pl_pending l) < ll_alpha (lm_limits m)"
    and more: "pl_queries_sent l < max (ll_max_queries (lm_limits m)) 1"
    and tokens: "1 \<le> lm_tokens m"
    and flight: "in_flight_at m (address_of node) < ll_max_per_node (lm_limits m) + ll_alpha (lm_limits m) - 1"
  shows "attached m' l'"
proof (rule attached_change[OF a])
  note f = send_to_simps[OF s] and ok = attachedD[OF a]
  let ?D = "lm_active (write_back m l)" and ?h = "pl_info_hash l"
  have at: "map_of ?D ?h = Some l" by (simp add: dict_simps)
  have ids: "pending_ids l' = insert t (pending_ids l)" by (simp add: f(13) pending_ids_def keys_update)
  have h': "pl_info_hash l' = ?h" by (simp add: f)
  have D': "lm_active (write_back m' l') = AList.update ?h l' ?D" by (simp add: f update_update)
  show "lm_active m' = lm_active m" "lm_limits m' = lm_limits m" "pl_info_hash l' = ?h" "lm_sequence m \<le> lm_sequence m'"
    by (simp_all add: f)
  show "lookup_ok (lm_limits m) (lm_sequence m') l'"
    unfolding f(13) f(1) f(4) by (rule lookup_ok_send[OF ok(2) room more])
  show "routes (lm_active (write_back m' l')) (lm_transactions m')" if "routes ?D (lm_transactions m)"
    unfolding D' f(8) by (rule routes_send[OF that at ids])
  show "budget_ok (write_back m' l')" if "budget_ok (write_back m l)"
    using that tokens flight ok(3) by (auto simp: budget_ok_def f length_update_old is_send_def is_finished_def)
  show "exact (write_back m' l')" if cap: "lm_sequence m' \<le> 2 ^ 24" and ex: "exact (write_back m l)"
  proof (rule exact_send[OF ex at])
    have all: "lookups_ok (lm_limits m) (lm_sequence m) ?D" using ok(1) by (simp add: manager_ok_def)
    then show "od_ok ?D" by (rule lookups_ok_od)
    show fresh: "t \<notin> pending_ids l2" if "map_of ?D h2 = Some l2" for h2 l2
      using lookup_id_fresh[OF conjunct2[OF lookups_okD[OF all that]]] cap by (simp add: f)
    show "at_addr x l' = at_addr x l + (if address_of node = x then 1 else 0)" for x
      unfolding f(13) by (rule at_addr_update[OF fresh[OF at]])
  qed (simp_all add: ids h' update_update f(2-12))
qed

lemma release_simps:
  assumes "release_transaction m l t = (m', l')" "map_of (pl_pending l) t = Some (b, x)"
  shows "lm_active m' = lm_active m" "lm_limits m' = lm_limits m" "lm_sequence m' = lm_sequence m" "lm_tokens m' = lm_tokens m"
    "lm_tokens_time m' = lm_tokens_time m" "lm_queries_total m' = lm_queries_total m" "lm_calls m' = lm_calls m"
    "lm_started_total m' = lm_started_total m" "lm_finished_total m' = lm_finished_total m"
    "lm_transactions m' = AList.delete t (lm_transactions m)"
    "in_flight_at m' = (in_flight_at m)(b := in_flight_at m b - 1)"
    "l' = l\<lparr>pl_pending := AList.delete t (pl_pending l),
        pl_hint_transaction := (if pl_hint_transaction l = Some t then None else pl_hint_transaction l)\<rparr>"
  using assms by (auto simp: release_transaction_def Let_def in_flight_at_def fun_eq_iff dict_simps split: option.splits if_splits)

lemma lookup_ok_release:
  assumes "lookup_ok lims seq l"
  shows "lookup_ok lims seq (l\<lparr>pl_pending := AList.delete t (pl_pending l),
        pl_hint_transaction := (if pl_hint_transaction l = Some t then None else pl_hint_transaction l)\<rparr>)"
  using assms length_delete_le[of t "pl_pending l"]
  by (auto simp: lookup_ok_def set_delete pending_ids_def keys_delete dict_simps)

lemma routes_release:
  assumes "routes D tr" "map_of D h = Some l" "pending_ids l' = pending_ids l - {t}"
  shows "routes (AList.update h l' D) (AList.delete t tr)"
  using assms by (auto simp: routes_def dict_simps) (metis option.inject)


lemma exact_release:
  assumes ex: "exact m" and l: "map_of (lm_active m) h = Some l" and od: "od_ok (lm_active m)"
    and t: "t \<in> pending_ids l"
    and l': "pending_ids l' = pending_ids l - {t}" "\<And>a. at_addr a l' + (if b = a then 1 else 0) = at_addr a l"
    and m': "lm_active m' = AList.update h l' (lm_active m)" "lm_transactions m' = AList.delete t (lm_transactions m)"
      "in_flight_at m' = (in_flight_at m)(b := in_flight_at m b - 1)"
  shows "exact m'"
  unfolding exact_def
proof (intro conjI allI impI)
  fix h2 l2 t2
  assume 2: "map_of (lm_active m') h2 = Some l2" "t2 \<in> pending_ids l2"
  have routed: "map_of (lm_transactions m) x = Some y" if "map_of (lm_active m) y = Some z" "x \<in> pending_ids z" for x y z
    using ex that unfolding exact_def by blast
  have "map_of (lm_transactions m) t2 = Some h2"
    using 2 routed[OF l] routed[of h2 l2 t2] l'(1) by (auto simp: m' dict_simps split: if_splits)
  moreover have "t2 \<noteq> t"
    using 2 routed[OF l t] routed[of h2 l2 t] l'(1) by (auto simp: m' dict_simps split: if_splits)
  ultimately show "map_of (lm_transactions m') t2 = Some h2" by (simp add: m' dict_simps)
next
  fix a
  have "in_flight_at m a = od_sum (at_addr a) (lm_active m)" using ex unfolding exact_def by blast
  with od_sum_update_old[OF od l, of "at_addr a" l'] l'(2)[of a] show "in_flight_at m' a = od_sum (at_addr a) (lm_active m')"
    by (auto simp: m' split: if_splits)
qed

lemma release_attached:
  assumes a: "attached m l" and r: "release_transaction m l t = (m', l')" and t: "t \<in> pending_ids l"
  shows "attached m' l'" "pending_ids l' = pending_ids l - {t}"
proof -
  obtain b x where bx: "map_of (pl_pending l) t = Some (b, x)"
    using t by (metis pending_ids_def map_of_eq_None_iff not_None_eq surj_pair)
  note f = release_simps[OF r bx] and ok = attachedD[OF a]
  let ?D = "lm_active (write_back m l)" and ?h = "pl_info_hash l"
  have at: "map_of ?D ?h = Some l" by (simp add: dict_simps)
  show ids: "pending_ids l' = pending_ids l - {t}" by (simp add: f(12) pending_ids_def keys_delete)
  have h': "pl_info_hash l' = ?h" by (simp add: f)
  have D': "lm_active (write_back m' l') = AList.update ?h l' ?D" by (simp add: f update_update)
  show "attached m' l'"
  proof (rule attached_change[OF a])
    show "lm_active m' = lm_active m" "lm_limits m' = lm_limits m" "pl_info_hash l' = ?h" "lm_sequence m \<le> lm_sequence m'"
      by (simp_all add: f)
    show "lookup_ok (lm_limits m) (lm_sequence m') l'"
      unfolding f(12) f(3) by (rule lookup_ok_release[OF ok(2)])
    show "routes (lm_active (write_back m' l')) (lm_transactions m')" if "routes ?D (lm_transactions m)"
      unfolding D' f(10) by (rule routes_release[OF that at ids])
    show "budget_ok (write_back m' l')" if "budget_ok (write_back m l)"
      using that ok(3) by (auto simp: budget_ok_def f length_update_old intro: le_trans[OF diff_le_self])
    show "exact (write_back m' l')" if "exact (write_back m l)"
    proof (rule exact_release[OF that at _ t])
      show "od_ok ?D" using ok(1) lookups_ok_od unfolding manager_ok_def by blast
      have od: "od_ok (pl_pending l)" using ok(2) by (simp add: lookup_ok_def)
      show "at_addr c l' + (if b = c then 1 else 0) = at_addr c l" for c
        using od_sum_delete[OF od bx, of "\<lambda>v. if fst v = c then 1 else 0"] by (simp add: at_addr_def f(12))
    qed (simp_all add: ids h' update_update f(1-11))
  qed
qed


lemma release_all_attached:
  "attached m l \<Longrightarrow> set ts \<subseteq> pending_ids l \<Longrightarrow> distinct ts \<Longrightarrow> release_all m l ts = (m', l') \<Longrightarrow>
     attached m' l' \<and> pending_ids l' = pending_ids l - set ts"
proof (induction ts arbitrary: m l)
  case (Cons t ts)
  obtain m1 l1 where r: "release_transaction m l t = (m1, l1)" by fastforce
  have t: "t \<in> pending_ids l" using Cons.prems(2) by simp
  note one = release_attached[OF Cons.prems(1) r t]
  have "set ts \<subseteq> pending_ids l1" using Cons.prems(2,3) one(2) by auto
  moreover have "release_all m1 l1 ts = (m', l')" using Cons.prems(4) r by simp
  ultimately have "attached m' l' \<and> pending_ids l' = pending_ids l1 - set ts"
    using Cons.IH[OF one(1)] Cons.prems(3) by simp
  with one(2) show ?case by auto
qed simp

lemma release_all_finished:
  "release_all m (l\<lparr>pl_finished := b\<rparr>) ts = (let (m1, l1) = release_all m l ts in (m1, l1\<lparr>pl_finished := b\<rparr>))"
proof (induction ts arbitrary: m l)
  case (Cons t ts)
  obtain m1 l1 where r: "release_transaction m l t = (m1, l1)" by fastforce
  then have "release_transaction m (l\<lparr>pl_finished := b\<rparr>) t = (m1, l1\<lparr>pl_finished := b\<rparr>)"
    by (auto simp: release_transaction_def Let_def)
  with r Cons show ?case by simp
qed simp

lemma release_all_keeps:
  "release_all m l ts = (m', l') \<Longrightarrow>
     lm_active m' = lm_active m \<and> lm_limits m' = lm_limits m \<and> pl_found_peers l' = pl_found_peers l
     \<and> pl_info_hash l' = pl_info_hash l \<and> lm_tokens m' = lm_tokens m \<and> lm_tokens_time m' = lm_tokens_time m
     \<and> lm_queries_total m' = lm_queries_total m \<and> lm_calls m' = lm_calls m \<and> lm_sequence m' = lm_sequence m
     \<and> lm_started_total m' = lm_started_total m \<and> lm_finished_total m' = lm_finished_total m
     \<and> pl_deadline l' = pl_deadline l \<and> pl_finished l' = pl_finished l"
proof (induction ts arbitrary: m l)
  case (Cons t ts)
  obtain m1 l1 where r: "release_transaction m l t = (m1, l1)" by fastforce
  with Cons.prems have "release_all m1 l1 ts = (m', l')" by simp
  from Cons.IH[OF this] r show ?case by (auto simp: release_transaction_def Let_def)
qed simp

text \<open>A lookup with nothing pending leaves the table of active lookups.\<close>

lemma remove_lookup:
  assumes a: "attached m l" and empty: "pl_pending l = []"
    and m': "lm_active m' = AList.delete (pl_info_hash l) (lm_active m)" "lm_limits m' = lm_limits m"
      "lm_transactions m' = lm_transactions m" "lm_in_flight m' = lm_in_flight m" "lm_sequence m' = lm_sequence m"
      "lm_tokens m' = lm_tokens m" "lm_queries_total m' = lm_queries_total m" "lm_started_total m' = lm_started_total m"
      "lm_finished_total m' = Suc (lm_finished_total m)" "lm_calls m' = lm_calls m @ [OnFinished h ps]"
  shows "manager_ok m'"
proof -
  let ?h = "pl_info_hash l"
  define D where "D = AList.update ?h l (lm_active m)"
  note ok = attachedD[OF a]
  have D': "lm_active m' = AList.delete ?h D" by (simp add: m' D_def delete_update_same)
  have at: "map_of D ?h = Some l" by (simp add: D_def dict_simps)
  have key: "?h \<in> fst ` set D" by (simp add: D_def keys_update)
  have none: "pending_ids l = {}" "at_addr b l = 0" for b using empty by (simp_all add: pending_ids_def at_addr_def)
  have inv: "lookups_ok (lm_limits m) (lm_sequence m) D" "routes D (lm_transactions m)" "budget_ok (write_back m l)"
    "lm_sequence m \<le> 2 ^ 24 \<Longrightarrow> exact (write_back m l)"
    using ok(1) by (simp_all add: manager_ok_def D_def)
  note od = lookups_ok_od[OF inv(1)]
  have len: "length (AList.delete ?h D) \<le> length D" "length D = length (lm_active m)" "Suc (length (AList.delete ?h D)) = length D"
    using length_delete_le length_delete_old[OF od key] ok(3) by (auto simp: D_def length_update_old)
  have "lookups_ok (lm_limits m) (lm_sequence m) (AList.delete ?h D)"
    using inv(1) len(1) unfolding lookups_ok_def by (auto simp: dict_simps)
  moreover have "routes (AList.delete ?h D) (lm_transactions m)"
    unfolding routes_def
  proof (intro conjI allI impI)
    show "od_ok (lm_transactions m)" using inv(2) by (simp add: routes_def)
    fix t k assume "map_of (lm_transactions m) t = Some k"
    then obtain l2 where l2: "map_of D k = Some l2" "t \<in> pending_ids l2" using inv(2) unfolding routes_def by blast
    then have "k \<noteq> ?h" using at none by auto
    with l2 show "\<exists>l. map_of (AList.delete ?h D) k = Some l \<and> t \<in> pending_ids l" by (simp add: dict_simps)
  qed
  moreover have "budget_ok m'"
    using inv(3) len by (simp add: budget_ok_def m' in_flight_at_def D' is_finished_def is_send_def D_def delete_update_same)
  moreover have "exact m'" if "lm_sequence m \<le> 2 ^ 24"
    unfolding exact_def
  proof (intro conjI allI impI)
    have ex: "exact (write_back m l)" using inv(4)[OF that] .
    fix k l2 t assume "map_of (lm_active m') k = Some l2" "t \<in> pending_ids l2"
    then have "map_of (lm_active (write_back m l)) k = Some l2" by (simp add: D' D_def dict_simps split: if_splits)
    with \<open>t \<in> pending_ids l2\<close> show "map_of (lm_transactions m') t = Some k"
      using ex unfolding exact_def by (simp add: m')
  next
    fix b
    have "in_flight_at (write_back m l) b = od_sum (at_addr b) D"
      using inv(4)[OF that] unfolding exact_def D_def write_back_simps by blast
    then show "in_flight_at m' b = od_sum (at_addr b) (lm_active m')"
      using od_sum_delete[OF od at, of "at_addr b"] by (simp add: none D' in_flight_at_def m')
  qed
  ultimately show ?thesis using ok(4) by (simp add: manager_ok_def D' m')
qed

lemma finish_effect:
  assumes a: "attached m l"
  shows "manager_ok (finish m l)" "lm_active (finish m l) = AList.delete (pl_info_hash l) (lm_active m)"
    "lm_calls (finish m l) = lm_calls m @ [OnFinished (pl_info_hash l) (sort (pl_found_peers l))]"
    "lm_limits (finish m l) = lm_limits m" "lm_tokens (finish m l) = lm_tokens m"
    "lm_tokens_time (finish m l) = lm_tokens_time m" "lm_queries_total (finish m l) = lm_queries_total m"
proof -
  obtain m1 l1 where r: "release_all m l (map fst (pl_pending l)) = (m1, l1)" by fastforce
  have od: "od_ok (pl_pending l)" using attachedD(2)[OF a] by (simp add: lookup_ok_def)
  have all: "attached m1 l1 \<and> pending_ids l1 = pending_ids l - set (map fst (pl_pending l))"
    by (rule release_all_attached[OF a _ _ r]) (use od in \<open>auto simp: pending_ids_def\<close>)
  then have empty: "pl_pending l1 = []" by (simp add: pending_ids_def)
  note k = release_all_keeps[OF r]
  have eq: "finish m l = log_call (m1\<lparr>lm_active := AList.delete (pl_info_hash l1) (lm_active m1),
      lm_finished_total := lm_finished_total m1 + 1,
      lm_peers_found_total := lm_peers_found_total m1 + length (sort (pl_found_peers l1)),
      lm_with_peers_total := lm_with_peers_total m1 + (if sort (pl_found_peers l1) \<noteq> [] then 1 else 0)\<rparr>)
      (OnFinished (pl_info_hash l1) (sort (pl_found_peers l1)))"
    by (simp add: finish_def release_all_finished r Let_def)
  show "manager_ok (finish m l)" unfolding eq by (rule remove_lookup[of m1 l1]) (use all empty in simp_all)
  show "lm_active (finish m l) = AList.delete (pl_info_hash l) (lm_active m)"
    "lm_calls (finish m l) = lm_calls m @ [OnFinished (pl_info_hash l) (sort (pl_found_peers l))]"
    "lm_limits (finish m l) = lm_limits m" "lm_tokens (finish m l) = lm_tokens m"
    "lm_tokens_time (finish m l) = lm_tokens_time m" "lm_queries_total (finish m l) = lm_queries_total m"
    unfolding eq using k by simp_all
qed


text \<open>Adding to the shortlist and reading a response change only the lookup and the log.\<close>

lemma foldl_update_keyed:
  "od_ok d \<Longrightarrow> \<forall>p \<in> set d. fst p = fst (snd p) \<Longrightarrow>
     od_ok (foldl (\<lambda>d n. if P n then AList.update (fst n) n d else d) d ns)
     \<and> (\<forall>p \<in> set (foldl (\<lambda>d n. if P n then AList.update (fst n) n d else d) d ns). fst p = fst (snd p))
     \<and> length (foldl (\<lambda>d n. if P n then AList.update (fst n) n d else d) d ns) \<le> length d + length ns"
proof (induction ns arbitrary: d)
  case (Cons n ns)
  have "od_ok (AList.update (fst n) n d)" "\<forall>p \<in> set (AList.update (fst n) n d). fst p = fst (snd p)"
    using Cons.prems by (auto simp: dict_simps dest!: set_updateD)
  from Cons.IH[OF this] Cons.IH[OF Cons.prems] length_update_le[of "fst n" n d] show ?case by (simp only: foldl_Cons list.size) simp
qed simp

lemma add_to_shortlist_ok:
  assumes "shortlist_ok (lm_limits m) (pl_shortlist l)"
  shows "shortlist_ok (lm_limits m) (pl_shortlist (add_to_shortlist m l ns))"
proof -
  define d where "d = foldl (\<lambda>d n. if is_usable_node n (lm_node_filter m) \<and> address_of n \<notin> pl_queried l
            then AList.update (fst n) n d else d) (pl_shortlist l) ns"
  define e where "e = foldl (\<lambda>d n. AList.update (fst n) n d) []
       (select_closest_nodes (map snd d) (pl_info_hash l) (ll_shortlist_size (lm_limits m)))"
  have d: "od_ok d \<and> (\<forall>p \<in> set d. fst p = fst (snd p))"
    using foldl_update_keyed[of "pl_shortlist l" "\<lambda>n. is_usable_node n (lm_node_filter m) \<and> address_of n \<notin> pl_queried l" ns] assms
    unfolding d_def shortlist_ok_def by blast
  have e: "shortlist_ok (lm_limits m) e"
    using foldl_update_keyed[of "[]" "\<lambda>_. True" "select_closest_nodes (map snd d) (pl_info_hash l) (ll_shortlist_size (lm_limits m))"]
    by (simp add: e_def shortlist_ok_def select_closest_nodes_def min.coboundedI2)
  have "pl_shortlist (add_to_shortlist m l ns) = (if length d > ll_shortlist_size (lm_limits m) then e else d)"
    by (simp add: add_to_shortlist_def d_def e_def Let_def)
  with d e show ?thesis by (simp add: shortlist_ok_def)
qed

lemma add_to_shortlist_keeps [simp]:
  "pl_info_hash (add_to_shortlist m l ns) = pl_info_hash l" "pl_pending (add_to_shortlist m l ns) = pl_pending l"
  "pl_finished (add_to_shortlist m l ns) = pl_finished l" "pl_queried (add_to_shortlist m l ns) = pl_queried l"
  "pl_hint_transaction (add_to_shortlist m l ns) = pl_hint_transaction l" "pl_found_peers (add_to_shortlist m l ns) = pl_found_peers l"
  "pl_queries_sent (add_to_shortlist m l ns) = pl_queries_sent l" "pl_deadline (add_to_shortlist m l ns) = pl_deadline l"
  "pl_value_responses (add_to_shortlist m l ns) = pl_value_responses l"
  by (simp_all add: add_to_shortlist_def Let_def)

lemma collect_peers_ok:
  "distinct found \<Longrightarrow> length found \<le> n \<Longrightarrow>
     distinct (collect_peers lib n found ps) \<and> length (collect_peers lib n found ps) \<le> n
     \<and> (\<exists>new. collect_peers lib n found ps = found @ new)"
proof (induction ps arbitrary: found)
  case (Cons p ps)
  let ?f = "if is_routable_address lib (fst p) (snd p) \<and> p \<notin> set found \<and> length found < n then found @ [p] else found"
  have step: "collect_peers lib n found (p # ps) = collect_peers lib n ?f ps" by (simp add: collect_peers_def)
  have "distinct ?f" "length ?f \<le> n" using Cons.prems by auto
  from Cons.IH[OF this] show ?case unfolding step by (auto split: if_splits)
qed (simp add: collect_peers_def)

lemma routes_same:
  assumes "routes D tr" "map_of D h = Some l" "pending_ids l' = pending_ids l"
  shows "routes (AList.update h l' D) tr"
  using assms by (auto simp: routes_def dict_simps) (metis option.inject)

text \<open>A change of a lookup that touches neither its queries nor the tables.\<close>

lemma attached_lookup_change:
  assumes a: "attached m l" and ok: "lookup_ok (lm_limits m) (lm_sequence m) l'"
    and l': "pl_info_hash l' = pl_info_hash l" "pl_pending l' = pl_pending l"
    and m': "lm_active m' = lm_active m" "lm_limits m' = lm_limits m" "lm_transactions m' = lm_transactions m"
      "lm_in_flight m' = lm_in_flight m" "lm_sequence m' = lm_sequence m" "lm_tokens m' = lm_tokens m"
      "lm_queries_total m' = lm_queries_total m" "lm_started_total m' = lm_started_total m"
      "lm_finished_total m' = lm_finished_total m"
      "filter is_send (lm_calls m') = filter is_send (lm_calls m)"
      "filter is_finished (lm_calls m') = filter is_finished (lm_calls m)"
  shows "attached m' l'"
proof (rule attached_change[OF a])
  let ?D = "lm_active (write_back m l)" and ?h = "pl_info_hash l"
  have ids: "pending_ids l' = pending_ids l" "at_addr b l' = at_addr b l" for b by (simp_all add: pending_ids_def at_addr_def l')
  have D': "lm_active (write_back m' l') = AList.update ?h l' ?D" by (simp add: m' l' update_update)
  have at: "map_of ?D ?h = Some l" by (simp add: dict_simps)
  show "routes (lm_active (write_back m' l')) (lm_transactions m')" if "routes ?D (lm_transactions m)"
    unfolding D' m' by (rule routes_same[OF that at ids(1)])
  show "budget_ok (write_back m' l')" if "budget_ok (write_back m l)"
    using that attachedD(3)[OF a] by (simp add: budget_ok_def m' l' in_flight_at_def length_update_old)
  show "exact (write_back m' l')" if ex: "exact (write_back m l)"
    unfolding exact_def
  proof (intro conjI allI impI)
    fix k l2 t assume "map_of (lm_active (write_back m' l')) k = Some l2" "t \<in> pending_ids l2"
    then show "map_of (lm_transactions (write_back m' l')) t = Some k"
      using ex at ids unfolding exact_def D' by (auto simp: m' dict_simps split: if_splits)
  next
    fix b
    have od: "od_ok ?D" using attachedD(1)[OF a] lookups_ok_od unfolding manager_ok_def by blast
    have "in_flight_at (write_back m l) b = od_sum (at_addr b) ?D" using ex unfolding exact_def by blast
    with od_sum_update_old[OF od at, of "at_addr b" l']
    show "in_flight_at (write_back m' l') b = od_sum (at_addr b) (lm_active (write_back m' l'))"
      unfolding D' by (simp add: ids in_flight_at_def m')
  qed
qed (use assms in simp_all)

section \<open>The rate limit\<close>

text \<open>
  \<open>credit\<close> never grows: a refill adds at most the elapsed time's worth of tokens, a query
  takes one. \<open>paid m m'\<close>: the queries from \<open>m\<close> to \<open>m'\<close> were covered by tokens, the clock of
  the bucket went forward, and calls were only added to the log.
\<close>

definition credit :: "lookup_manager \<Rightarrow> real" where
  "credit m = real (lm_queries_total m) + lm_tokens m - ll_queries_per_second (lm_limits m) * lm_tokens_time m"

definition paid :: "lookup_manager \<Rightarrow> lookup_manager \<Rightarrow> bool" where
  "paid m m' \<longleftrightarrow> lm_limits m' = lm_limits m \<and> credit m' \<le> credit m \<and> lm_tokens_time m \<le> lm_tokens_time m'
     \<and> (\<exists>calls. lm_calls m' = lm_calls m @ calls)"

lemma paid_refl [simp]: "paid m m"
  by (simp add: paid_def)

lemma paid_trans [trans]: "paid m1 m2 \<Longrightarrow> paid m2 m3 \<Longrightarrow> paid m1 m3"
  by (auto simp: paid_def)

lemma paid_refill: "paid m (refill m now)"
proof -
  let ?q = "ll_queries_per_second (lm_limits m)"
  have "max (lm_tokens_time m) now = lm_tokens_time m + max 0 (now - lm_tokens_time m)" by simp
  then have "?q * max (lm_tokens_time m) now = ?q * lm_tokens_time m + max 0 (now - lm_tokens_time m) * ?q"
    by (simp add: algebra_simps)
  then show ?thesis by (simp add: paid_def credit_def refill_def Let_def)
qed

lemma paid_send:
  assumes "send_to m l node now timeout = (t, m', l')"
  shows "paid m m'"
  by (simp add: paid_def credit_def send_to_simps[OF assms])

lemma paid_write_back [simp]: "paid m (write_back m' l) = paid m m'" "paid (write_back m l) m' = paid m m'"
  by (simp_all add: paid_def credit_def)

lemma paid_release_all:
  assumes "release_all m l ts = (m', l')"
  shows "paid m m'"
  using release_all_keeps[OF assms] by (simp add: paid_def credit_def)

lemma paid_finish: "attached m l \<Longrightarrow> paid m (finish m l)"
  by (simp add: paid_def credit_def finish_effect)

section \<open>The operations\<close>

lemma top_up_loop_attached:
  "attached m l \<Longrightarrow> length (pl_pending l) + length ns \<le> ll_alpha (lm_limits m) \<Longrightarrow>
     pl_queries_sent l + length ns \<le> ll_max_queries (lm_limits m) \<Longrightarrow>
     \<forall>n \<in> set ns. in_flight_at m (address_of n) + length ns \<le> ll_max_per_node (lm_limits m) + ll_alpha (lm_limits m) - 1 \<Longrightarrow>
     top_up_loop m l now ns sent = (sent', m', l') \<Longrightarrow>
     attached m' l' \<and> paid m m' \<and> pl_info_hash l' = pl_info_hash l \<and> lm_active m' = lm_active m"
proof (induction ns arbitrary: m l sent)
  case (Cons n ns)
  show ?case
  proof (cases "lm_tokens m < 1")
    case False
    obtain t m1 l1 where s: "send_to m l n now (ll_query_timeout (lm_limits m)) = (t, m1, l1)" by (metis prod_cases3)
    note f = send_to_simps[OF s]
    have a1: "attached m1 l1"
      by (rule send_to_attached[OF Cons.prems(1) s]) (use Cons.prems(2-4) False in auto)
    have "attached m' l' \<and> paid m1 m' \<and> pl_info_hash l' = pl_info_hash l1 \<and> lm_active m' = lm_active m1"
    proof (rule Cons.IH[OF a1])
      have "length (pl_pending l1) \<le> Suc (length (pl_pending l))" using length_update_le by (simp add: f)
      then show "length (pl_pending l1) + length ns \<le> ll_alpha (lm_limits m1)" using Cons.prems(2) by (simp add: f(3))
      show "pl_queries_sent l1 + length ns \<le> ll_max_queries (lm_limits m1)" using Cons.prems(3) by (simp add: f)
      show "\<forall>n \<in> set ns. in_flight_at m1 (address_of n) + length ns \<le> ll_max_per_node (lm_limits m1) + ll_alpha (lm_limits m1) - 1"
        using Cons.prems(4) by (auto simp: f)
      show "top_up_loop m1 l1 now ns (sent + 1) = (sent', m', l')" using Cons.prems(5) False s by simp
    qed
    with paid_send[OF s] show ?thesis by (auto simp: f intro: paid_trans)
  qed (use Cons.prems in simp)
qed simp

lemma top_up_attached:
  assumes a: "attached m l" and t: "top_up m l now = (sent, m', l')"
  shows "attached m' l'" "paid m m'" "pl_info_hash l' = pl_info_hash l" "lm_active m' = lm_active m"
proof -
  let ?L = "lm_limits m"
  let ?free = "min (int (ll_alpha ?L) - int (length (pl_pending l))) (int (ll_max_queries ?L) - int (pl_queries_sent l))"
  let ?m = "refill m now"
  let ?ns = "select_closest_nodes (top_up_candidates ?m l) (pl_info_hash l) (nat ?free)"
  have "attached m' l' \<and> paid m m' \<and> pl_info_hash l' = pl_info_hash l \<and> lm_active m' = lm_active m"
  proof (cases "?free \<le> 0 \<or> lm_tokens ?m < 1")
    case True
    with t a refill_attached[OF a] paid_refill show ?thesis by (auto simp: top_up_def Let_def split: if_splits)
  next
    case False
    have len: "length ?ns \<le> nat ?free" by (simp add: select_closest_nodes_def)
    have "attached m' l' \<and> paid ?m m' \<and> pl_info_hash l' = pl_info_hash l \<and> lm_active m' = lm_active ?m"
    proof (rule top_up_loop_attached[OF refill_attached[OF a]])
      show "length (pl_pending l) + length ?ns \<le> ll_alpha (lm_limits ?m)"
        "pl_queries_sent l + length ?ns \<le> ll_max_queries (lm_limits ?m)" using len False by (simp_all, linarith+)
      have "length ?ns \<le> ll_alpha ?L" using len by linarith
      moreover have "n \<in> set ?ns \<Longrightarrow> in_flight_at m (address_of n) < ll_max_per_node ?L" for n
        by (auto simp: select_closest_nodes_def top_up_candidates_def dest: in_set_takeD)
      ultimately show "\<forall>n \<in> set ?ns. in_flight_at ?m (address_of n) + length ?ns
          \<le> ll_max_per_node (lm_limits ?m) + ll_alpha (lm_limits ?m) - 1" by fastforce
      show "top_up_loop ?m l now ?ns 0 = (sent, m', l')" using t False by (simp add: top_up_def Let_def)
    qed
    with paid_refill show ?thesis by (auto intro: paid_trans)
  qed
  then show "attached m' l'" "paid m m'" "pl_info_hash l' = pl_info_hash l" "lm_active m' = lm_active m" by auto
qed

text \<open>After \<open>advance\<close> the lookup is either finished and gone, or still active; no other is touched.\<close>

lemma advance_ok:
  assumes a: "attached m l"
  shows "manager_ok (advance m l now)" "paid m (advance m l now)"
    "lm_active (advance m l now) = AList.delete (pl_info_hash l) (lm_active m)
     \<or> (\<exists>l'. pl_info_hash l' = pl_info_hash l \<and> lm_active (advance m l now) = AList.update (pl_info_hash l) l' (lm_active m))"
    "pl_deadline l \<le> now \<Longrightarrow> advance m l now = finish m l"
proof -
  have nf: "\<not> pl_finished l" using attachedD(2)[OF a] by (simp add: lookup_ok_def)
  obtain sent m1 l1 where t: "top_up m l now = (sent, m1, l1)" by (metis prod_cases3)
  note u = top_up_attached[OF a t]
  have cases: "advance m l now = finish m l \<or> advance m l now = finish m1 l1 \<or> advance m l now = write_back m1 l1
      \<or> advance m l now = write_back m l"
    using nf by (simp add: advance_def Let_def t)
  then show "manager_ok (advance m l now)"
    using finish_effect(1)[OF a] finish_effect(1)[OF u(1)] attachedD(1)[OF a] attachedD(1)[OF u(1)] by auto
  show "paid m (advance m l now)"
    using cases paid_finish[OF a] paid_trans[OF u(2) paid_finish[OF u(1)]] u(2) by auto
  show "lm_active (advance m l now) = AList.delete (pl_info_hash l) (lm_active m)
     \<or> (\<exists>l'. pl_info_hash l' = pl_info_hash l \<and> lm_active (advance m l now) = AList.update (pl_info_hash l) l' (lm_active m))"
    using cases finish_effect(2)[OF a] finish_effect(2)[OF u(1)] u(3,4) by auto
  show "pl_deadline l \<le> now \<Longrightarrow> advance m l now = finish m l" using nf by (simp add: advance_def Let_def)
qed


lemma read_response_attached:
  assumes a: "attached m l" and r: "read_response lib m l response from_hint = (m', l')"
  shows "attached m' l' \<and> paid m m' \<and> pl_info_hash l' = pl_info_hash l \<and> lm_active m' = lm_active m"
proof (cases response)
  case (PyDict d)
  define vals where "vals = decode_compact_peers lib (py_get d (ascii ''values''))"
  define found where "found = collect_peers lib (ll_max_peers (lm_limits m)) (pl_found_peers l) vals"
  define m1 where "m1 = m\<lparr>lm_hint_values := lm_hint_values m + (if from_hint \<and> vals \<noteq> [] then 1 else 0)\<rparr>"
  define m2 where "m2 = (if drop (length (pl_found_peers l)) found \<noteq> [] \<and> lm_on_peers m1
         then log_call m1 (OnPeers (pl_info_hash l) (drop (length (pl_found_peers l)) found)) else m1)"
  define l1 where "l1 = l\<lparr>pl_found_peers := found, pl_value_responses := pl_value_responses l + (if vals \<noteq> [] then 1 else 0)\<rparr>"
  define l2 where "l2 = (case py_get d (ascii ''nodes'') of
      PyBytes b \<Rightarrow> add_to_shortlist m2 l1 (decode_compact_nodes lib b COMPACT_NODE_LENGTH) | _ \<Rightarrow> l1)"
  define l3 where "l3 = (case py_get d (ascii ''nodes6'') of PyBytes b \<Rightarrow> add_to_shortlist m2 l2 (decode_compact_nodes6 lib b) | _ \<Rightarrow> l2)"
  have "read_response lib m l response from_hint = (m2, l3)"
    unfolding read_response_def PyDict pyvalue.case Let_def l3_def l2_def l1_def m2_def m1_def found_def vals_def by (rule refl)
  with r have m: "m' = m2" and l': "l' = l3" by simp_all
  have ok: "lookup_ok (lm_limits m) (lm_sequence m) l" by (rule attachedD(2)[OF a])
  have lims: "lm_limits m2 = lm_limits m" by (simp add: m2_def m1_def)
  have f: "distinct found \<and> length found \<le> ll_max_peers (lm_limits m)"
    using collect_peers_ok[of "pl_found_peers l"] ok unfolding found_def lookup_ok_def by blast
  have "shortlist_ok (lm_limits m) (pl_shortlist l1)" using ok by (simp add: l1_def lookup_ok_def)
  then have "shortlist_ok (lm_limits m) (pl_shortlist l2)"
    using add_to_shortlist_ok[of m2] by (auto simp: l2_def lims split: pyvalue.splits)
  then have sl: "shortlist_ok (lm_limits m) (pl_shortlist l')"
    using add_to_shortlist_ok[of m2] by (auto simp: l' l3_def lims split: pyvalue.splits)
  have same: "pl_info_hash l' = pl_info_hash l" "pl_pending l' = pl_pending l" "pl_found_peers l' = found"
    "pl_finished l' = pl_finished l" "pl_queried l' = pl_queried l" "pl_hint_transaction l' = pl_hint_transaction l"
    "pl_queries_sent l' = pl_queries_sent l"
    by (simp_all add: l' l3_def l2_def l1_def split: pyvalue.splits)
  have "attached m' l'"
    by (rule attached_lookup_change[OF a])
      (use ok f sl same in \<open>auto simp: lookup_ok_def pending_ids_def m m2_def m1_def is_send_def is_finished_def\<close>)
  moreover have "paid m m'" "lm_active m' = lm_active m" by (auto simp: m m2_def m1_def paid_def credit_def)
  ultimately show ?thesis using same(1) by simp
qed (use r a in \<open>simp_all add: read_response_def\<close>)

lemma hint_counters_attached:
  assumes "attached m l"
  shows "attached (m\<lparr>lm_hint_answers := n\<rparr>) l" "paid m (m\<lparr>lm_hint_answers := n\<rparr>)"
  using attached_lookup_change[OF assms attachedD(2)[OF assms] refl refl, of "m\<lparr>lm_hint_answers := n\<rparr>"]
  by (simp_all add: paid_def credit_def)

lemma paid_release: "release_transaction m l t = (m', l') \<Longrightarrow> paid m m'"
  using paid_release_all[of m l "[t]"] by simp

lemma handle_response_ok:
  assumes "manager_ok m"
  shows "manager_ok (handle_response lib m t response addr clock) \<and> paid m (handle_response lib m t response addr clock)"
proof (cases "\<exists>h l. map_of (lm_transactions m) t = Some h \<and> map_of (lm_active m) h = Some l
    \<and> map_option fst (map_of (pl_pending l) t) = Some addr")
  case True
  then obtain h l where l: "map_of (lm_transactions m) t = Some h" "map_of (lm_active m) h = Some l"
    "map_option fst (map_of (pl_pending l) t) = Some addr" by blast
  have t: "t \<in> pending_ids l" using l(3) by (force simp: pending_ids_def dest: map_of_SomeD)
  note a = attached_active(1)[OF assms l(2)]
  obtain m1 l1 where r: "release_transaction m l t = (m1, l1)" by fastforce
  define n where "n = lm_hint_answers m1 + (if pl_hint_transaction l = Some t then 1 else 0)"
  obtain m3 l3 where rd: "read_response lib (m1\<lparr>lm_hint_answers := n\<rparr>) l1 response (pl_hint_transaction l = Some t) = (m3, l3)"
    by fastforce
  note a1 = release_attached(1)[OF a r t]
  note a3 = read_response_attached[OF hint_counters_attached(1)[OF a1] rd]
  have "handle_response lib m t response addr clock = advance m3 l3 clock"
    using l r rd by (simp add: handle_response_def n_def Let_def)
  moreover have "paid m m3" using paid_release[OF r] hint_counters_attached(2)[OF a1, of n] a3 paid_trans by blast
  ultimately show ?thesis using advance_ok(1,2) a3 paid_trans by metis
next
  case False
  then have "handle_response lib m t response addr clock = m"
    by (auto simp: handle_response_def split: option.splits)
  with assms show ?thesis by simp
qed

lemma handle_error_ok:
  assumes ok: "manager_ok m" and own: "owns_transaction m (PyBytes t)"
  shows "manager_ok (handle_error m t clock) \<and> paid m (handle_error m t clock)"
proof -
  have rt: "routes (lm_active m) (lm_transactions m)" using ok by (simp add: manager_ok_def)
  have "map_of (lm_transactions m) t \<noteq> None" using own by (simp add: owns_transaction_def map_of_eq_None_iff)
  then obtain h where h: "map_of (lm_transactions m) t = Some h" by blast
  with rt obtain l where l: "map_of (lm_active m) h = Some l" "t \<in> pending_ids l" unfolding routes_def by blast
  obtain m1 l1 where r: "release_transaction m l t = (m1, l1)" by fastforce
  have "handle_error m t clock = advance m1 l1 clock"
    using h l r by (simp add: handle_error_def pending_ids_def Let_def)
  with release_attached(1)[OF attached_active(1)[OF ok l(1)] r l(2)] paid_release[OF r] show ?thesis
    using advance_ok(1,2) paid_trans by metis
qed

lemma expire_pending_attached:
  assumes a: "attached m l" and e: "expire_pending m l now = (m', l')"
  shows "attached m' l'" "paid m m'" "lm_active m' = lm_active m" "pl_info_hash l' = pl_info_hash l"
    "pl_deadline l' = pl_deadline l" "pl_found_peers l' = pl_found_peers l" "lm_calls m' = lm_calls m"
proof -
  have r: "release_all m l (map fst (filter (\<lambda>p. snd (snd p) \<le> now) (pl_pending l))) = (m', l')"
    using e by (simp add: expire_pending_def)
  have "od_ok (pl_pending l)" using attachedD(2)[OF a] by (simp add: lookup_ok_def)
  then have "distinct (map fst (filter (\<lambda>p. snd (snd p) \<le> now) (pl_pending l)))" by (rule distinct_map_filter)
  then show "attached m' l'" using release_all_attached[OF a _ _ r] by (auto simp: pending_ids_def)
  show "paid m m'" by (rule paid_release_all[OF r])
  show "lm_active m' = lm_active m" "pl_info_hash l' = pl_info_hash l" "pl_deadline l' = pl_deadline l"
    "pl_found_peers l' = pl_found_peers l" "lm_calls m' = lm_calls m"
    using release_all_keeps[OF r] by simp_all
qed

text \<open>One round of \<open>tick\<close>: it touches its own lookup only, and finishes it at the deadline.\<close>

lemma tick_one_ok:
  assumes ok: "manager_ok m"
  shows "manager_ok (tick_one now m h)" "paid m (tick_one now m h)"
    "h' \<noteq> h \<Longrightarrow> map_of (lm_active (tick_one now m h)) h' = map_of (lm_active m) h'"
    "map_of (lm_active (tick_one now m h)) h \<noteq> None \<Longrightarrow> map_of (lm_active m) h \<noteq> None"
    "map_of (lm_active m) h = Some l \<Longrightarrow> pl_deadline l \<le> now \<Longrightarrow>
       map_of (lm_active (tick_one now m h)) h = None
       \<and> lm_calls (tick_one now m h) = lm_calls m @ [OnFinished h (sort (pl_found_peers l))]"
proof -
  have "manager_ok (tick_one now m h) \<and> paid m (tick_one now m h)
    \<and> (\<forall>h'. h' \<noteq> h \<longrightarrow> map_of (lm_active (tick_one now m h)) h' = map_of (lm_active m) h')
    \<and> (map_of (lm_active (tick_one now m h)) h \<noteq> None \<longrightarrow> map_of (lm_active m) h \<noteq> None)
    \<and> (\<forall>l. map_of (lm_active m) h = Some l \<and> pl_deadline l \<le> now \<longrightarrow>
       map_of (lm_active (tick_one now m h)) h = None
       \<and> lm_calls (tick_one now m h) = lm_calls m @ [OnFinished h (sort (pl_found_peers l))])"
  proof (cases "map_of (lm_active m) h")
    case (Some l)
    note a = attached_active[OF ok Some]
    obtain m1 l1 where e: "expire_pending m l now = (m1, l1)" by fastforce
    note x = expire_pending_attached[OF a(1) e] and adv = advance_ok[OF expire_pending_attached(1)[OF a(1) e], of now]
    have eq: "tick_one now m h = advance m1 l1 now" using Some e by (simp add: tick_one_def)
    have others: "map_of (lm_active (advance m1 l1 now)) h' = map_of (lm_active m) h'" if "h' \<noteq> h" for h'
      using adv(3) that a(2) x(3,4) by (auto simp: dict_simps)
    show ?thesis unfolding eq
      using adv(1) paid_trans[OF x(2) adv(2)] others adv(4) finish_effect(2,3)[OF x(1)] Some x(3-7) a(2)
      by (auto simp: dict_simps)
  qed (use ok in \<open>simp add: tick_one_def\<close>)
  then show "manager_ok (tick_one now m h)" "paid m (tick_one now m h)"
    "h' \<noteq> h \<Longrightarrow> map_of (lm_active (tick_one now m h)) h' = map_of (lm_active m) h'"
    "map_of (lm_active (tick_one now m h)) h \<noteq> None \<Longrightarrow> map_of (lm_active m) h \<noteq> None"
    "map_of (lm_active m) h = Some l \<Longrightarrow> pl_deadline l \<le> now \<Longrightarrow>
       map_of (lm_active (tick_one now m h)) h = None
       \<and> lm_calls (tick_one now m h) = lm_calls m @ [OnFinished h (sort (pl_found_peers l))]"
    by blast+
qed

lemma ticks_ok:
  "manager_ok m \<Longrightarrow> distinct hs \<Longrightarrow>
     manager_ok (foldl (tick_one now) m hs) \<and> paid m (foldl (tick_one now) m hs)
     \<and> (\<forall>h'. h' \<notin> set hs \<longrightarrow> map_of (lm_active (foldl (tick_one now) m hs)) h' = map_of (lm_active m) h')
     \<and> (\<forall>h' \<in> set hs. \<forall>l. map_of (lm_active m) h' = Some l \<and> pl_deadline l \<le> now \<longrightarrow>
          map_of (lm_active (foldl (tick_one now) m hs)) h' = None
          \<and> OnFinished h' (sort (pl_found_peers l)) \<in> set (drop (length (lm_calls m)) (lm_calls (foldl (tick_one now) m hs))))"
proof (induction hs arbitrary: m)
  case (Cons h hs)
  note one = tick_one_ok[OF Cons.prems(1)]
  let ?m1 = "tick_one now m h" and ?m2 = "foldl (tick_one now) (tick_one now m h) hs"
  have IH: "manager_ok ?m2" "paid ?m1 ?m2" "\<And>h'. h' \<notin> set hs \<Longrightarrow> map_of (lm_active ?m2) h' = map_of (lm_active ?m1) h'"
    "\<And>h' l. h' \<in> set hs \<Longrightarrow> map_of (lm_active ?m1) h' = Some l \<Longrightarrow> pl_deadline l \<le> now \<Longrightarrow>
          map_of (lm_active ?m2) h' = None
          \<and> OnFinished h' (sort (pl_found_peers l)) \<in> set (drop (length (lm_calls ?m1)) (lm_calls ?m2))"
    using Cons.IH[OF one(1)] Cons.prems(2) by auto
  obtain c1 c2 where c: "lm_calls ?m1 = lm_calls m @ c1" "lm_calls ?m2 = lm_calls ?m1 @ c2"
    using one(2)[of now h] IH(2) unfolding paid_def by blast
  have "map_of (lm_active ?m2) h' = None
      \<and> OnFinished h' (sort (pl_found_peers l)) \<in> set (drop (length (lm_calls m)) (lm_calls ?m2))"
    if "h' \<in> set (h # hs)" and l: "map_of (lm_active m) h' = Some l" and d: "pl_deadline l \<le> now" for h' l
  proof (cases "h' = h")
    case True
    then show ?thesis using one(5)[of h l now] l d IH(3)[of h] Cons.prems(2) c by auto
  next
    case False
    with that have "h' \<in> set hs" "map_of (lm_active ?m1) h' = Some l" using one(3) by auto
    from IH(4)[OF this d] c show ?thesis by auto
  qed
  then show ?case using IH(1) paid_trans[OF one(2) IH(2)] IH(3) one(3) by auto
qed simp


lemma tick_ok:
  assumes ok: "manager_ok m"
  shows "manager_ok (tick m now)" "paid m (tick m now)"
    "map_of (lm_active (tick m now)) h = Some l' \<Longrightarrow> \<exists>l. map_of (lm_active m) h = Some l"
    "map_of (lm_active m) h = Some l \<Longrightarrow> pl_deadline l \<le> now \<Longrightarrow>
       map_of (lm_active (tick m now)) h = None
       \<and> OnFinished h (sort (pl_found_peers l)) \<in> set (drop (length (lm_calls m)) (lm_calls (tick m now)))"
proof -
  let ?hs = "map fst (lm_active m)"
  have "distinct ?hs" using ok lookups_ok_od unfolding manager_ok_def by blast
  note t = ticks_ok[OF refill_ok[OF ok] this, of now now, folded tick_def, unfolded refill_simps]
  show "manager_ok (tick m now)" using t by blast
  show "paid m (tick m now)" using t paid_trans[OF paid_refill] by blast
  show "\<exists>l. map_of (lm_active m) h = Some l" if "map_of (lm_active (tick m now)) h = Some l'"
  proof (rule ccontr)
    assume none: "\<nexists>l. map_of (lm_active m) h = Some l"
    then have "map_of (lm_active m) h = None" by simp
    then have "h \<notin> set ?hs" by (simp add: map_of_eq_None_iff)
    with t have "map_of (lm_active (tick m now)) h = map_of (lm_active m) h" by blast
    with that none show False by simp
  qed
  show "map_of (lm_active (tick m now)) h = None
       \<and> OnFinished h (sort (pl_found_peers l)) \<in> set (drop (length (lm_calls m)) (lm_calls (tick m now)))"
    if l: "map_of (lm_active m) h = Some l" "pl_deadline l \<le> now"
  proof -
    have "h \<in> set ?hs" using map_of_SomeD[OF l(1)] by force
    with t l show ?thesis by blast
  qed
qed

lemma finish_one_ok:
  assumes ok: "manager_ok m"
  shows "manager_ok (finish_one m h)" "paid m (finish_one m h)"
    "map_of (lm_active (finish_one m h)) = (map_of (lm_active m))(h := None)"
proof -
  have "manager_ok (finish_one m h) \<and> paid m (finish_one m h) \<and> map_of (lm_active (finish_one m h)) = (map_of (lm_active m))(h := None)"
  proof (cases "map_of (lm_active m) h")
    case None
    then show ?thesis using ok by (auto simp: finish_one_def fun_eq_iff)
  next
    case (Some l)
    note a = attached_active[OF ok Some]
    with Some finish_effect(1,2)[OF a(1)] paid_finish[OF a(1)] show ?thesis by (simp add: finish_one_def dict_simps)
  qed
  then show "manager_ok (finish_one m h)" "paid m (finish_one m h)"
    "map_of (lm_active (finish_one m h)) = (map_of (lm_active m))(h := None)" by blast+
qed

lemma finish_all_ok:
  "manager_ok m \<Longrightarrow> manager_ok (foldl finish_one m hs) \<and> paid m (foldl finish_one m hs)
     \<and> (\<forall>h. map_of (lm_active (foldl finish_one m hs)) h = (if h \<in> set hs then None else map_of (lm_active m) h))"
proof (induction hs arbitrary: m)
  case (Cons h hs)
  note one = finish_one_ok[OF Cons.prems, of h]
  from Cons.IH[OF one(1)] one(2,3) show ?case by (auto intro: paid_trans)
qed simp

lemma abort_all_ok:
  assumes "manager_ok m"
  shows "manager_ok (abort_all m)" "paid m (abort_all m)" "lm_active (abort_all m) = []" "lm_transactions (abort_all m) = []"
proof -
  note f = finish_all_ok[OF assms, of "map fst (lm_active m)", folded abort_all_def]
  show ok: "manager_ok (abort_all m)" and "paid m (abort_all m)" using f by blast+
  have none: "map_of (lm_active (abort_all m)) h = None" for h
    using f map_of_eq_None_iff[of "lm_active m" h] by simp
  then show a: "lm_active (abort_all m) = []" by (metis map_of_eq_empty_iff ext)
  have "routes (lm_active (abort_all m)) (lm_transactions (abort_all m))" using ok by (simp add: manager_ok_def)
  with none have "map_of (lm_transactions (abort_all m)) t = None" for t
    unfolding routes_def by (metis not_None_eq)
  then show "lm_transactions (abort_all m) = []" by (metis map_of_eq_empty_iff ext)
qed


lemma new_lookup_ok:
  "lookup_ok (lm_limits m) seq (add_to_shortlist m (new_lookup h d) ns)"
  using add_to_shortlist_ok[of m "new_lookup h d" ns]
  by (simp add: lookup_ok_def pending_ids_def new_lookup_def shortlist_ok_def)

lemma new_attached:
  assumes ok: "manager_ok m" and new: "pl_info_hash l \<notin> fst ` set (lm_active m)"
    and room: "length (lm_active m) < ll_max_active (lm_limits m)"
    and l: "lookup_ok (lm_limits m) (lm_sequence m) l" "pl_pending l = []"
  shows "attached ((write_back m l)\<lparr>lm_started_total := lm_started_total m + 1\<rparr>) l"
proof -
  let ?D = "lm_active m" and ?h = "pl_info_hash l"
  let ?D' = "AList.update ?h l ?D"
  have inv: "lookups_ok (lm_limits m) (lm_sequence m) ?D" "routes ?D (lm_transactions m)" "budget_ok m"
    "lm_sequence m \<le> 2 ^ 24 \<Longrightarrow> exact m" "limits_ok (lm_limits m)"
    using ok by (simp_all add: manager_ok_def)
  have none: "pending_ids l = {}" "at_addr b l = 0" for b using l(2) by (simp_all add: pending_ids_def at_addr_def)
  have old: "map_of ?D ?h = None" using new by (simp add: map_of_eq_None_iff)
  have len: "length ?D' = Suc (length ?D)" using new by (simp add: length_update_new)
  have D': "lookups_ok (lm_limits m) (lm_sequence m) ?D'"
    using inv(1) len room l(1) unfolding lookups_ok_def by (auto simp: dict_simps)
  have R': "routes ?D' (lm_transactions m)"
    using inv(2) old unfolding routes_def by (auto simp: dict_simps) (metis option.distinct(1))
  have "exact (write_back m l)" if "lm_sequence m \<le> 2 ^ 24"
    using inv(4)[OF that] none new unfolding exact_def
    by (auto simp: dict_simps od_sum_update_new split: if_splits)
  then show ?thesis using inv(3,5) D' R' len
    by (simp add: attached_def manager_ok_def budget_ok_def in_flight_at_def update_update keys_update exact_def write_back_def)
qed

lemma set_hint_attached:
  assumes "attached m l" "t \<in> pending_ids l"
  shows "attached m (l\<lparr>pl_hint_transaction := Some t\<rparr>)"
  by (rule attached_lookup_change[OF assms(1)])
    (use attachedD(2)[OF assms(1)] assms(2) in \<open>simp_all add: lookup_ok_def pending_ids_def\<close>)

lemma hint_queries_ok: "manager_ok (m\<lparr>lm_hint_queries := n\<rparr>) = manager_ok m" "paid m0 (m\<lparr>lm_hint_queries := n\<rparr>) = paid m0 m"
  by (simp_all add: manager_ok_def budget_ok_def in_flight_at_def exact_def paid_def credit_def)

lemma start_lookup_ok:
  assumes ok: "manager_ok m"
  shows "manager_ok (snd (start_lookup m h seeds now hint0)) \<and> paid m (snd (start_lookup m h seeds now hint0))"
proof -
  define m1 where "m1 = refill m now"
  define l where "l = add_to_shortlist m1 (new_lookup h (now + ll_deadline (lm_limits m1))) seeds"
  define m2 where "m2 = (write_back m1 l)\<lparr>lm_started_total := lm_started_total m1 + 1\<rparr>"
  define hint where "hint = (case hint0 of None \<Rightarrow> None
      | Some node \<Rightarrow> if is_usable_node node (lm_node_filter m1) then Some node else None)"
  have ok1: "manager_ok m1" and p1: "paid m m1" using refill_ok[OF ok] paid_refill by (simp_all add: m1_def)
  have lh: "pl_info_hash l = h" "pl_pending l = []" "pl_queries_sent l = 0" by (simp_all add: l_def new_lookup_def)
  show ?thesis
  proof (cases "h \<in> fst ` set (lm_active m) \<or> free_slots m = 0 \<or> lm_tokens m1 < 1
      \<or> (case hint of None \<Rightarrow> False | Some node \<Rightarrow> in_flight_at m1 (address_of node) \<ge> ll_max_per_node (lm_limits m1))
      \<or> (hint = None \<and> pl_shortlist l = [])")
    case True
    then have "snd (start_lookup m h seeds now hint0) \<in> {m, m1}"
      unfolding start_lookup_def Let_def m1_def[symmetric] hint_def[symmetric] l_def[symmetric] by auto
    with ok ok1 p1 show ?thesis by auto
  next
    case False
    then have room: "h \<notin> fst ` set (lm_active m1)" "length (lm_active m1) < ll_max_active (lm_limits m1)"
      using ok unfolding manager_ok_def lookups_ok_def by (auto simp: m1_def free_slots_def)
    have a2: "attached m2 l"
      unfolding m2_def by (rule new_attached[OF ok1]) (use room lh new_lookup_ok in \<open>simp_all add: l_def\<close>)
    have p2: "paid m m2" using p1 by (auto simp: m2_def paid_def credit_def)
    show ?thesis
    proof (cases hint)
      case None
      obtain sent m3 l3 where t: "top_up m2 l now = (sent, m3, l3)" by (metis prod_cases3)
      have "snd (start_lookup m h seeds now hint0) = write_back m3 l3"
        using False None t unfolding start_lookup_def Let_def m1_def[symmetric] hint_def[symmetric] l_def[symmetric] m2_def[symmetric]
        by simp
      with top_up_attached[OF a2 t] attachedD(1) p2 paid_trans show ?thesis by auto
    next
      case (Some node)
      obtain t m3 l3 where s: "send_to m2 l node now (ll_hint_timeout (lm_limits m2)) = (t, m3, l3)" by (metis prod_cases3)
      note f = send_to_simps[OF s]
      have same: "in_flight_at m2 = in_flight_at m1" "lm_limits m2 = lm_limits m1" "lm_tokens m2 = lm_tokens m1"
        by (simp_all add: m2_def in_flight_at_def fun_eq_iff)
      have "limits_ok (lm_limits m1)" using ok1 by (simp add: manager_ok_def)
      then have "attached m3 l3"
        by (intro send_to_attached[OF a2 s]) (use False Some lh in \<open>auto simp: same limits_ok_def\<close>)
      moreover have "t \<in> pending_ids l3" by (simp add: f(13) pending_ids_def keys_update)
      ultimately have a3: "attached m3 (l3\<lparr>pl_hint_transaction := Some t\<rparr>)" by (rule set_hint_attached)
      have "snd (start_lookup m h seeds now hint0)
          = (write_back m3 (l3\<lparr>pl_hint_transaction := Some t\<rparr>))\<lparr>lm_hint_queries := lm_hint_queries m3 + 1\<rparr>"
        using False Some s unfolding start_lookup_def Let_def m1_def[symmetric] hint_def[symmetric] l_def[symmetric] m2_def[symmetric]
        by simp
      then show ?thesis using attachedD(1)[OF a3] paid_trans[OF p2 paid_send[OF s]] by (simp add: hint_queries_ok)
    qed
  qed
qed

end
