(* ===== verification/Lookup_Properties.thy ===== *)
theory Lookup_Properties
  imports Lookup_Invariant
begin

text \<open>
  The lookup manager of \<open>dht_lookup.py\<close> as a state machine over the crawler's calls, and
  what holds in every state it can reach: the bounds, the exact tables, the rate limit, and
  that every lookup ends.
\<close>

section \<open>The manager as a state machine\<close>

text \<open>
  The calls the crawler makes. A response or an error is handed over only for a transaction
  the manager owns (the assertion at the start of both handlers).
\<close>

inductive lookup_step :: "ip_lib \<Rightarrow> lookup_manager \<Rightarrow> lookup_manager \<Rightarrow> bool" for lib where
  step_start_lookup: "length h = NODE_ID_LENGTH \<Longrightarrow> 0 \<le> now \<Longrightarrow> lookup_step lib m (snd (start_lookup m h seeds now hint))"
| step_handle_response: "owns_transaction m (PyBytes t) \<Longrightarrow> lookup_step lib m (handle_response lib m t response addr clock)"
| step_handle_error: "owns_transaction m (PyBytes t) \<Longrightarrow> lookup_step lib m (handle_error m t clock)"
| step_tick: "0 \<le> now \<Longrightarrow> lookup_step lib m (tick m now)"
| step_abort_all: "lookup_step lib m (abort_all m)"

inductive_cases lookup_stepE: "lookup_step lib m m'"

definition lookup_start :: "lookup_manager \<Rightarrow> bool" where
  "lookup_start m \<longleftrightarrow> (\<exists>clock node_filter on_peers limits. limits_ok limits \<and> m = new_manager clock node_filter on_peers limits)"

lemma new_manager_ok: "limits_ok limits \<Longrightarrow> manager_ok (new_manager clock node_filter on_peers limits)"
  by (auto simp: manager_ok_def lookups_ok_def routes_def budget_ok_def exact_def new_manager_def in_flight_at_def limits_ok_def)

lemma lookup_step_ok: "lookup_step lib m m' \<Longrightarrow> manager_ok m \<Longrightarrow> manager_ok m' \<and> paid m m'"
  by (induction rule: lookup_step.induct)
    (simp_all add: start_lookup_ok handle_response_ok handle_error_ok tick_ok abort_all_ok)

interpretation lookups: invariant_system lookup_start "lookup_step lib" manager_ok for lib
  by unfold_locales (auto simp: lookup_start_def new_manager_ok dest: lookup_step_ok)

lemma lookup_steps_paid: "(lookup_step lib)\<^sup>*\<^sup>* m m' \<Longrightarrow> manager_ok m \<Longrightarrow> manager_ok m' \<and> paid m m'"
  by (induction rule: rtranclp_induct) (auto dest: lookup_step_ok intro: paid_trans)

section \<open>Properties\<close>

text \<open>
  C8: In every state the lookup manager can reach: at most \<open>max_active\<close> lookups run, each
  with at most \<open>alpha\<close> pending queries, at most \<open>max_queries\<close> queries sent (one, the hint
  query, is always allowed), a shortlist and a peer list within their limits; the token
  bucket holds between 0 and \<open>queries_per_second\<close> tokens; no address has more than
  \<open>max_per_node + alpha - 1\<close> queries in flight; every lookup started is active or was
  reported finished exactly once; and what is owned is pending at the lookup it is routed to.
\<close>

theorem lookup_manager_bounds:
  assumes "lookup_start m0" and "(lookup_step lib)\<^sup>*\<^sup>* m0 m"
  shows "length (lm_active m) \<le> ll_max_active (lm_limits m)
    \<and> (\<forall>h l. map_of (lm_active m) h = Some l \<longrightarrow>
         length (pl_pending l) \<le> ll_alpha (lm_limits m) \<and> pl_queries_sent l \<le> max (ll_max_queries (lm_limits m)) 1
         \<and> length (pl_shortlist l) \<le> ll_shortlist_size (lm_limits m) \<and> length (pl_found_peers l) \<le> ll_max_peers (lm_limits m))
    \<and> 0 \<le> lm_tokens m \<and> lm_tokens m \<le> ll_queries_per_second (lm_limits m)
    \<and> (\<forall>a. in_flight_at m a \<le> ll_max_per_node (lm_limits m) + ll_alpha (lm_limits m) - 1)
    \<and> lm_started_total m = lm_finished_total m + length (lm_active m)
    \<and> length (filter is_finished (lm_calls m)) = lm_finished_total m
    \<and> (\<forall>t h. map_of (lm_transactions m) t = Some h \<longrightarrow> (\<exists>l. map_of (lm_active m) h = Some l \<and> t \<in> fst ` set (pl_pending l)))"
proof -
  have ok: "manager_ok m" by (rule lookups.reachable_inv[OF assms])
  then have l: "lookups_ok (lm_limits m) (lm_sequence m) (lm_active m)" and r: "routes (lm_active m) (lm_transactions m)"
    and b: "budget_ok m" by (simp_all add: manager_ok_def)
  have len: "length (lm_active m) \<le> ll_max_active (lm_limits m)" using l unfolding lookups_ok_def by blast
  have each: "length (pl_pending x) \<le> ll_alpha (lm_limits m) \<and> pl_queries_sent x \<le> max (ll_max_queries (lm_limits m)) 1
      \<and> length (pl_shortlist x) \<le> ll_shortlist_size (lm_limits m) \<and> length (pl_found_peers x) \<le> ll_max_peers (lm_limits m)"
    if "map_of (lm_active m) h = Some x" for h x
    using lookups_okD[OF l that] by (simp add: lookup_ok_def shortlist_ok_def)
  from r have "\<forall>t h. map_of (lm_transactions m) t = Some h \<longrightarrow> (\<exists>l. map_of (lm_active m) h = Some l \<and> t \<in> fst ` set (pl_pending l))"
    unfolding routes_def pending_ids_def by blast
  with len each b show ?thesis unfolding budget_ok_def by blast
qed

definition sample_hash :: bytes where "sample_hash = replicate 20 7"
definition sample_node :: node where "sample_node = (replicate 20 1, ''4.4.4.4'', 6881)"
definition sample_manager :: lookup_manager where
  "sample_manager = snd (start_lookup (new_manager 0 accept_every_node True DEFAULT_LOOKUP_LIMITS) sample_hash [sample_node] 0 None)"

lemma sample_start: "lookup_start (new_manager 0 accept_every_node True DEFAULT_LOOKUP_LIMITS)"
proof -
  have "limits_ok DEFAULT_LOOKUP_LIMITS" by (simp add: limits_ok_def DEFAULT_LOOKUP_LIMITS_def)
  then show ?thesis unfolding lookup_start_def by blast
qed

lemma sample_step: "(lookup_step lib)\<^sup>*\<^sup>* (new_manager 0 accept_every_node True DEFAULT_LOOKUP_LIMITS) sample_manager"
  unfolding sample_manager_def
  by (rule r_into_rtranclp, rule step_start_lookup) (simp_all add: sample_hash_def NODE_ID_LENGTH_def)

lemmas lookup_eval = start_lookup_def new_manager_def DEFAULT_LOOKUP_LIMITS_def free_slots_def refill_def add_to_shortlist_def
  is_usable_node_def is_valid_node_id_def accept_every_node_def sample_node_def sample_hash_def new_lookup_def NODE_ID_LENGTH_def
  write_back_def top_up_def top_up_candidates_def in_flight_at_def address_of_def select_closest_nodes_def send_to_def log_call_def

lemma sample_active: "\<exists>l. map_of (lm_active sample_manager) sample_hash = Some l \<and> pl_deadline l = 6
    \<and> pl_found_peers l = [] \<and> map fst (lm_active sample_manager) = [sample_hash]"
  by (simp add: sample_manager_def lookup_eval Let_def)


lemma sample_limits: "lm_limits sample_manager = DEFAULT_LOOKUP_LIMITS"
  by (simp add: sample_manager_def lookup_eval Let_def)

theorem lookup_manager_bounds_witness:
  "length (lm_active sample_manager) \<le> 256 \<and> in_flight_at sample_manager (''4.4.4.4'', 6881) \<le> 4"
  using lookup_manager_bounds[OF sample_start sample_step]
  by (simp add: sample_limits DEFAULT_LOOKUP_LIMITS_def)

text \<open>
  C13: As long as no more than \<open>2^24\<close> queries were sent (then the ids start over), the tables
  are exact: a transaction is owned exactly when some active lookup waits for it, it is routed
  to that lookup and to no other, and \<open>in_flight\<close> of an address is the number of pending
  queries sent there, summed over the active lookups.
\<close>

theorem lookup_tables_exact:
  assumes "lookup_start m0" and "(lookup_step lib)\<^sup>*\<^sup>* m0 m" and "lm_queries_total m \<le> 2 ^ 24"
  shows "(\<forall>t h. map_of (lm_transactions m) t = Some h \<longleftrightarrow>
            (\<exists>l. map_of (lm_active m) h = Some l \<and> t \<in> fst ` set (pl_pending l)))
    \<and> (\<forall>a. in_flight_at m a =
            (\<Sum>p \<leftarrow> lm_active m. \<Sum>q \<leftarrow> pl_pending (snd p). if fst (snd q) = a then 1 else 0))"
proof -
  have ok: "manager_ok m" by (rule lookups.reachable_inv[OF assms(1,2)])
  then have r: "routes (lm_active m) (lm_transactions m)" and "lm_queries_total m = lm_sequence m"
    by (simp_all add: manager_ok_def budget_ok_def)
  with ok assms(3) have ex: "exact m" by (simp add: manager_ok_def)
  have "map_of (lm_transactions m) t = Some h \<longleftrightarrow> (\<exists>l. map_of (lm_active m) h = Some l \<and> t \<in> fst ` set (pl_pending l))" for t h
    using r ex unfolding routes_def exact_def pending_ids_def by blast
  moreover have "in_flight_at m a = od_sum (at_addr a) (lm_active m)" for a using ex unfolding exact_def by blast
  ultimately show ?thesis by (simp add: od_sum_def at_addr_def)
qed

theorem lookup_tables_exact_witness:
  "\<exists>t. map_of (lm_transactions sample_manager) t = Some sample_hash
     \<and> (\<exists>l. map_of (lm_active sample_manager) sample_hash = Some l \<and> t \<in> fst ` set (pl_pending l))"
proof -
  have few: "lm_queries_total sample_manager \<le> 2 ^ 24" by (simp add: sample_manager_def lookup_eval Let_def)
  have "\<exists>t. map_of (lm_transactions sample_manager) t = Some sample_hash"
    by (simp add: sample_manager_def lookup_eval Let_def)
  then show ?thesis using lookup_tables_exact[OF sample_start sample_step few] by blast
qed

text \<open>
  C15: The rate limit. Between any two states of a run, no more queries are sent than
  \<open>queries_per_second\<close> times one plus the time that passed on the bucket's clock, and each
  of them is one call of \<open>send_query\<close>.
\<close>

theorem lookup_query_rate:
  assumes "lookup_start m0" and "(lookup_step lib)\<^sup>*\<^sup>* m0 m" and "(lookup_step lib)\<^sup>*\<^sup>* m m'"
  shows "real (lm_queries_total m') - real (lm_queries_total m)
      \<le> ll_queries_per_second (lm_limits m) * (1 + (lm_tokens_time m' - lm_tokens_time m))
    \<and> length (filter is_send (lm_calls m')) = lm_queries_total m'"
proof -
  have ok: "manager_ok m" by (rule lookups.reachable_inv[OF assms(1,2)])
  have m': "manager_ok m'" "paid m m'" using lookup_steps_paid[OF assms(3) ok] by auto
  then have "0 \<le> lm_tokens m'" "length (filter is_send (lm_calls m')) = lm_queries_total m'"
    "lm_tokens m \<le> ll_queries_per_second (lm_limits m)" using ok by (auto simp: manager_ok_def budget_ok_def)
  with m'(2) show ?thesis by (auto simp: paid_def credit_def algebra_simps)
qed

theorem lookup_query_rate_witness:
  "real (lm_queries_total sample_manager) \<le> 420"
proof -
  let ?m0 = "new_manager 0 accept_every_node True DEFAULT_LOOKUP_LIMITS"
  have "lm_tokens_time sample_manager = 0" by (simp add: sample_manager_def lookup_eval Let_def)
  moreover have "lm_queries_total ?m0 = 0" "lm_tokens_time ?m0 = 0" "ll_queries_per_second (lm_limits ?m0) = 420"
    by (simp_all add: new_manager_def DEFAULT_LOOKUP_LIMITS_def)
  ultimately show ?thesis using lookup_query_rate[OF sample_start rtranclp.rtrancl_refl sample_step] by simp
qed

text \<open>
  C16: No lookup outlives its deadline: a tick at or after the deadline of an active lookup
  removes it and reports its peers, sorted, to \<open>on_finished\<close> during that very tick; and
  \<open>abort_all\<close> leaves neither an active lookup nor an owned transaction.
\<close>

theorem tick_finishes_overdue:
  assumes "lookup_start m0" and "(lookup_step lib)\<^sup>*\<^sup>* m0 m"
  shows "(\<forall>h l. map_of (lm_active m) h = Some l \<and> pl_deadline l \<le> now \<longrightarrow>
       map_of (lm_active (tick m now)) h = None
       \<and> OnFinished h (sort (pl_found_peers l)) \<in> set (drop (length (lm_calls m)) (lm_calls (tick m now))))
    \<and> lm_active (abort_all m) = [] \<and> lm_transactions (abort_all m) = []"
  using tick_ok(4)[OF lookups.reachable_inv[OF assms]] abort_all_ok(3,4)[OF lookups.reachable_inv[OF assms]] by blast

theorem tick_finishes_overdue_witness:
  "map_of (lm_active (tick sample_manager 6)) sample_hash = None"
proof -
  obtain l where "map_of (lm_active sample_manager) sample_hash = Some l" "pl_deadline l \<le> 6"
    using sample_active by fastforce
  then show ?thesis using tick_finishes_overdue[OF sample_start sample_step, of 6] by blast
qed

text \<open>
  C29: Only the node that was asked can answer: a response whose sender is not the address the
  query went to, or whose lookup is over, changes nothing at all.
\<close>

theorem foreign_response_ignored:
  assumes "\<And>h l x. map_of (lm_transactions m) t = Some h \<Longrightarrow> map_of (lm_active m) h = Some l \<Longrightarrow>
      map_of (pl_pending l) t \<noteq> Some (addr, x)"
  shows "handle_response lib m t response addr clock = m"
proof (cases "map_of (lm_transactions m) t")
  case (Some h)
  show ?thesis
  proof (cases "map_of (lm_active m) h")
    case l: (Some l)
    then have "map_option fst (map_of (pl_pending l) t) \<noteq> Some addr" using assms[OF Some l] by auto
    with Some l show ?thesis by (simp add: handle_response_def)
  qed (simp add: handle_response_def Some)
qed (simp add: handle_response_def)

theorem foreign_response_ignored_witness:
  "\<forall>lib. handle_response lib sample_manager (lookup_transaction_id 0) (PyDict []) (''9.9.9.9'', 1) 0 = sample_manager"
proof
  fix lib
  have "map_of (pl_pending l) (lookup_transaction_id 0) \<noteq> Some ((''9.9.9.9'', 1), x)"
    if "map_of (lm_active sample_manager) h = Some l" for h l x
    using that by (auto simp: sample_manager_def lookup_eval Let_def split: if_splits)
  then show "handle_response lib sample_manager (lookup_transaction_id 0) (PyDict []) (''9.9.9.9'', 1) 0 = sample_manager"
    by (rule foreign_response_ignored)
qed

end
