(* ===== verification/Bounded_Recent_Map.thy ===== *)
theory Bounded_Recent_Map
  imports Scraper_Prelude
begin

text \<open>
  \<open>remember\<close> of \<open>bounded_recent_map.py\<close>: an insertion-ordered mapping with a size cap.
  The locale \<open>recent_store\<close> is what its clients (the send windows, the hint nodes, the
  reachability cache, the peers of a hash) rely on: the bound, the value just remembered,
  and that what is found is never stale.
\<close>

text \<open>The loop \<open>while len(mapping) > limit: mapping.popitem(last=False)\<close>.\<close>

fun pop_oldest :: "('k, 'v) odict \<Rightarrow> nat \<Rightarrow> ('k, 'v) odict" where
  "pop_oldest [] limit = []"
| "pop_oldest (x # m) limit = (if length (x # m) > limit then pop_oldest m limit else x # m)"

definition remember :: "('k, 'v) odict \<Rightarrow> 'k \<Rightarrow> 'v \<Rightarrow> nat \<Rightarrow> bool \<times> ('k, 'v) odict" where
  "remember mapping key value limit =
     (let is_new = key \<notin> fst ` set mapping;
          mapping1 = AList.update key value mapping;
          mapping2 = od_move_to_end key mapping1
      in (is_new, pop_oldest mapping2 limit))"

section \<open>The interface\<close>

locale recent_store =
  fixes get :: "'m \<Rightarrow> 'k \<Rightarrow> 'v option"
    and put :: "'m \<Rightarrow> 'k \<Rightarrow> 'v \<Rightarrow> 'm"
    and size_of :: "'m \<Rightarrow> nat"
    and invar :: "'m \<Rightarrow> bool"
    and cap :: nat
  assumes put_invar: "invar m \<Longrightarrow> invar (put m k v)"
    and put_same: "invar m \<Longrightarrow> get (put m k v) k = Some v"
    and put_other: "invar m \<Longrightarrow> k' \<noteq> k \<Longrightarrow> get (put m k v) k' = Some v' \<Longrightarrow> get m k' = Some v'"
    and put_room: "invar m \<Longrightarrow> size_of m < cap \<Longrightarrow> k' \<noteq> k \<Longrightarrow> get (put m k v) k' = get m k'"
    and put_bound: "size_of (put m k v) \<le> cap"
begin

lemma puts_invar: "invar m \<Longrightarrow> invar (foldl (\<lambda>m kv. put m (fst kv) (snd kv)) m kvs)"
  by (induction kvs arbitrary: m) (auto intro: put_invar)

lemma puts_bound: "kvs \<noteq> [] \<Longrightarrow> size_of (foldl (\<lambda>m kv. put m (fst kv) (snd kv)) m kvs) \<le> cap"
  by (induction kvs rule: rev_induct) (auto simp: put_bound)

text \<open>What the store finds is what the unbounded map holds: never a stale value.\<close>

lemma puts_refine:
  assumes "invar m" and "get m \<subseteq>\<^sub>m M"
  shows "get (foldl (\<lambda>m kv. put m (fst kv) (snd kv)) m kvs) \<subseteq>\<^sub>m M ++ map_of (rev kvs)"
  using assms
proof (induction kvs arbitrary: m M)
  case Nil
  then show ?case by simp
next
  case (Cons kv kvs)
  have "get (put m (fst kv) (snd kv)) \<subseteq>\<^sub>m M(fst kv \<mapsto> snd kv)"
  proof (unfold map_le_def, intro ballI)
    fix k assume "k \<in> dom (get (put m (fst kv) (snd kv)))"
    then obtain v where v: "get (put m (fst kv) (snd kv)) k = Some v" by blast
    show "get (put m (fst kv) (snd kv)) k = (M(fst kv \<mapsto> snd kv)) k"
    proof (cases "k = fst kv")
      case True
      then show ?thesis by (simp add: put_same[OF Cons.prems(1)])
    next
      case False
      with v have "get m k = Some v" by (rule put_other[OF Cons.prems(1), rotated])
      with Cons.prems(2) have "M k = Some v" by (metis domI map_le_def)
      with v False show ?thesis by simp
    qed
  qed
  with Cons.IH[OF put_invar[OF Cons.prems(1)]]
  have "get (foldl (\<lambda>m kv. put m (fst kv) (snd kv)) (put m (fst kv) (snd kv)) kvs)
      \<subseteq>\<^sub>m M(fst kv \<mapsto> snd kv) ++ map_of (rev kvs)" .
  moreover have "M(fst kv \<mapsto> snd kv) ++ map_of (rev kvs) = M ++ map_of (rev (kv # kvs))"
    by (cases kv) simp
  ultimately show ?case by (simp only: foldl_Cons)
qed

end

section \<open>Lemmas\<close>

lemma pop_oldest_eq: "pop_oldest m limit = drop (length m - limit) m"
  by (induction m) (auto simp: Suc_diff_le)

declare delete_update_same [simp]

lemma move_to_end_update: "od_move_to_end k (AList.update k v m) = AList.delete k m @ [(k, v)]"
  by (simp add: od_move_to_end_def AList.update_conv')

lemma remember_eq:
  "remember m k v limit =
     (k \<notin> fst ` set m, let m' = AList.delete k m @ [(k, v)] in drop (length m' - limit) m')"
  by (simp add: remember_def move_to_end_update pop_oldest_eq Let_def)

lemma od_ok_remember: "od_ok m \<Longrightarrow> od_ok (snd (remember m k v limit))"
proof -
  assume "od_ok m"
  then have "od_ok (AList.delete k m @ [(k, v)])" by (simp add: map_fst_delete distinct_removeAll)
  then show ?thesis unfolding remember_eq Let_def snd_conv drop_map[symmetric] by (rule distinct_drop)
qed

lemma remember_bound: "length (snd (remember m k v limit)) \<le> limit"
  by (simp add: remember_eq Let_def)

lemma remember_last: "0 < limit \<Longrightarrow> \<exists>m'. snd (remember m k v limit) = m' @ [(k, v)] \<and> set m' \<subseteq> set (AList.delete k m)"
  by (auto simp: remember_eq Let_def intro: in_set_dropD)

lemma remember_room:
  "length m < limit \<Longrightarrow> snd (remember m k v limit) = AList.delete k m @ [(k, v)]"
  using length_delete_le[of k m] by (simp add: remember_eq Let_def)

lemma map_of_append_single: "k \<notin> fst ` set m \<Longrightarrow> map_of (m @ [(k, v)]) k = Some v"
  by (auto simp: map_add_Some_iff map_of_eq_None_iff)

lemma remember_get:
  assumes "od_ok m" "0 < limit"
  shows "map_of (snd (remember m k v limit)) k = Some v"
    and "k' \<noteq> k \<Longrightarrow> map_of (snd (remember m k v limit)) k' = Some v' \<Longrightarrow> map_of m k' = Some v'"
proof -
  obtain m' where m': "snd (remember m k v limit) = m' @ [(k, v)]" "set m' \<subseteq> set (AList.delete k m)"
    using remember_last[OF assms(2), of m k v] by blast
  have "k \<notin> fst ` set m'" using m'(2) by (auto dest!: subsetD simp: AList.delete_eq)
  then show "map_of (snd (remember m k v limit)) k = Some v"
    using m'(1) by (simp add: map_of_append_single del: map_of_append)
  assume "k' \<noteq> k" "map_of (snd (remember m k v limit)) k' = Some v'"
  then have "(k', v') \<in> set m'" unfolding m'(1) by (auto simp: map_add_Some_iff dest: map_of_SomeD split: if_splits)
  with m'(2) have "(k', v') \<in> set m" by (auto simp: AList.delete_eq)
  with assms(1) show "map_of m k' = Some v'" by (simp add: map_of_is_SomeI)
qed

interpretation remembered: recent_store map_of "\<lambda>m k v. snd (remember m k v (Suc limit))" length od_ok "Suc limit"
  for limit :: nat
proof unfold_locales
  fix m :: "('a, 'b) odict" and k k' :: 'a and v v' :: 'b
  show "od_ok m \<Longrightarrow> od_ok (snd (remember m k v (Suc limit)))" by (rule od_ok_remember)
  show "od_ok m \<Longrightarrow> map_of (snd (remember m k v (Suc limit))) k = Some v"
    by (rule remember_get(1)) simp_all
  show "od_ok m \<Longrightarrow> k' \<noteq> k \<Longrightarrow> map_of (snd (remember m k v (Suc limit))) k' = Some v' \<Longrightarrow> map_of m k' = Some v'"
    by (rule remember_get(2)) simp_all
  show "od_ok m \<Longrightarrow> length m < Suc limit \<Longrightarrow> k' \<noteq> k \<Longrightarrow> map_of (snd (remember m k v (Suc limit))) k' = map_of m k'"
    by (simp add: remember_room map_add_def AList.delete_conv' split: option.splits)
  show "length (snd (remember m k v (Suc limit))) \<le> Suc limit" by (rule remember_bound)
qed

section \<open>Properties\<close>

text \<open>
  Remembering a key stores its value as the newest entry, keeps the others in order, drops
  only the oldest entries beyond the limit, and says whether the key was new.
\<close>

theorem remember_newest_last:
  assumes "limit \<ge> 1"
  shows "(fst (remember mapping key value limit) \<longleftrightarrow> key \<notin> fst ` set mapping)
    \<and> (\<exists>dropped kept. AList.delete key mapping = dropped @ kept
      \<and> snd (remember mapping key value limit) = kept @ [(key, value)]
      \<and> length (kept @ [(key, value)]) \<le> limit
      \<and> (dropped \<noteq> [] \<longrightarrow> length (kept @ [(key, value)]) = limit))"
proof -
  let ?d = "AList.delete key mapping"
  let ?n = "length ?d + 1 - limit"
  have "?d = take ?n ?d @ drop ?n ?d"
    "snd (remember mapping key value limit) = drop ?n ?d @ [(key, value)]"
    "length (drop ?n ?d @ [(key, value)]) \<le> limit"
    "take ?n ?d \<noteq> [] \<longrightarrow> length (drop ?n ?d @ [(key, value)]) = limit"
    using assms by (auto simp: remember_eq Let_def)
  moreover have "fst (remember mapping key value limit) \<longleftrightarrow> key \<notin> fst ` set mapping"
    by (simp add: remember_eq)
  ultimately show ?thesis by blast
qed

theorem remember_newest_last_witness:
  "fst (remember [(1::nat, ''a''), (2, ''b'')] 3 ''c'' 2)
    \<and> snd (remember [(1::nat, ''a''), (2, ''b'')] 3 ''c'' 2) = [(2, ''b''), (3, ''c'')]"
  using remember_newest_last[of 2 "[(1::nat, ''a''), (2, ''b'')]" 3 "''c''"]
  by (simp add: remember_def od_move_to_end_def)

text \<open>
  C26: A sequence of \<open>remember\<close> calls refines the unbounded dictionary: the size stays within
  the limit, the last key remembered is found with its value, and every value found is the
  one the unbounded dictionary would hold.
\<close>

theorem remember_refines_dict:
  assumes "limit \<ge> 1"
  shows "length (foldl (\<lambda>m kv. snd (remember m (fst kv) (snd kv) limit)) [] (kvs @ [kv])) \<le> limit
    \<and> map_of (foldl (\<lambda>m kv. snd (remember m (fst kv) (snd kv) limit)) [] (kvs @ [kv])) (fst kv) = Some (snd kv)
    \<and> map_of (foldl (\<lambda>m kv. snd (remember m (fst kv) (snd kv) limit)) [] (kvs @ [kv])) \<subseteq>\<^sub>m map_of (rev (kvs @ [kv]))"
proof -
  obtain l where l: "limit = Suc l" using assms by (cases limit) auto
  let ?f = "\<lambda>m. foldl (\<lambda>m kv. snd (remember m (fst kv) (snd kv) (Suc l))) m"
  have ok: "od_ok (?f [] kvs)" by (rule remembered.puts_invar) simp
  have "length (?f [] (kvs @ [kv])) \<le> Suc l" by (rule remembered.puts_bound) simp
  moreover have "map_of (?f [] (kvs @ [kv])) (fst kv) = Some (snd kv)"
    using remembered.put_same[OF ok] by simp
  moreover have "map_of (?f [] (kvs @ [kv])) \<subseteq>\<^sub>m Map.empty ++ map_of (rev (kvs @ [kv]))"
    by (rule remembered.puts_refine) simp_all
  ultimately show ?thesis by (simp add: l)
qed

theorem remember_refines_dict_witness:
  "length (foldl (\<lambda>m kv. snd (remember m (fst kv) (snd kv) 1)) [] ([(1::nat, ''a'')] @ [(2, ''b'')])) \<le> 1"
  using remember_refines_dict[of 1 "[(1::nat, ''a'')]" "(2, ''b'')"] by simp

end
