(* ===== verification/Torrent_Catalog.thy ===== *)
theory Torrent_Catalog
  imports Torrent_Info_Summary Bounded_Recent_Map "HOL-Library.Product_Lexorder"
begin

text \<open>
  The catalog of \<open>torrent_catalog.py\<close>. Entries are mutable objects that several dictionaries
  and the indexer's snapshots share, so the model has an explicit store: a \<open>ref\<close> is the
  identity of a \<open>TorrentEntry\<close>, \<open>c_heap\<close> gives its fields, the dictionaries map hashes to
  refs, and \<open>is\<close> compares refs. A metadata object is paired with its identity for the same
  reason. Every method is one definition on the record \<open>catalog\<close>; the lock makes each
  public method one atomic step. The clock reading is the argument \<open>clock\<close>.
  Assertions are no branches of the model: the theories \<open>Catalog_Invariant\<close> and
  \<open>Catalog_Properties\<close> prove them or name them as preconditions.
\<close>

section \<open>Entries\<close>

definition MAX_CATALOG_ENTRIES :: nat where "MAX_CATALOG_ENTRIES = 250000"
definition MAX_PEERS_PER_HASH :: nat where "MAX_PEERS_PER_HASH = 32"
definition MAX_FETCH_ATTEMPTS :: nat where "MAX_FETCH_ATTEMPTS = 3"
definition MAX_LOOKUPS_PER_HASH :: nat where "MAX_LOOKUPS_PER_HASH = 2"
definition LOOKUP_RETRY_SECONDS :: real where "LOOKUP_RETRY_SECONDS = 30"
definition EVICTION_DIVISOR :: nat where "EVICTION_DIVISOR = 20"
definition MAX_INDEX_PENDING :: nat where "MAX_INDEX_PENDING = 100000"
definition MAX_ORPHAN_COUNTERS :: nat where "MAX_ORPHAN_COUNTERS = 100000"

datatype fetch_state = FETCH_PENDING | FETCH_IN_PROGRESS | FETCH_DONE | FETCH_FAILED

datatype sighting_source = SOURCE_GET_PEERS | SOURCE_ANNOUNCE_PEER | SOURCE_SAMPLE

type_synonym ref = nat
type_synonym metadata_obj = "nat \<times> torrent_metadata"
type_synonym index_base = "int \<times> int \<times> real option"

record torrent_entry =
  te_info_hash :: bytes
  te_first_seen :: real
  te_last_seen :: real
  te_seen_count :: nat
  te_announce_count :: nat
  te_peers :: "(address, unit) odict option"
  te_failed_peers :: "address set option"
  te_fetch_state :: fetch_state
  te_fetch_attempts :: nat
  te_last_error :: string
  te_lookups_started :: nat
  te_lookup_in_progress :: bool
  te_next_lookup_time :: real
  te_metadata :: "metadata_obj option"
  te_index_base :: "index_base option"
  te_in_database :: bool
  te_database_checked :: bool
  te_known_from_database :: bool
  te_flushed_seen :: nat
  te_flushed_announce :: nat

definition new_entry :: "bytes \<Rightarrow> real \<Rightarrow> torrent_entry" where
  "new_entry info_hash now =
     \<lparr>te_info_hash = info_hash, te_first_seen = now, te_last_seen = now, te_seen_count = 0,
      te_announce_count = 0, te_peers = None, te_failed_peers = None, te_fetch_state = FETCH_PENDING,
      te_fetch_attempts = 0, te_last_error = '''', te_lookups_started = 0, te_lookup_in_progress = False,
      te_next_lookup_time = 0, te_metadata = None, te_index_base = None, te_in_database = False,
      te_database_checked = True, te_known_from_database = False, te_flushed_seen = 0,
      te_flushed_announce = 0\<rparr>"

text \<open>The truth value of \<open>entry.peers\<close>, and \<open>entry.peers or ()\<close>.\<close>

definition has_peers :: "torrent_entry \<Rightarrow> bool" where
  "has_peers e = (case te_peers e of None \<Rightarrow> False | Some d \<Rightarrow> d \<noteq> [])"

definition peer_list :: "torrent_entry \<Rightarrow> address list" where
  "peer_list e = (case te_peers e of None \<Rightarrow> [] | Some d \<Rightarrow> map fst d)"

record index_snapshot =
  is_info_hash :: bytes
  is_metadata :: "metadata_obj option"
  is_seen_count :: nat
  is_announce_count :: nat
  is_first_seen :: real
  is_last_seen :: real
  is_base :: "index_base option"
  is_entry :: ref
  is_seen_delta :: int
  is_announce_delta :: int

definition cumulative_counters :: "torrent_entry \<Rightarrow> int \<times> int \<times> real" where
  "cumulative_counters e =
     (case te_index_base e of
        None \<Rightarrow> (int (te_seen_count e), int (te_announce_count e), te_first_seen e)
      | Some (seen, announce, first) \<Rightarrow>
          (seen + int (te_seen_count e), announce + int (te_announce_count e),
           case first of None \<Rightarrow> te_first_seen e | Some f \<Rightarrow> min f (te_first_seen e)))"

definition rank_key :: "torrent_entry \<Rightarrow> nat \<times> real" where
  "rank_key e = (te_seen_count e, te_last_seen e)"

definition is_evictable :: "torrent_entry \<Rightarrow> bool" where
  "is_evictable e \<longleftrightarrow> te_fetch_state e \<noteq> FETCH_IN_PROGRESS \<and> \<not> te_lookup_in_progress e"

definition eviction_key :: "torrent_entry \<Rightarrow> nat \<times> nat \<times> nat \<times> real" where
  "eviction_key e =
     (if te_metadata e \<noteq> None then 1 else 0, if has_peers e then 1 else 0, te_seen_count e, te_last_seen e)"

definition moment_or_now :: "real \<Rightarrow> real option \<Rightarrow> real" where
  "moment_or_now clock now = (case now of None \<Rightarrow> clock | Some n \<Rightarrow> n)"

text \<open>
  \<open>sorted(xs, key=key, reverse=True)\<close> keeps the order of equal elements;
  \<open>heapq.nlargest(n, ...)\<close> and \<open>heapq.nsmallest(n, ...)\<close> are the first \<open>n\<close> of the two sorts.
\<close>

definition sort_desc :: "('a \<Rightarrow> 'k :: linorder) \<Rightarrow> 'a list \<Rightarrow> 'a list" where
  "sort_desc key xs = rev (sort_key key (rev xs))"

definition nlargest :: "nat \<Rightarrow> ('a \<Rightarrow> 'k :: linorder) \<Rightarrow> 'a list \<Rightarrow> 'a list" where
  "nlargest n key xs = take n (sort_desc key xs)"

definition nsmallest :: "nat \<Rightarrow> ('a \<Rightarrow> 'k :: linorder) \<Rightarrow> 'a list \<Rightarrow> 'a list" where
  "nsmallest n key xs = take n (sort_key key xs)"

section \<open>The catalog\<close>

record catalog =
  c_heap :: "ref \<Rightarrow> torrent_entry"
  c_next_ref :: ref
  c_entries :: "(bytes, ref) odict"
  c_fetched :: "(bytes, ref) odict"
  c_fetchable :: "(bytes, ref) odict"
  c_needs_lookup :: "(bytes, ref) odict"
  c_state_counts :: "fetch_state \<Rightarrow> int"
  c_observations :: nat
  c_discovered :: nat
  c_evicted :: nat
  c_lookups_in_progress :: int
  c_index_tracking :: bool
  c_index_max_pending :: nat
  c_index_documents :: "(bytes, ref) odict"
  c_index_counters :: "(bytes, ref) odict"
  c_orphan_counters :: "ref list"
  c_index_dropped :: nat
  c_check_database :: bool
  c_metadata_bytes :: int
  c_known_done :: int
  c_needs_check :: "(bytes, ref) odict"
  c_max_entries :: nat
  c_max_peers_per_hash :: nat
  c_max_fetch_attempts :: nat
  c_max_lookups :: nat
  c_lookup_retry_seconds :: real

definition new_catalog :: "nat \<Rightarrow> nat \<Rightarrow> nat \<Rightarrow> nat \<Rightarrow> real \<Rightarrow> catalog" where
  "new_catalog max_entries max_peers_per_hash max_fetch_attempts max_lookups lookup_retry_seconds =
     \<lparr>c_heap = (\<lambda>_. new_entry [] 0), c_next_ref = 0, c_entries = [], c_fetched = [], c_fetchable = [],
      c_needs_lookup = [], c_state_counts = (\<lambda>_. 0), c_observations = 0, c_discovered = 0, c_evicted = 0,
      c_lookups_in_progress = 0, c_index_tracking = False, c_index_max_pending = MAX_INDEX_PENDING,
      c_index_documents = [], c_index_counters = [], c_orphan_counters = [], c_index_dropped = 0,
      c_check_database = False, c_metadata_bytes = 0, c_known_done = 0, c_needs_check = [],
      c_max_entries = max_entries, c_max_peers_per_hash = max_peers_per_hash,
      c_max_fetch_attempts = max_fetch_attempts, c_max_lookups = max_lookups,
      c_lookup_retry_seconds = lookup_retry_seconds\<rparr>"

text \<open>An assignment to fields of the entry object \<open>r\<close>.\<close>

definition upd_entry :: "catalog \<Rightarrow> ref \<Rightarrow> (torrent_entry \<Rightarrow> torrent_entry) \<Rightarrow> catalog" where
  "upd_entry c r f = c\<lparr>c_heap := (c_heap c)(r := f (c_heap c r))\<rparr>"

definition index_snapshot_of :: "catalog \<Rightarrow> ref \<Rightarrow> index_snapshot" where
  "index_snapshot_of c r =
     (let e = c_heap c r
      in \<lparr>is_info_hash = te_info_hash e, is_metadata = te_metadata e, is_seen_count = te_seen_count e,
          is_announce_count = te_announce_count e, is_first_seen = te_first_seen e,
          is_last_seen = te_last_seen e, is_base = te_index_base e, is_entry = r,
          is_seen_delta = int (te_seen_count e) - int (te_flushed_seen e),
          is_announce_delta = int (te_announce_count e) - int (te_flushed_announce e)\<rparr>)"

section \<open>Helpers under the lock\<close>

definition add_peer_locked :: "catalog \<Rightarrow> ref \<Rightarrow> address \<Rightarrow> bool \<times> catalog" where
  "add_peer_locked c r peer =
     (let e = c_heap c r
      in if (case te_failed_peers e of None \<Rightarrow> False | Some F \<Rightarrow> peer \<in> F) then (False, c)
         else let d = (case te_peers e of None \<Rightarrow> [] | Some d \<Rightarrow> d);
                  res = remember d peer () (c_max_peers_per_hash c)
              in (fst res, upd_entry c r (te_peers_update (\<lambda>_. Some (snd res)))))"

definition forget_peer_locked :: "catalog \<Rightarrow> ref \<Rightarrow> address \<Rightarrow> catalog" where
  "forget_peer_locked c r peer =
     upd_entry c r (\<lambda>e. e\<lparr>te_peers := map_option (AList.delete peer) (te_peers e),
       te_failed_peers := Some (insert peer (case te_failed_peers e of None \<Rightarrow> {} | Some F \<Rightarrow> F))\<rparr>)"

definition set_state_locked :: "catalog \<Rightarrow> ref \<Rightarrow> fetch_state \<Rightarrow> catalog" where
  "set_state_locked c r state =
     (let old = te_fetch_state (c_heap c r);
          counts1 = (c_state_counts c)(old := c_state_counts c old - 1);
          c1 = upd_entry (c\<lparr>c_state_counts := counts1\<rparr>) r (te_fetch_state_update (\<lambda>_. state))
      in c1\<lparr>c_state_counts := counts1(state := counts1 state + 1)\<rparr>)"

definition index_entry_locked :: "catalog \<Rightarrow> ref \<Rightarrow> catalog" where
  "index_entry_locked c r =
     (let e = c_heap c r; h = te_info_hash e;
          pending = te_fetch_state e = FETCH_PENDING;
          ready = pending \<and> te_database_checked e;
          c1 = c\<lparr>c_needs_check :=
            (if pending \<and> \<not> te_database_checked e then od_setdefault h r (c_needs_check c)
             else AList.delete h (c_needs_check c))\<rparr>;
          c2 = c1\<lparr>c_fetchable :=
            (if ready \<and> has_peers e then AList.update h r (c_fetchable c1)
             else AList.delete h (c_fetchable c1))\<rparr>
      in c2\<lparr>c_needs_lookup :=
            (if ready \<and> \<not> has_peers e \<and> \<not> te_lookup_in_progress e \<and> te_lookups_started e < c_max_lookups c
             then od_setdefault h r (c_needs_lookup c2)
             else AList.delete h (c_needs_lookup c2))\<rparr>)"

definition get_or_create_locked :: "catalog \<Rightarrow> bytes \<Rightarrow> real \<Rightarrow> ref \<times> bool \<times> catalog" where
  "get_or_create_locked c info_hash now =
     (case map_of (c_entries c) info_hash of
        Some r \<Rightarrow> (r, False, c)
      | None \<Rightarrow>
          let r = c_next_ref c;
              e = (new_entry info_hash now)\<lparr>te_database_checked := \<not> c_check_database c\<rparr>
          in (r, True,
              c\<lparr>c_heap := (c_heap c)(r := e), c_next_ref := Suc r,
                c_entries := AList.update info_hash r (c_entries c),
                c_state_counts := (c_state_counts c)(FETCH_PENDING := c_state_counts c FETCH_PENDING + 1),
                c_discovered := c_discovered c + 1\<rparr>))"

definition add_orphan_locked :: "catalog \<Rightarrow> ref \<Rightarrow> catalog" where
  "add_orphan_locked c r =
     (let orphans = c_orphan_counters c @ [r]
      in if length orphans > MAX_ORPHAN_COUNTERS
         then c\<lparr>c_orphan_counters := tl orphans, c_index_dropped := c_index_dropped c + 1\<rparr>
         else c\<lparr>c_orphan_counters := orphans\<rparr>)"

definition forget_known_locked :: "catalog \<Rightarrow> ref \<Rightarrow> catalog" where
  "forget_known_locked c r =
     (if te_known_from_database (c_heap c r)
      then (upd_entry c r (te_known_from_database_update (\<lambda>_. False)))\<lparr>c_known_done := c_known_done c - 1\<rparr>
      else c)"

definition md_size :: "metadata_obj option \<Rightarrow> int" where
  "md_size m = (case m of None \<Rightarrow> 0 | Some obj \<Rightarrow> md_total_size (snd obj))"

definition drop_unwritten_metadata_locked :: "catalog \<Rightarrow> ref \<Rightarrow> catalog" where
  "drop_unwritten_metadata_locked c r =
     (let e = c_heap c r; h = te_info_hash e
      in if map_of (c_entries c) h = Some r \<and> te_metadata e \<noteq> None \<and> te_fetch_state e = FETCH_DONE
         then let c1 = c\<lparr>c_metadata_bytes := c_metadata_bytes c - md_size (te_metadata e)\<rparr>;
                  c2 = upd_entry c1 r (\<lambda>e. e\<lparr>te_metadata := None, te_database_checked := True\<rparr>);
                  c3 = c2\<lparr>c_fetched := AList.delete h (c_fetched c2)\<rparr>;
                  c4 = set_state_locked c3 r FETCH_PENDING
              in index_entry_locked c4 r
         else c)"

definition queue_document_locked :: "catalog \<Rightarrow> ref \<Rightarrow> catalog" where
  "queue_document_locked c r =
     (let h = te_info_hash (c_heap c r);
          c1 = c\<lparr>c_index_counters := AList.delete h (c_index_counters c)\<rparr>
      in if h \<in> fst ` set (c_index_documents c1) then c1
         else let docs = c_index_documents c1 @ [(h, r)]
              in if length docs > c_index_max_pending c1
                 then drop_unwritten_metadata_locked
                   (c1\<lparr>c_index_documents := tl docs, c_index_dropped := c_index_dropped c1 + 1\<rparr>)
                   (snd (hd docs))
                 else c1\<lparr>c_index_documents := docs\<rparr>)"

definition release_metadata_locked :: "catalog \<Rightarrow> ref \<Rightarrow> catalog" where
  "release_metadata_locked c r =
     (let c1 = upd_entry c r (\<lambda>e. e\<lparr>te_metadata := None, te_in_database := True, te_peers := None,
                 te_failed_peers := None\<rparr>)
      in c1\<lparr>c_fetched := AList.delete (te_info_hash (c_heap c r)) (c_fetched c1)\<rparr>)"

section \<open>Eviction\<close>

text \<open>The victims in the order they are removed, then the body of the removal loop.\<close>

definition eviction_victims :: "catalog \<Rightarrow> ref list" where
  "eviction_victims c =
     (let wanted = max 1 (c_max_entries c div EVICTION_DIVISOR);
          heap = c_heap c;
          refs = map snd (c_entries c);
          victims = take wanted (filter (\<lambda>r. te_metadata (heap r) = None \<and> te_seen_count (heap r) \<le> 1
                      \<and> \<not> has_peers (heap r) \<and> is_evictable (heap r)) refs)
      in if length victims < wanted
         then let taken = (\<lambda>r. te_info_hash (heap r)) ` set victims;
                  remaining = filter (\<lambda>r. te_info_hash (heap r) \<notin> taken \<and> is_evictable (heap r)) refs
              in victims @ nsmallest (wanted - length victims) (\<lambda>r. eviction_key (heap r)) remaining
         else victims)"

definition evict_one :: "catalog \<Rightarrow> ref \<Rightarrow> catalog" where
  "evict_one c r =
     (let e = c_heap c r; h = te_info_hash e;
          c1 = c\<lparr>c_entries := AList.delete h (c_entries c), c_fetched := AList.delete h (c_fetched c),
                 c_fetchable := AList.delete h (c_fetchable c),
                 c_needs_lookup := AList.delete h (c_needs_lookup c),
                 c_needs_check := AList.delete h (c_needs_check c),
                 c_index_counters := AList.delete h (c_index_counters c)\<rparr>;
          c2 = (if te_index_base e \<noteq> None
                   \<and> (te_seen_count e > te_flushed_seen e \<or> te_announce_count e > te_flushed_announce e)
                then add_orphan_locked c1 r else c1);
          c3 = (if te_fetch_state e = FETCH_DONE \<and> te_metadata e \<noteq> None
                then c2\<lparr>c_metadata_bytes := c_metadata_bytes c2 - md_size (te_metadata e)\<rparr> else c2);
          c4 = forget_known_locked c3 r
      in c4\<lparr>c_state_counts :=
            (c_state_counts c4)(te_fetch_state e := c_state_counts c4 (te_fetch_state e) - 1)\<rparr>)"

definition evict_locked :: "catalog \<Rightarrow> catalog" where
  "evict_locked c =
     (let victims = eviction_victims c; c1 = foldl evict_one c victims
      in c1\<lparr>c_evicted := c_evicted c1 + length victims\<rparr>)"

section \<open>Recording sightings\<close>

definition record_locked :: "catalog \<Rightarrow> bytes \<Rightarrow> sighting_source \<Rightarrow> address option \<Rightarrow> real \<Rightarrow> bool \<times> catalog" where
  "record_locked c info_hash source peer moment =
     (let (r, created, c1) = get_or_create_locked c info_hash moment;
          c2 = upd_entry c1 r (\<lambda>e. e\<lparr>te_seen_count := te_seen_count e + 1,
                 te_last_seen := max (te_last_seen e) moment,
                 te_announce_count := te_announce_count e + (if source = SOURCE_ANNOUNCE_PEER then 1 else 0)\<rparr>);
          c3 = (case peer of
                  None \<Rightarrow> c2
                | Some p \<Rightarrow> if te_fetch_state (c_heap c2 r) \<noteq> FETCH_DONE then snd (add_peer_locked c2 r p) else c2);
          c4 = index_entry_locked (c3\<lparr>c_needs_lookup := AList.delete info_hash (c_needs_lookup c3)\<rparr>) r;
          c5 = (if c_index_tracking c4 \<and> (te_metadata (c_heap c4 r) \<noteq> None \<or> te_in_database (c_heap c4 r))
                then c4\<lparr>c_index_counters := od_setdefault info_hash r (c_index_counters c4)\<rparr> else c4);
          c6 = c5\<lparr>c_observations := c_observations c5 + 1\<rparr>
      in (created, if length (c_entries c6) > c_max_entries c6 then evict_locked c6 else c6))"

definition record_hash ::
    "catalog \<Rightarrow> bytes \<Rightarrow> sighting_source \<Rightarrow> address option \<Rightarrow> real \<Rightarrow> real option \<Rightarrow> bool \<times> catalog" where
  "record_hash c info_hash source peer clock now =
     record_locked c info_hash source peer (moment_or_now clock now)"

text \<open>The loop of \<open>record_hashes\<close>, with the number of created entries so far.\<close>

fun record_loop :: "catalog \<Rightarrow> bytes list \<Rightarrow> sighting_source \<Rightarrow> real \<Rightarrow> nat \<Rightarrow> nat \<times> catalog" where
  "record_loop c [] source moment created = (created, c)"
| "record_loop c (info_hash # info_hashes) source moment created =
     (let (new, c1) = record_locked c info_hash source None moment
      in record_loop c1 info_hashes source moment (created + (if new then 1 else 0)))"

definition record_hashes ::
    "catalog \<Rightarrow> bytes list \<Rightarrow> sighting_source \<Rightarrow> real \<Rightarrow> real option \<Rightarrow> nat \<times> catalog" where
  "record_hashes c info_hashes source clock now =
     record_loop c info_hashes source (moment_or_now clock now) 0"

fun add_peers_loop :: "catalog \<Rightarrow> ref \<Rightarrow> address list \<Rightarrow> nat \<Rightarrow> nat \<times> catalog" where
  "add_peers_loop c r [] added = (added, c)"
| "add_peers_loop c r (peer # peers) added =
     (let (new, c1) = add_peer_locked c r peer
      in add_peers_loop c1 r peers (added + (if new then 1 else 0)))"

definition add_peers :: "catalog \<Rightarrow> bytes \<Rightarrow> address list \<Rightarrow> nat \<times> catalog" where
  "add_peers c info_hash peers =
     (case map_of (c_entries c) info_hash of
        None \<Rightarrow> (0, c)
      | Some r \<Rightarrow> let (added, c1) = add_peers_loop c r peers 0 in (added, index_entry_locked c1 r))"

section \<open>Lookups\<close>

definition claim_lookup :: "catalog \<Rightarrow> ref \<Rightarrow> catalog" where
  "claim_lookup c r =
     index_entry_locked
       ((upd_entry c r (te_lookup_in_progress_update (\<lambda>_. True)))
          \<lparr>c_lookups_in_progress := c_lookups_in_progress c + 1\<rparr>) r"

definition hashes_needing_peers :: "catalog \<Rightarrow> nat \<Rightarrow> real \<Rightarrow> real option \<Rightarrow> bytes list \<times> catalog" where
  "hashes_needing_peers c limit clock now =
     (let moment = moment_or_now clock now;
          chosen = take limit (filter (\<lambda>r. te_next_lookup_time (c_heap c r) \<le> moment) (rev (map snd (c_needs_lookup c))));
          c1 = foldl claim_lookup c chosen
      in (map (\<lambda>r. te_info_hash (c_heap c1 r)) chosen, c1))"

definition release_lookup_claim :: "catalog \<Rightarrow> bytes \<Rightarrow> catalog" where
  "release_lookup_claim c info_hash =
     (case map_of (c_entries c) info_hash of
        None \<Rightarrow> c
      | Some r \<Rightarrow>
          if te_lookup_in_progress (c_heap c r)
          then index_entry_locked
            ((upd_entry c r (te_lookup_in_progress_update (\<lambda>_. False)))
               \<lparr>c_lookups_in_progress := c_lookups_in_progress c - 1\<rparr>) r
          else c)"

definition add_lookup_result :: "catalog \<Rightarrow> bytes \<Rightarrow> address list \<Rightarrow> real \<Rightarrow> real option \<Rightarrow> catalog" where
  "add_lookup_result c info_hash peers clock now =
     (let moment = moment_or_now clock now
      in case map_of (c_entries c) info_hash of
           None \<Rightarrow> c
         | Some r \<Rightarrow>
             let c1 = (if te_lookup_in_progress (c_heap c r)
                       then (upd_entry c r (te_lookup_in_progress_update (\<lambda>_. False)))
                              \<lparr>c_lookups_in_progress := c_lookups_in_progress c - 1\<rparr>
                       else c);
                 c2 = upd_entry c1 r (\<lambda>e. e\<lparr>te_lookups_started := te_lookups_started e + 1\<rparr>);
                 c3 = snd (add_peers_loop c2 r peers 0);
                 e3 = c_heap c3 r;
                 c4 = (if \<not> has_peers e3
                       then let c3a = upd_entry c3 r (te_next_lookup_time_update
                                  (\<lambda>_. moment + c_lookup_retry_seconds c * real (te_lookups_started e3)))
                            in if te_lookups_started e3 \<ge> c_max_lookups c \<and> te_fetch_state e3 = FETCH_PENDING
                               then set_state_locked
                                 (upd_entry c3a r (te_last_error_update (\<lambda>_. ''no_peers''))) r FETCH_FAILED
                               else c3a
                       else c3)
             in index_entry_locked c4 r)"

definition fetchable_count :: "catalog \<Rightarrow> nat" where
  "fetchable_count c = length (c_fetchable c)"

section \<open>Fetches\<close>

definition claim_fetch :: "catalog \<Rightarrow> ref \<Rightarrow> catalog" where
  "claim_fetch c r = index_entry_locked (set_state_locked c r FETCH_IN_PROGRESS) r"

fun claim_fetches :: "catalog \<Rightarrow> ref list \<Rightarrow> (bytes \<times> address list) list \<times> catalog" where
  "claim_fetches c [] = ([], c)"
| "claim_fetches c (r # rs) =
     (let c1 = claim_fetch c r;
          (result, c2) = claim_fetches c1 rs
      in ((te_info_hash (c_heap c1 r), peer_list (c_heap c1 r)) # result, c2))"

definition next_fetch_candidates :: "catalog \<Rightarrow> nat \<Rightarrow> (bytes \<times> address list) list \<times> catalog" where
  "next_fetch_candidates c limit =
     claim_fetches c (nlargest limit (\<lambda>r. rank_key (c_heap c r)) (map snd (c_fetchable c)))"

definition store_metadata :: "catalog \<Rightarrow> metadata_obj \<Rightarrow> real \<Rightarrow> real option \<Rightarrow> bool \<times> catalog" where
  "store_metadata c metadata clock now =
     (let (r, created, c1) = get_or_create_locked c (md_info_hash (snd metadata)) (moment_or_now clock now);
          e = c_heap c1 r;
          c2 = (if te_fetch_state e \<noteq> FETCH_DONE \<or> te_known_from_database e
                then c1\<lparr>c_metadata_bytes := c_metadata_bytes c1 + md_total_size (snd metadata)\<rparr> else c1);
          c3 = forget_known_locked c2 r;
          c4 = upd_entry c3 r (\<lambda>e. e\<lparr>te_metadata := Some metadata, te_last_error := []\<rparr>);
          c5 = set_state_locked c4 r FETCH_DONE;
          c6 = c5\<lparr>c_fetched := AList.update (te_info_hash e) r (c_fetched c5)\<rparr>;
          c7 = index_entry_locked c6 r
      in (created, if c_index_tracking c7 then queue_document_locked c7 r else c7))"

definition mark_fetch_failed ::
    "catalog \<Rightarrow> bytes \<Rightarrow> address list \<Rightarrow> string \<Rightarrow> real \<Rightarrow> real option \<Rightarrow> fetch_state \<times> catalog" where
  "mark_fetch_failed c info_hash tried_peers reason clock now =
     (let moment = moment_or_now clock now
      in case map_of (c_entries c) info_hash of
           None \<Rightarrow> (FETCH_FAILED, c)
         | Some r \<Rightarrow>
             let c1 = foldl (\<lambda>c peer. forget_peer_locked c r peer) c tried_peers;
                 c2 = upd_entry c1 r (\<lambda>e. e\<lparr>te_fetch_attempts := te_fetch_attempts e + 1, te_last_error := reason\<rparr>);
                 e = c_heap c2 r;
                 c3 = (if te_fetch_attempts e \<ge> c_max_fetch_attempts c2 then set_state_locked c2 r FETCH_FAILED
                       else if \<not> has_peers e \<and> te_lookups_started e \<ge> c_max_lookups c2 \<and> \<not> te_lookup_in_progress e
                       then set_state_locked (upd_entry c2 r (te_last_error_update (\<lambda>_. ''no_peers''))) r FETCH_FAILED
                       else let c2a = set_state_locked c2 r FETCH_PENDING
                            in if \<not> has_peers e then upd_entry c2a r (te_next_lookup_time_update (\<lambda>_. moment)) else c2a);
                 c4 = index_entry_locked c3 r
             in (te_fetch_state (c_heap c4 r), c4))"

definition release_fetch_claim :: "catalog \<Rightarrow> bytes \<Rightarrow> catalog" where
  "release_fetch_claim c info_hash =
     (case map_of (c_entries c) info_hash of
        None \<Rightarrow> c
      | Some r \<Rightarrow> if te_fetch_state (c_heap c r) = FETCH_IN_PROGRESS
                  then index_entry_locked (set_state_locked c r FETCH_PENDING) r else c)"

section \<open>Queries\<close>

record catalog_counts =
  cc_hashes_seen :: int
  cc_hashes_discovered :: int
  cc_observations :: int
  cc_with_metadata :: int
  cc_known_from_database :: int
  cc_metadata_in_memory :: int
  cc_metadata_bytes :: int
  cc_fetch_pending :: int
  cc_fetch_in_progress :: int
  cc_fetch_done :: int
  cc_fetch_failed :: int
  cc_fetchable :: int
  cc_lookups_in_progress :: int
  cc_evicted :: int
  cc_capacity :: int

definition snapshot_counts :: "catalog \<Rightarrow> catalog_counts" where
  "snapshot_counts c =
     \<lparr>cc_hashes_seen = int (length (c_entries c)), cc_hashes_discovered = int (c_discovered c),
      cc_observations = int (c_observations c),
      cc_with_metadata = c_state_counts c FETCH_DONE - c_known_done c,
      cc_known_from_database = c_known_done c, cc_metadata_in_memory = int (length (c_fetched c)),
      cc_metadata_bytes = c_metadata_bytes c, cc_fetch_pending = c_state_counts c FETCH_PENDING,
      cc_fetch_in_progress = c_state_counts c FETCH_IN_PROGRESS, cc_fetch_done = c_state_counts c FETCH_DONE,
      cc_fetch_failed = c_state_counts c FETCH_FAILED, cc_fetchable = int (length (c_fetchable c)),
      cc_lookups_in_progress = c_lookups_in_progress c, cc_evicted = int (c_evicted c),
      cc_capacity = int (c_max_entries c)\<rparr>"

text \<open>\<open>needle in text\<close>, and \<open>bytes.hex()\<close>.\<close>

definition contains_text :: "'a list \<Rightarrow> 'a list \<Rightarrow> bool" where
  "contains_text needle hay \<longleftrightarrow> list_ex (\<lambda>i. take (length needle) (drop i hay) = needle) [0..<Suc (length hay)]"

definition hex_digit :: "nat \<Rightarrow> char" where
  "hex_digit n = ''0123456789abcdef'' ! n"

definition hex_text :: "bytes \<Rightarrow> string" where
  "hex_text bs = concat (map (\<lambda>b. [hex_digit (unat b div 16), hex_digit (unat b mod 16)]) bs)"

datatype sort_field = SortName | SortSize | SortFileCount | SortSeenCount | SortAnnounceCount | SortLastSeen

text \<open>
  \<open>SORT_KEYS[sort](entry)\<close>: a text or a number, as a pair whose other component is
  constant, so that the keys of one sort field compare as in the source.
\<close>

definition SORT_KEYS :: "(ustr \<Rightarrow> ustr) \<Rightarrow> sort_field \<Rightarrow> torrent_entry \<Rightarrow> ustr \<times> real" where
  "SORT_KEYS lower sort_by e =
     (let md = snd (the (te_metadata e))
      in case sort_by of
           SortName \<Rightarrow> (lower (md_name md), 0)
         | SortSize \<Rightarrow> ([], of_int (md_total_size md))
         | SortFileCount \<Rightarrow> ([], of_int (md_file_count md))
         | SortSeenCount \<Rightarrow> ([], of_nat (te_seen_count e))
         | SortAnnounceCount \<Rightarrow> ([], of_nat (te_announce_count e))
         | SortLastSeen \<Rightarrow> ([], te_last_seen e))"

record search_record =
  sr_info_hash :: string
  sr_name :: ustr
  sr_size :: int
  sr_file_count :: int
  sr_seen_count :: int
  sr_announce_count :: int
  sr_first_seen :: real
  sr_last_seen :: real

definition search_record_locked :: "torrent_entry \<Rightarrow> search_record" where
  "search_record_locked e =
     (let md = snd (the (te_metadata e)); (seen, announce, first) = cumulative_counters e
      in \<lparr>sr_info_hash = hex_text (te_info_hash e), sr_name = md_name md, sr_size = md_total_size md,
          sr_file_count = md_file_count md, sr_seen_count = seen, sr_announce_count = announce,
          sr_first_seen = first, sr_last_seen = te_last_seen e\<rparr>)"

definition search_chosen ::
    "(ustr \<Rightarrow> ustr) \<Rightarrow> (ustr \<Rightarrow> ustr) \<Rightarrow> catalog \<Rightarrow> ustr \<Rightarrow> nat \<Rightarrow> sort_field option \<Rightarrow> bool \<Rightarrow> ref list" where
  "search_chosen lower strip c query limit sort_by descending =
     (let needle = lower (strip query);
          heap = c_heap c;
          matching = filter (\<lambda>r. needle = [] \<or> contains_text needle (md_search_text (snd (the (te_metadata (heap r))))))
                       (map snd (c_fetched c))
      in case sort_by of
           None \<Rightarrow> take limit (sort_desc (\<lambda>r. rank_key (heap r)) matching)
         | Some field \<Rightarrow>
             let key = (\<lambda>r. (SORT_KEYS lower field (heap r), te_seen_count (heap r), te_last_seen (heap r)))
             in take limit (if descending then sort_desc key matching else sort_key key matching))"

definition catalog_search ::
    "(ustr \<Rightarrow> ustr) \<Rightarrow> (ustr \<Rightarrow> ustr) \<Rightarrow> catalog \<Rightarrow> ustr \<Rightarrow> nat \<Rightarrow> sort_field option \<Rightarrow> bool \<Rightarrow> search_record list" where
  "catalog_search lower strip c query limit sort_by descending =
     map (\<lambda>r. search_record_locked (c_heap c r)) (search_chosen lower strip c query limit sort_by descending)"

record metadata_detail =
  dm_name :: ustr
  dm_size :: int
  dm_piece_length :: int
  dm_file_count :: int
  dm_files :: "torrent_file list"
  dm_is_private :: bool
  dm_fetched_at :: real
  dm_source_peer :: "address option"

record detail_record =
  dr_info_hash :: string
  dr_seen_count :: int
  dr_announce_count :: int
  dr_first_seen :: real
  dr_last_seen :: real
  dr_fetch_state :: fetch_state
  dr_fetch_attempts :: nat
  dr_last_error :: string
  dr_lookups_started :: nat
  dr_peers :: "address list"
  dr_metadata :: "metadata_detail option"

definition detail_record_locked :: "torrent_entry \<Rightarrow> detail_record" where
  "detail_record_locked e =
     (let (seen, announce, first) = cumulative_counters e
      in \<lparr>dr_info_hash = hex_text (te_info_hash e), dr_seen_count = seen, dr_announce_count = announce,
          dr_first_seen = first, dr_last_seen = te_last_seen e, dr_fetch_state = te_fetch_state e,
          dr_fetch_attempts = te_fetch_attempts e, dr_last_error = te_last_error e,
          dr_lookups_started = te_lookups_started e, dr_peers = peer_list e,
          dr_metadata = map_option (\<lambda>obj. let md = snd obj in
            \<lparr>dm_name = md_name md, dm_size = md_total_size md, dm_piece_length = md_piece_length md,
             dm_file_count = md_file_count md, dm_files = md_files md, dm_is_private = md_is_private md,
             dm_fetched_at = md_fetched_at md, dm_source_peer = md_source_peer md\<rparr>) (te_metadata e)\<rparr>)"

definition torrent_detail :: "catalog \<Rightarrow> bytes \<Rightarrow> detail_record option" where
  "torrent_detail c info_hash =
     map_option (\<lambda>r. detail_record_locked (c_heap c r)) (map_of (c_entries c) info_hash)"

section \<open>The search index\<close>

definition enable_index_tracking :: "catalog \<Rightarrow> nat \<Rightarrow> bool \<Rightarrow> catalog" where
  "enable_index_tracking c max_pending check_database =
     c\<lparr>c_index_tracking := True, c_index_max_pending := max_pending, c_check_database := check_database\<rparr>"

definition drain_index_documents :: "catalog \<Rightarrow> nat \<Rightarrow> index_snapshot list \<times> catalog" where
  "drain_index_documents c limit =
     (map (\<lambda>p. index_snapshot_of c (snd p)) (take limit (c_index_documents c)),
      c\<lparr>c_index_documents := drop limit (c_index_documents c)\<rparr>)"

text \<open>The two loops of \<open>drain_index_counters\<close>: over the orphans, then over the counters.\<close>

fun drain_orphans :: "catalog \<Rightarrow> ref list \<Rightarrow> nat \<Rightarrow> index_snapshot list \<Rightarrow> index_snapshot list \<times> ref list" where
  "drain_orphans c [] limit result = (result, [])"
| "drain_orphans c (r # rs) limit result =
     (if \<not> length result < limit then (result, r # rs)
      else let snapshot = index_snapshot_of c r
           in drain_orphans c rs limit
                (if is_seen_delta snapshot \<noteq> 0 \<or> is_announce_delta snapshot \<noteq> 0 then result @ [snapshot] else result))"

lemma index_counters_unchanged [simp]:
  "c_index_counters (upd_entry c r f) = c_index_counters c"
  "c_index_counters (set_state_locked c r st) = c_index_counters c"
  "c_index_counters (index_entry_locked c r) = c_index_counters c"
  "c_index_counters (drop_unwritten_metadata_locked c r) = c_index_counters c"
  by (simp_all add: upd_entry_def set_state_locked_def index_entry_locked_def drop_unwritten_metadata_locked_def Let_def)

lemma index_counters_queue [simp]:
  "c_index_counters (queue_document_locked c r) = AList.delete (te_info_hash (c_heap c r)) (c_index_counters c)"
  by (simp add: queue_document_locked_def Let_def)

function drain_counters :: "catalog \<Rightarrow> nat \<Rightarrow> index_snapshot list \<Rightarrow> index_snapshot list \<times> catalog" where
  "drain_counters c limit result =
     (case c_index_counters c of
        [] \<Rightarrow> (result, c)
      | (info_hash, r) # counters \<Rightarrow>
          if \<not> length result < limit then (result, c)
          else let c1 = c\<lparr>c_index_counters := counters\<rparr>; e = c_heap c1 r
               in if te_index_base e = None
                  then drain_counters (if te_metadata e \<noteq> None then queue_document_locked c1 r else c1) limit result
                  else if te_seen_count e > te_flushed_seen e \<or> te_announce_count e > te_flushed_announce e
                  then drain_counters c1 limit (result @ [index_snapshot_of c1 r])
                  else drain_counters c1 limit result)"
  by pat_completeness auto
termination drain_counters
  by (relation "measure (\<lambda>(c, limit, result). length (c_index_counters c))")
    (auto simp: length_delete_le le_imp_less_Suc)

declare drain_counters.simps [simp del]

definition drain_index_counters :: "catalog \<Rightarrow> nat \<Rightarrow> index_snapshot list \<times> catalog" where
  "drain_index_counters c limit =
     (let (result, orphans) = drain_orphans c (c_orphan_counters c) limit []
      in drain_counters (c\<lparr>c_orphan_counters := orphans\<rparr>) limit result)"

definition requeue_index_documents :: "catalog \<Rightarrow> index_snapshot list \<Rightarrow> catalog" where
  "requeue_index_documents c snapshots =
     c\<lparr>c_index_documents :=
        foldl (\<lambda>docs s. if is_info_hash s \<in> fst ` set docs then docs else (is_info_hash s, is_entry s) # docs)
          (c_index_documents c) (rev snapshots)\<rparr>"

definition requeue_index_counter :: "catalog \<Rightarrow> index_snapshot \<Rightarrow> catalog" where
  "requeue_index_counter c s =
     (if map_of (c_entries c) (is_info_hash s) = Some (is_entry s)
      then c\<lparr>c_index_counters := od_setdefault (is_info_hash s) (is_entry s) (c_index_counters c)\<rparr>
      else add_orphan_locked c (is_entry s))"

definition requeue_index_counters :: "catalog \<Rightarrow> index_snapshot list \<Rightarrow> catalog" where
  "requeue_index_counters c snapshots = foldl requeue_index_counter c snapshots"

text \<open>\<open>entry.flushed_seen += seen_delta\<close> and the same for announces.\<close>

definition add_flushed :: "catalog \<Rightarrow> index_snapshot \<Rightarrow> catalog" where
  "add_flushed c s =
     upd_entry c (is_entry s) (\<lambda>e. e\<lparr>te_flushed_seen := nat (int (te_flushed_seen e) + is_seen_delta s),
       te_flushed_announce := nat (int (te_flushed_announce e) + is_announce_delta s)\<rparr>)"

definition mark_counters_written :: "catalog \<Rightarrow> index_snapshot list \<Rightarrow> catalog" where
  "mark_counters_written c snapshots = foldl add_flushed c snapshots"

definition set_index_base :: "catalog \<Rightarrow> bytes \<Rightarrow> index_base \<Rightarrow> catalog" where
  "set_index_base c info_hash base =
     (case map_of (c_entries c) info_hash of
        None \<Rightarrow> c
      | Some r \<Rightarrow> upd_entry c r (te_index_base_update (\<lambda>_. Some base)))"

definition mark_index_written :: "catalog \<Rightarrow> index_snapshot \<Rightarrow> index_base \<Rightarrow> catalog" where
  "mark_index_written c s base =
     (let c1 = add_flushed c s; h = is_info_hash s; r = is_entry s
      in if map_of (c_entries c1) h = Some r
         then let c2 = upd_entry c1 r (te_index_base_update (\<lambda>_. Some base)); e = c_heap c2 r
              in if map_option fst (te_metadata e) = map_option fst (is_metadata s)
                 then let c3 = (if te_info_hash e \<in> fst ` set (c_index_documents c2)
                        then c2\<lparr>c_index_documents := AList.delete (te_info_hash e) (c_index_documents c2),
                                c_index_counters := od_setdefault (te_info_hash e) r (c_index_counters c2)\<rparr>
                        else c2)
                      in release_metadata_locked c3 r
                 else c2
         else c1)"

definition check_off :: "catalog \<Rightarrow> ref \<Rightarrow> catalog" where
  "check_off c r = index_entry_locked (upd_entry c r (te_database_checked_update (\<lambda>_. True))) r"

definition set_database_check :: "catalog \<Rightarrow> bool \<Rightarrow> catalog" where
  "set_database_check c enabled =
     (let c1 = c\<lparr>c_check_database := enabled\<rparr>
      in if enabled then c1 else foldl check_off c1 (map snd (c_needs_check c1)))"

definition pending_database_checks :: "catalog \<Rightarrow> nat \<Rightarrow> bytes list" where
  "pending_database_checks c limit = take limit (map fst (c_needs_check c))"

definition apply_database_check :: "(bytes \<Rightarrow> index_base option) \<Rightarrow> catalog \<Rightarrow> bytes \<Rightarrow> catalog" where
  "apply_database_check found c info_hash =
     (case map_of (c_needs_check c) info_hash of
        None \<Rightarrow> c
      | Some r \<Rightarrow>
          let c1 = c\<lparr>c_needs_check := AList.delete info_hash (c_needs_check c)\<rparr>
          in if te_database_checked (c_heap c1 r) then c1
             else let c2 = upd_entry c1 r (te_database_checked_update (\<lambda>_. True));
                      c3 = (if found info_hash \<noteq> None \<and> te_fetch_state (c_heap c2 r) = FETCH_PENDING
                            then let c2a = upd_entry c2 r (\<lambda>e. e\<lparr>te_index_base := found info_hash, te_in_database := True,
                                             te_peers := None, te_failed_peers := None, te_known_from_database := True\<rparr>);
                                     c2b = set_state_locked (c2a\<lparr>c_known_done := c_known_done c2a + 1\<rparr>) r FETCH_DONE
                                 in if c_index_tracking c2b
                                    then c2b\<lparr>c_index_counters := od_setdefault info_hash r (c_index_counters c2b)\<rparr>
                                    else c2b
                            else c2)
                  in index_entry_locked c3 r)"

definition apply_database_checks :: "catalog \<Rightarrow> bytes list \<Rightarrow> (bytes \<Rightarrow> index_base option) \<Rightarrow> catalog" where
  "apply_database_checks c info_hashes found = foldl (apply_database_check found) c info_hashes"

definition reset_index_base :: "catalog \<Rightarrow> bytes \<Rightarrow> catalog" where
  "reset_index_base c info_hash =
     (case map_of (c_entries c) info_hash of
        None \<Rightarrow> c
      | Some r \<Rightarrow>
          let c1 = upd_entry c r (\<lambda>e. e\<lparr>te_index_base := None, te_flushed_seen := 0, te_flushed_announce := 0\<rparr>);
              c2 = c1\<lparr>c_index_counters := AList.delete info_hash (c_index_counters c1)\<rparr>;
              e = c_heap c2 r
          in if te_metadata e \<noteq> None then queue_document_locked c2 r
             else if te_in_database e
             then let c3 = upd_entry c2 r (\<lambda>e. e\<lparr>te_in_database := False, te_database_checked := True\<rparr>);
                      c4 = forget_known_locked c3 r;
                      c5 = (if te_fetch_state (c_heap c4 r) = FETCH_DONE then set_state_locked c4 r FETCH_PENDING else c4)
                  in index_entry_locked c5 r
             else c2)"

text \<open>\<open>index_backlog\<close>: documents, counters, dropped.\<close>

definition index_backlog :: "catalog \<Rightarrow> nat \<times> nat \<times> nat" where
  "index_backlog c =
     (length (c_index_documents c), length (c_index_counters c) + length (c_orphan_counters c), c_index_dropped c)"

section \<open>The assertions every operation ends with\<close>

text \<open>\<open>_assert_invariants_locked\<close>, as the condition it checks.\<close>

definition assert_invariants_locked :: "catalog \<Rightarrow> bool" where
  "assert_invariants_locked c \<longleftrightarrow>
     (\<Sum>s \<leftarrow> [FETCH_PENDING, FETCH_IN_PROGRESS, FETCH_DONE, FETCH_FAILED]. c_state_counts c s) = int (length (c_entries c))
     \<and> int (length (c_fetched c)) \<le> c_state_counts c FETCH_DONE
     \<and> c_lookups_in_progress c \<ge> 0
     \<and> length (c_needs_lookup c) + length (c_fetchable c) \<le> length (c_entries c)"

end
