(* ===== verification/Catalog_Invariant.thy ===== *)
theory Catalog_Invariant
  imports Torrent_Catalog
begin

text \<open>
  The invariant of the catalog and the steps it is preserved by. The invariant says
  more than \<open>_assert_invariants_locked\<close>: the counters are the true counts, each index
  dictionary holds exactly the entries its name promises (and the same objects as
  \<open>_entries\<close>), the documents to write have metadata, and every entry is well formed.
  \<open>cat_but X\<close> is the invariant with the index conditions suspended for the hashes in
  \<open>X\<close>: the helpers of the source break them for one hash and \<open>_index_entry_locked\<close>
  restores them.
\<close>

declare map_of_eq_Some_iff [simp del] Some_eq_map_of_iff [simp del]

section \<open>The invariant\<close>

definition wants_check :: "torrent_entry \<Rightarrow> bool" where
  "wants_check e \<longleftrightarrow> te_fetch_state e = FETCH_PENDING \<and> \<not> te_database_checked e"

definition wants_fetch :: "torrent_entry \<Rightarrow> bool" where
  "wants_fetch e \<longleftrightarrow> te_fetch_state e = FETCH_PENDING \<and> te_database_checked e \<and> has_peers e"

definition wants_lookup :: "nat \<Rightarrow> torrent_entry \<Rightarrow> bool" where
  "wants_lookup max_lookups e \<longleftrightarrow> te_fetch_state e = FETCH_PENDING \<and> te_database_checked e \<and> \<not> has_peers e
     \<and> \<not> te_lookup_in_progress e \<and> te_lookups_started e < max_lookups"

text \<open>The entry of a hash, when it satisfies a condition.\<close>

definition sel :: "catalog \<Rightarrow> (torrent_entry \<Rightarrow> bool) \<Rightarrow> bytes \<Rightarrow> ref option" where
  "sel c P h = (case map_of (c_entries c) h of None \<Rightarrow> None | Some r \<Rightarrow> if P (c_heap c r) then Some r else None)"

definition key_ok :: "catalog \<Rightarrow> bytes \<Rightarrow> bool" where
  "key_ok c h \<longleftrightarrow> map_of (c_needs_check c) h = sel c wants_check h
     \<and> map_of (c_fetchable c) h = sel c wants_fetch h
     \<and> map_of (c_needs_lookup c) h = sel c (wants_lookup (c_max_lookups c)) h"

definition fetched_ok :: "catalog \<Rightarrow> bytes \<Rightarrow> bool" where
  "fetched_ok c h \<longleftrightarrow> map_of (c_fetched c) h = sel c (\<lambda>e. te_metadata e \<noteq> None) h"

definition peers_ok :: "nat \<Rightarrow> torrent_entry \<Rightarrow> bool" where
  "peers_ok m e \<longleftrightarrow> (case te_peers e of None \<Rightarrow> True | Some d \<Rightarrow> od_ok d \<and> length d \<le> m
     \<and> (case te_failed_peers e of None \<Rightarrow> True | Some F \<Rightarrow> fst ` set d \<inter> F = {}))"

definition entry_ok :: "nat \<Rightarrow> torrent_entry \<Rightarrow> bool" where
  "entry_ok m e \<longleftrightarrow> (te_metadata e \<noteq> None \<longrightarrow> te_fetch_state e = FETCH_DONE)
     \<and> (te_known_from_database e \<longrightarrow> te_fetch_state e = FETCH_DONE \<and> te_metadata e = None)
     \<and> peers_ok m e"

definition entry_ok_at :: "catalog \<Rightarrow> bytes \<Rightarrow> bool" where
  "entry_ok_at c h \<longleftrightarrow> (\<forall>r. map_of (c_entries c) h = Some r \<longrightarrow> entry_ok (c_max_peers_per_hash c) (c_heap c r))"

text \<open>The number of entries that satisfy a condition.\<close>

definition tally :: "catalog \<Rightarrow> (torrent_entry \<Rightarrow> bool) \<Rightarrow> int" where
  "tally c P = (\<Sum>p \<leftarrow> c_entries c. of_bool (P (c_heap c (snd p))))"

definition counts_ok :: "catalog \<Rightarrow> bool" where
  "counts_ok c \<longleftrightarrow> (\<forall>s. c_state_counts c s = tally c (\<lambda>e. te_fetch_state e = s))
     \<and> c_lookups_in_progress c = tally c te_lookup_in_progress
     \<and> c_known_done c = tally c te_known_from_database"

definition shape_ok :: "catalog \<Rightarrow> bool" where
  "shape_ok c \<longleftrightarrow> od_ok (c_entries c) \<and> od_ok (c_fetched c) \<and> od_ok (c_fetchable c) \<and> od_ok (c_needs_lookup c)
     \<and> od_ok (c_needs_check c) \<and> od_ok (c_index_counters c) \<and> od_ok (c_index_documents c)
     \<and> map_of (c_fetched c) \<subseteq>\<^sub>m map_of (c_entries c) \<and> map_of (c_fetchable c) \<subseteq>\<^sub>m map_of (c_entries c)
     \<and> map_of (c_needs_lookup c) \<subseteq>\<^sub>m map_of (c_entries c) \<and> map_of (c_needs_check c) \<subseteq>\<^sub>m map_of (c_entries c)
     \<and> (\<forall>h r. map_of (c_entries c) h = Some r \<longrightarrow> r < c_next_ref c \<and> te_info_hash (c_heap c r) = h)
     \<and> 1 \<le> c_max_peers_per_hash c"

definition queues_ok :: "catalog \<Rightarrow> bool" where
  "queues_ok c \<longleftrightarrow> map_of (c_index_counters c) \<subseteq>\<^sub>m map_of (c_entries c)
     \<and> (\<forall>h r. map_of (c_index_documents c) h = Some r \<longrightarrow>
          r < c_next_ref c \<and> te_info_hash (c_heap c r) = h \<and> te_metadata (c_heap c r) \<noteq> None)"

definition cat_but :: "bytes set \<Rightarrow> catalog \<Rightarrow> bool" where
  "cat_but X c \<longleftrightarrow> shape_ok c \<and> counts_ok c \<and> queues_ok c
     \<and> (\<forall>h. h \<notin> X \<longrightarrow> key_ok c h \<and> fetched_ok c h \<and> entry_ok_at c h)"

abbreviation cat_ok :: "catalog \<Rightarrow> bool" where
  "cat_ok c \<equiv> cat_but {} c"

section \<open>Counting\<close>

lemma sum_list_heap_upd:
  fixes g :: "'e \<Rightarrow> int"
  assumes "distinct (map snd es)" "r \<in> snd ` set es"
  shows "(\<Sum>p \<leftarrow> es. g ((H(r := e)) (snd p))) = (\<Sum>p \<leftarrow> es. g (H (snd p))) - g (H r) + g e"
  using assms
proof (induction es)
  case (Cons p es)
  show ?case
  proof (cases "snd p = r")
    case True
    then have "r \<notin> snd ` set es" using Cons.prems by auto
    then have "(\<Sum>p \<leftarrow> es. g ((H(r := e)) (snd p))) = (\<Sum>p \<leftarrow> es. g (H (snd p)))"
      by (intro arg_cong[where f = sum_list] map_cong) (auto simp: image_iff)
    with True show ?thesis by simp
  next
    case False
    with Cons show ?thesis by auto
  qed
qed simp

lemma sum_list_delete:
  fixes g :: "'e \<Rightarrow> int"
  assumes "od_ok es" "map_of es h = Some r"
  shows "(\<Sum>p \<leftarrow> AList.delete h es. g (H (snd p))) = (\<Sum>p \<leftarrow> es. g (H (snd p))) - g (H r)"
  using assms
proof (induction es)
  case (Cons p es)
  show ?case
  proof (cases "fst p = h")
    case True
    then have "AList.delete h es = es" using Cons.prems
      by (auto simp: AList.delete_eq filter_id_conv rev_image_eqI)
    with True Cons.prems show ?thesis by (cases p) auto
  next
    case False
    with Cons show ?thesis by (cases p) auto
  qed
qed simp

lemma refs_distinct:
  assumes "shape_ok c"
  shows "distinct (map snd (c_entries c))"
proof -
  have od: "od_ok (c_entries c)" and h: "\<And>h r. map_of (c_entries c) h = Some r \<Longrightarrow> te_info_hash (c_heap c r) = h"
    using assms by (auto simp: shape_ok_def)
  have "inj_on snd (set (c_entries c))"
  proof (rule inj_onI)
    fix p q assume "p \<in> set (c_entries c)" "q \<in> set (c_entries c)" and s: "snd p = snd q"
    then have "map_of (c_entries c) (fst p) = Some (snd p)" "map_of (c_entries c) (fst q) = Some (snd q)"
      using od by (metis map_of_is_SomeI prod.collapse)+
    with s h show "p = q" by (metis prod_eqI)
  qed
  moreover have "distinct (c_entries c)" using od by (simp add: distinct_map)
  ultimately show ?thesis by (simp add: distinct_map)
qed

lemma tally_upd:
  assumes "shape_ok c" "map_of (c_entries c) h = Some r"
  shows "tally (upd_entry c r f) P = tally c P - of_bool (P (c_heap c r)) + of_bool (P (f (c_heap c r)))"
  using sum_list_heap_upd[OF refs_distinct[OF assms(1)], of r "\<lambda>e. of_bool (P e)" "c_heap c" "f (c_heap c r)"]
    map_of_SomeD[OF assms(2)]
  by (force simp: tally_def upd_entry_def)

lemma tally_same:
  assumes "shape_ok c" "map_of (c_entries c) h = Some r" "P (f (c_heap c r)) = P (c_heap c r)"
  shows "tally (upd_entry c r f) P = tally c P"
  using tally_upd[OF assms(1,2), of f P] assms(3) by simp

lemma tally_nonneg: "0 \<le> tally c P"
  unfolding tally_def by (intro sum_list_nonneg) auto

section \<open>Steps on one entry\<close>

lemma other_ref:
  "shape_ok c \<Longrightarrow> map_of (c_entries c) h = Some r \<Longrightarrow> map_of (c_entries c) h' = Some r' \<Longrightarrow> h' \<noteq> h \<Longrightarrow> r' \<noteq> r"
  unfolding shape_ok_def by metis

lemma cat_butD:
  assumes "cat_but X c"
  shows "shape_ok c" "counts_ok c" "queues_ok c" "h \<notin> X \<Longrightarrow> key_ok c h" "h \<notin> X \<Longrightarrow> fetched_ok c h"
    "h \<notin> X \<Longrightarrow> entry_ok_at c h"
  using assms by (auto simp: cat_but_def)

lemma entry_hash: "cat_but X c \<Longrightarrow> map_of (c_entries c) h = Some r \<Longrightarrow> te_info_hash (c_heap c r) = h"
  by (auto dest: cat_butD(1) simp: shape_ok_def)

lemma cat_but_mono: "cat_but X c \<Longrightarrow> X \<subseteq> Y \<Longrightarrow> cat_but Y c"
  by (auto simp: cat_but_def)

text \<open>
  An assignment to the entry of \<open>h\<close>, with new counters: the conditions of the other hashes
  stay.
\<close>

lemma upd_cat_but:
  assumes inv: "cat_but X c" and at: "map_of (c_entries c) h = Some r"
    and hash: "te_info_hash (f (c_heap c r)) = te_info_hash (c_heap c r)"
    and docs: "te_metadata (f (c_heap c r)) \<noteq> None \<or> map_of (c_index_documents c) h \<noteq> Some r"
    and c': "c' = (upd_entry c r f)\<lparr>c_state_counts := sc, c_lookups_in_progress := l, c_known_done := k\<rparr>"
    and counts: "counts_ok c'"
  shows "cat_but (insert h X) c'"
proof -
  note shape = cat_butD(1)[OF inv]
  have heap: "c_heap c' r' = c_heap c r'" if "r' \<noteq> r" for r' using that by (simp add: c' upd_entry_def)
  have same: "c_entries c' = c_entries c" "c_fetched c' = c_fetched c" "c_fetchable c' = c_fetchable c"
    "c_needs_lookup c' = c_needs_lookup c" "c_needs_check c' = c_needs_check c"
    "c_index_counters c' = c_index_counters c" "c_index_documents c' = c_index_documents c"
    "c_next_ref c' = c_next_ref c" "c_max_peers_per_hash c' = c_max_peers_per_hash c" "c_max_lookups c' = c_max_lookups c"
    "c_heap c' r = f (c_heap c r)"
    by (simp_all add: c' upd_entry_def)
  have hash': "te_info_hash (c_heap c' r') = te_info_hash (c_heap c r')" for r'
    using hash heap same(11) by (cases "r' = r") auto
  have "shape_ok c'" using shape unfolding shape_ok_def same hash' .
  moreover have "queues_ok c'"
  proof -
    have "te_metadata (c_heap c' r') \<noteq> None" if "map_of (c_index_documents c) h' = Some r'" for h' r'
    proof (cases "r' = r")
      case True
      with that cat_butD(3)[OF inv] entry_hash[OF inv at] have "h' = h" by (auto simp: queues_ok_def)
      with True that docs show ?thesis by (simp add: same(11))
    next
      case False
      with that cat_butD(3)[OF inv] show ?thesis by (simp add: heap queues_ok_def)
    qed
    with cat_butD(3)[OF inv] show ?thesis unfolding queues_ok_def same hash' by blast
  qed
  moreover have "key_ok c' h' \<and> fetched_ok c' h' \<and> entry_ok_at c' h'" if h': "h' \<notin> insert h X" for h'
  proof -
    have "c_heap c' r' = c_heap c r'" if "map_of (c_entries c) h' = Some r'" for r'
      using other_ref[OF shape at that] h' heap by auto
    then have "sel c' P h' = sel c P h'" and "entry_ok_at c' h' = entry_ok_at c h'" for P
      by (auto simp: sel_def entry_ok_at_def same split: option.splits)
    with h' cat_butD(4-6)[OF inv, of h'] show ?thesis by (simp add: key_ok_def fetched_ok_def same)
  qed
  ultimately show ?thesis using counts by (simp add: cat_but_def)
qed

lemma tally_counts [simp]:
  "tally (c\<lparr>c_state_counts := sc\<rparr>) P = tally c P" "tally (c\<lparr>c_lookups_in_progress := l\<rparr>) P = tally c P"
  "tally (c\<lparr>c_known_done := k\<rparr>) P = tally c P" "tally (c\<lparr>c_metadata_bytes := b\<rparr>) P = tally c P"
  "tally (c\<lparr>c_fetched := d\<rparr>) P = tally c P" "tally (c\<lparr>c_fetchable := d\<rparr>) P = tally c P"
  "tally (c\<lparr>c_needs_lookup := d\<rparr>) P = tally c P" "tally (c\<lparr>c_needs_check := d\<rparr>) P = tally c P"
  "tally (c\<lparr>c_index_counters := d\<rparr>) P = tally c P" "tally (c\<lparr>c_index_documents := d\<rparr>) P = tally c P"
  "tally (c\<lparr>c_orphan_counters := rs\<rparr>) P = tally c P" "tally (c\<lparr>c_index_dropped := n\<rparr>) P = tally c P"
  by (simp_all add: tally_def)

text \<open>An assignment that no counter depends on.\<close>

lemma upd_plain:
  assumes inv: "cat_but X c" and at: "map_of (c_entries c) h = Some r"
    and same: "te_info_hash (f (c_heap c r)) = te_info_hash (c_heap c r)"
      "te_fetch_state (f (c_heap c r)) = te_fetch_state (c_heap c r)"
      "te_lookup_in_progress (f (c_heap c r)) = te_lookup_in_progress (c_heap c r)"
      "te_known_from_database (f (c_heap c r)) = te_known_from_database (c_heap c r)"
    and docs: "te_metadata (f (c_heap c r)) \<noteq> None \<or> map_of (c_index_documents c) h \<noteq> Some r"
  shows "cat_but (insert h X) (upd_entry c r f)"
proof (rule upd_cat_but[where f = f, OF inv at same(1) docs])
  show "upd_entry c r f = (upd_entry c r f)\<lparr>c_state_counts := c_state_counts c,
      c_lookups_in_progress := c_lookups_in_progress c, c_known_done := c_known_done c\<rparr>"
    by (simp add: upd_entry_def)
  have "tally (upd_entry c r f) P = tally c P" if "P (f (c_heap c r)) = P (c_heap c r)" for P
    using cat_butD(1)[OF inv] at that by (rule tally_same)
  with same cat_butD(2)[OF inv] show "counts_ok (upd_entry c r f)"
    by (simp add: counts_ok_def) (simp add: upd_entry_def)
qed

lemma set_state_cat_but:
  assumes inv: "cat_but X c" and at: "map_of (c_entries c) h = Some r"
    and docs: "te_metadata (c_heap c r) \<noteq> None \<or> map_of (c_index_documents c) h \<noteq> Some r"
  shows "cat_but (insert h X) (set_state_locked c r st)"
proof (rule upd_cat_but[OF inv at])
  let ?f = "te_fetch_state_update (\<lambda>_. st)"
  show "te_info_hash (?f (c_heap c r)) = te_info_hash (c_heap c r)" by simp
  show "te_metadata (?f (c_heap c r)) \<noteq> None \<or> map_of (c_index_documents c) h \<noteq> Some r" using docs by simp
  show "set_state_locked c r st = (upd_entry c r ?f)\<lparr>c_state_counts := c_state_counts (set_state_locked c r st),
      c_lookups_in_progress := c_lookups_in_progress c, c_known_done := c_known_done c\<rparr>"
    by (simp add: set_state_locked_def upd_entry_def Let_def)
  have t: "tally (set_state_locked c r st) P = tally (upd_entry c r ?f) P" for P
    by (simp add: tally_def set_state_locked_def upd_entry_def Let_def)
  have u: "tally (upd_entry c r ?f) P = tally c P - of_bool (P (c_heap c r)) + of_bool (P (?f (c_heap c r)))" for P
    using cat_butD(1)[OF inv] at by (rule tally_upd)
  from cat_butD(2)[OF inv] show "counts_ok (set_state_locked c r st)"
    unfolding counts_ok_def t u by (simp add: set_state_locked_def upd_entry_def Let_def)
qed

lemma flag_cat_but:
  assumes inv: "cat_but X c" and at: "map_of (c_entries c) h = Some r"
    and b: "te_lookup_in_progress (c_heap c r) = (\<not> b)"
    and l: "l = c_lookups_in_progress c + (if b then 1 else - 1)"
    and docs: "te_metadata (c_heap c r) \<noteq> None \<or> map_of (c_index_documents c) h \<noteq> Some r"
  shows "cat_but (insert h X) ((upd_entry c r (te_lookup_in_progress_update (\<lambda>_. b)))\<lparr>c_lookups_in_progress := l\<rparr>)"
proof (rule upd_cat_but[OF inv at])
  let ?f = "te_lookup_in_progress_update (\<lambda>_. b)"
  show "te_info_hash (?f (c_heap c r)) = te_info_hash (c_heap c r)" by simp
  show "te_metadata (?f (c_heap c r)) \<noteq> None \<or> map_of (c_index_documents c) h \<noteq> Some r" using docs by simp
  show "(upd_entry c r ?f)\<lparr>c_lookups_in_progress := l\<rparr> = (upd_entry c r ?f)\<lparr>c_state_counts := c_state_counts c,
      c_lookups_in_progress := l, c_known_done := c_known_done c\<rparr>"
    by (simp add: upd_entry_def)
  have u: "tally (upd_entry c r ?f) P = tally c P - of_bool (P (c_heap c r)) + of_bool (P (?f (c_heap c r)))" for P
    using cat_butD(1)[OF inv] at by (rule tally_upd)
  from cat_butD(2)[OF inv] b l show "counts_ok ((upd_entry c r ?f)\<lparr>c_lookups_in_progress := l\<rparr>)"
    unfolding counts_ok_def tally_counts u by (simp add: upd_entry_def)
qed

lemma known_cat_but:
  assumes inv: "cat_but X c" and at: "map_of (c_entries c) h = Some r"
    and b: "te_known_from_database (c_heap c r) = (\<not> te_known_from_database (f (c_heap c r)))"
    and same: "te_info_hash (f (c_heap c r)) = te_info_hash (c_heap c r)"
      "te_fetch_state (f (c_heap c r)) = te_fetch_state (c_heap c r)"
      "te_lookup_in_progress (f (c_heap c r)) = te_lookup_in_progress (c_heap c r)"
    and k: "k = c_known_done c + (if te_known_from_database (f (c_heap c r)) then 1 else - 1)"
    and docs: "te_metadata (f (c_heap c r)) \<noteq> None \<or> map_of (c_index_documents c) h \<noteq> Some r"
  shows "cat_but (insert h X) ((upd_entry c r f)\<lparr>c_known_done := k\<rparr>)"
proof (rule upd_cat_but[where f = f, OF inv at same(1) docs])
  show "(upd_entry c r f)\<lparr>c_known_done := k\<rparr> = (upd_entry c r f)\<lparr>c_state_counts := c_state_counts c,
      c_lookups_in_progress := c_lookups_in_progress c, c_known_done := k\<rparr>"
    by (simp add: upd_entry_def)
  have u: "tally (upd_entry c r f) P = tally c P - of_bool (P (c_heap c r)) + of_bool (P (f (c_heap c r)))" for P
    using cat_butD(1)[OF inv] at by (rule tally_upd)
  from cat_butD(2)[OF inv] b k same show "counts_ok ((upd_entry c r f)\<lparr>c_known_done := k\<rparr>)"
    unfolding counts_ok_def tally_counts u by (auto simp: upd_entry_def)
qed

lemma forget_known_cat_but:
  assumes "cat_but X c" "map_of (c_entries c) h = Some r"
    and "te_metadata (c_heap c r) \<noteq> None \<or> map_of (c_index_documents c) h \<noteq> Some r"
  shows "cat_but (insert h X) (forget_known_locked c r)"
  using known_cat_but[OF assms(1,2), of "te_known_from_database_update (\<lambda>_. False)"] assms
    cat_but_mono[OF assms(1), of "insert h X"]
  by (auto simp: forget_known_locked_def)

section \<open>Dictionaries\<close>

lemma setdefault_same:
  "d \<subseteq>\<^sub>m m \<Longrightarrow> m k = Some v \<Longrightarrow> (if k \<in> dom d then d else d(k \<mapsto> v)) = d(k \<mapsto> v)"
  by (auto simp: map_le_def fun_eq_iff dom_def)

lemma map_le_upd_same: "d \<subseteq>\<^sub>m m \<Longrightarrow> m k = Some v \<Longrightarrow> d(k \<mapsto> v) \<subseteq>\<^sub>m m"
  by (auto simp: map_le_def)

lemma map_le_del: "d \<subseteq>\<^sub>m m \<Longrightarrow> d(k := None) \<subseteq>\<^sub>m m"
  by (auto simp: map_le_def)

lemma index_entry_fields:
  assumes "shape_ok c" "map_of (c_entries c) h = Some r"
  defines "e \<equiv> c_heap c r" and "c' \<equiv> index_entry_locked c r"
  shows "map_of (c_needs_check c') = (map_of (c_needs_check c))(h := if wants_check e then Some r else None)"
    "map_of (c_fetchable c') = (map_of (c_fetchable c))(h := if wants_fetch e then Some r else None)"
    "map_of (c_needs_lookup c') = (map_of (c_needs_lookup c))(h := if wants_lookup (c_max_lookups c) e then Some r else None)"
proof -
  have h: "te_info_hash e = h" using assms by (simp add: shape_ok_def)
  have le: "map_of (c_needs_lookup c) \<subseteq>\<^sub>m map_of (c_entries c)" "map_of (c_needs_check c) \<subseteq>\<^sub>m map_of (c_entries c)"
    using assms(1) by (simp_all add: shape_ok_def)
  note sd = setdefault_same[OF le(1) assms(2)] setdefault_same[OF le(2) assms(2)]
  show "map_of (c_needs_check c') = (map_of (c_needs_check c))(h := if wants_check e then Some r else None)"
    "map_of (c_fetchable c') = (map_of (c_fetchable c))(h := if wants_fetch e then Some r else None)"
    "map_of (c_needs_lookup c') = (map_of (c_needs_lookup c))(h := if wants_lookup (c_max_lookups c) e then Some r else None)"
    using h unfolding c'_def e_def
    by (simp_all add: index_entry_locked_def Let_def dict_simps sd wants_check_def wants_fetch_def wants_lookup_def
        del: fun_upd_apply)
qed

lemma index_entry_same [simp]:
  "c_heap (index_entry_locked c r) = c_heap c" "c_entries (index_entry_locked c r) = c_entries c"
  "c_fetched (index_entry_locked c r) = c_fetched c" "c_next_ref (index_entry_locked c r) = c_next_ref c"
  "c_index_documents (index_entry_locked c r) = c_index_documents c"
  "c_max_peers_per_hash (index_entry_locked c r) = c_max_peers_per_hash c"
  "c_max_lookups (index_entry_locked c r) = c_max_lookups c"
  "c_state_counts (index_entry_locked c r) = c_state_counts c"
  "c_lookups_in_progress (index_entry_locked c r) = c_lookups_in_progress c"
  "c_known_done (index_entry_locked c r) = c_known_done c"
  "c_index_tracking (index_entry_locked c r) = c_index_tracking c"
  "c_max_entries (index_entry_locked c r) = c_max_entries c"
  by (simp_all add: index_entry_locked_def Let_def)

lemma index_entry_cat_but:
  assumes inv: "cat_but (insert h X) c" and at: "map_of (c_entries c) h = Some r"
    and ok: "h \<notin> X \<Longrightarrow> fetched_ok c h" "h \<notin> X \<Longrightarrow> entry_ok_at c h"
  shows "cat_but X (index_entry_locked c r)"
proof -
  let ?c = "index_entry_locked c r"
  note shape = cat_butD(1)[OF inv]
  note maps = index_entry_fields[OF shape at]
  have sel: "sel ?c P h' = sel c P h'" for P h' by (simp add: sel_def split: option.splits)
  have od: "od_ok (c_fetchable ?c)" "od_ok (c_needs_lookup ?c)" "od_ok (c_needs_check ?c)"
    using shape by (auto simp: shape_ok_def index_entry_locked_def Let_def dict_simps)
  have le: "map_of (c_fetchable ?c) \<subseteq>\<^sub>m map_of (c_entries c)" "map_of (c_needs_lookup ?c) \<subseteq>\<^sub>m map_of (c_entries c)"
    "map_of (c_needs_check ?c) \<subseteq>\<^sub>m map_of (c_entries c)"
    using shape at unfolding maps by (auto simp: shape_ok_def map_le_upd_same map_le_del)
  have "shape_ok ?c" using shape od le by (simp add: shape_ok_def)
  moreover have "tally ?c P = tally c P" for P by (simp add: tally_def)
  then have "counts_ok ?c" using cat_butD(2)[OF inv] by (simp add: counts_ok_def)
  moreover have "queues_ok ?c" using cat_butD(3)[OF inv] by (simp add: queues_ok_def)
  moreover have "key_ok ?c h' \<and> fetched_ok ?c h' \<and> entry_ok_at ?c h'" if "h' \<notin> X" for h'
  proof (cases "h' = h")
    case True
    with at that ok show ?thesis
      by (simp add: key_ok_def fetched_ok_def entry_ok_at_def sel maps) (simp add: sel_def)
  next
    case False
    with that cat_butD(4-6)[OF inv, of h'] show ?thesis
      by (simp add: key_ok_def fetched_ok_def entry_ok_at_def sel maps)
  qed
  ultimately show ?thesis by (simp add: cat_but_def)
qed

section \<open>Changes of the dictionaries and of other fields\<close>

lemma sel_same [simp]:
  "sel (c\<lparr>c_fetched := d\<rparr>) P h = sel c P h" "sel (c\<lparr>c_fetchable := d\<rparr>) P h = sel c P h"
  "sel (c\<lparr>c_needs_lookup := d\<rparr>) P h = sel c P h" "sel (c\<lparr>c_needs_check := d\<rparr>) P h = sel c P h"
  "sel (c\<lparr>c_index_counters := d\<rparr>) P h = sel c P h" "sel (c\<lparr>c_index_documents := d\<rparr>) P h = sel c P h"
  "sel (c\<lparr>c_observations := n\<rparr>) P h = sel c P h" "sel (c\<lparr>c_discovered := n\<rparr>) P h = sel c P h"
  "sel (c\<lparr>c_evicted := n\<rparr>) P h = sel c P h" "sel (c\<lparr>c_index_tracking := b\<rparr>) P h = sel c P h"
  "sel (c\<lparr>c_index_max_pending := n\<rparr>) P h = sel c P h" "sel (c\<lparr>c_orphan_counters := rs\<rparr>) P h = sel c P h"
  "sel (c\<lparr>c_index_dropped := n\<rparr>) P h = sel c P h" "sel (c\<lparr>c_check_database := b\<rparr>) P h = sel c P h"
  "sel (c\<lparr>c_metadata_bytes := i\<rparr>) P h = sel c P h"
  by (simp_all add: sel_def split: option.splits)

lemmas inv_defs = cat_but_def shape_ok_def counts_ok_def queues_ok_def key_ok_def fetched_ok_def entry_ok_at_def

lemma cat_but_fields [simp]:
  "cat_but X (c\<lparr>c_observations := n\<rparr>) = cat_but X c" "cat_but X (c\<lparr>c_discovered := n\<rparr>) = cat_but X c"
  "cat_but X (c\<lparr>c_evicted := n\<rparr>) = cat_but X c" "cat_but X (c\<lparr>c_index_tracking := b\<rparr>) = cat_but X c"
  "cat_but X (c\<lparr>c_index_max_pending := n\<rparr>) = cat_but X c" "cat_but X (c\<lparr>c_orphan_counters := rs\<rparr>) = cat_but X c"
  "cat_but X (c\<lparr>c_index_dropped := n\<rparr>) = cat_but X c" "cat_but X (c\<lparr>c_check_database := b\<rparr>) = cat_but X c"
  "cat_but X (c\<lparr>c_metadata_bytes := i\<rparr>) = cat_but X c"
  by (simp_all add: inv_defs tally_def)

lemma fetched_cat_but:
  assumes "cat_but X c" "od_ok d" "map_of d \<subseteq>\<^sub>m map_of (c_entries c)" "\<And>h'. h' \<noteq> h \<Longrightarrow> map_of d h' = map_of (c_fetched c) h'"
  shows "cat_but (insert h X) (c\<lparr>c_fetched := d\<rparr>)"
  using assms by (simp add: inv_defs) blast

lemma delete_fetched_cat_but: "cat_but X c \<Longrightarrow> cat_but (insert h X) (c\<lparr>c_fetched := AList.delete h (c_fetched c)\<rparr>)"
  by (rule fetched_cat_but) (auto simp: dict_simps inv_defs map_le_del)

lemma update_fetched_cat_but:
  "cat_but X c \<Longrightarrow> map_of (c_entries c) h = Some r \<Longrightarrow>
     cat_but (insert h X) (c\<lparr>c_fetched := AList.update h r (c_fetched c)\<rparr>)"
  by (rule fetched_cat_but) (auto simp: dict_simps inv_defs map_le_upd_same)

lemma delete_lookup_cat_but:
  "cat_but X c \<Longrightarrow> cat_but (insert h X) (c\<lparr>c_needs_lookup := AList.delete h (c_needs_lookup c)\<rparr>)"
  by (simp add: inv_defs dict_simps map_le_del) blast

lemma delete_check_cat_but:
  "cat_but X c \<Longrightarrow> cat_but (insert h X) (c\<lparr>c_needs_check := AList.delete h (c_needs_check c)\<rparr>)"
  by (simp add: inv_defs dict_simps map_le_del) blast

lemma counters_cat_but:
  assumes "cat_but X c" "od_ok d" "map_of d \<subseteq>\<^sub>m map_of (c_entries c)"
  shows "cat_but X (c\<lparr>c_index_counters := d\<rparr>)"
  using assms by (simp add: inv_defs)

lemma counters_le: "cat_but X c \<Longrightarrow> map_of (c_index_counters c) \<subseteq>\<^sub>m map_of (c_entries c)"
  by (simp add: inv_defs)

lemma counters_ok: "cat_but X c \<Longrightarrow> od_ok (c_index_counters c)"
  by (simp add: inv_defs)

lemma delete_counters_cat_but: "cat_but X c \<Longrightarrow> cat_but X (c\<lparr>c_index_counters := AList.delete h (c_index_counters c)\<rparr>)"
  by (rule counters_cat_but) (simp_all add: dict_simps counters_le counters_ok map_le_del)

lemma setdefault_counters_cat_but:
  assumes "cat_but X c" "map_of (c_entries c) h = Some r"
  shows "cat_but X (c\<lparr>c_index_counters := od_setdefault h r (c_index_counters c)\<rparr>)"
  using assms counters_le[OF assms(1)] counters_ok[OF assms(1)]
  by (intro counters_cat_but) (simp_all add: dict_simps setdefault_same map_le_upd_same)

lemma documents_cat_but:
  assumes "cat_but X c" "od_ok d"
    "\<And>h r. map_of d h = Some r \<Longrightarrow> r < c_next_ref c \<and> te_info_hash (c_heap c r) = h \<and> te_metadata (c_heap c r) \<noteq> None"
  shows "cat_but X (c\<lparr>c_index_documents := d\<rparr>)"
  using assms unfolding cat_but_def shape_ok_def queues_ok_def
  by (simp add: counts_ok_def key_ok_def fetched_ok_def entry_ok_at_def)

lemma documentsD:
  "cat_but X c \<Longrightarrow> map_of (c_index_documents c) h = Some r \<Longrightarrow>
     r < c_next_ref c \<and> te_info_hash (c_heap c r) = h \<and> te_metadata (c_heap c r) \<noteq> None"
  unfolding cat_but_def queues_ok_def by blast

lemma documents_ok: "cat_but X c \<Longrightarrow> od_ok (c_index_documents c)"
  by (simp add: inv_defs)

text \<open>Back to the full condition at a hash whose index dictionaries were not touched.\<close>

lemma cat_but_restore:
  assumes "cat_but (insert h X) c" "key_ok c h" "fetched_ok c h" "entry_ok_at c h"
  shows "cat_but X c"
  using assms by (auto simp add: cat_but_def)

lemma doc_metadata:
  assumes "cat_but X c" "map_of (c_entries c) h = Some r"
  shows "te_metadata (c_heap c r) \<noteq> None \<or> map_of (c_index_documents c) h \<noteq> Some r"
  using documentsD[OF assms(1)] by blast

end
