(* ===== verification/Catalog_Operations.thy ===== *)
theory Catalog_Operations
  imports Catalog_Invariant
begin

text \<open>
  Every operation of the catalog preserves the invariant, one lemma per operation, and the
  catalog as a state machine: \<open>catalog_step\<close> has one rule per public method, and the
  locale \<open>invariant_system\<close> is interpreted with the invariant and with the capacity.
\<close>

section \<open>Creating entries\<close>

lemma update_absent: "map_of d k = None \<Longrightarrow> AList.update k v d = d @ [(k, v)]"
  by (induction d) (auto split: if_splits)

lemma map_of_SomeD2: "od_ok d \<Longrightarrow> p \<in> set d \<Longrightarrow> map_of d (fst p) = Some (snd p)"
  by (metis map_of_is_SomeI prod.collapse)

lemma create_cat_but:
  assumes inv: "cat_ok c" and new: "map_of (c_entries c) h = None"
    and go: "get_or_create_locked c h now = (r, created, c')"
  shows "cat_but {h} c'" "fetched_ok c' h" "entry_ok_at c' h"
proof -
  define e where "e = (new_entry h now)\<lparr>te_database_checked := \<not> c_check_database c\<rparr>"
  have r: "r = c_next_ref c"
    and c': "c' = c\<lparr>c_heap := (c_heap c)(r := e), c_next_ref := Suc r, c_entries := c_entries c @ [(h, r)],
        c_state_counts := (c_state_counts c)(FETCH_PENDING := c_state_counts c FETCH_PENDING + 1),
        c_discovered := c_discovered c + 1\<rparr>"
    using go new by (auto simp: get_or_create_locked_def Let_def e_def update_absent)
  note shape = cat_butD(1)[OF inv]
  have old: "r' < r" "te_info_hash (c_heap c r') = h'" if "map_of (c_entries c) h' = Some r'" for h' r'
    using shape that by (auto simp: shape_ok_def r)
  have entries: "map_of (c_entries c') = (map_of (c_entries c))(h \<mapsto> r)"
    using new by (auto simp: c' map_add_def fun_eq_iff split: option.splits)
  have heap: "c_heap c' r' = c_heap c r'" if "r' < r" for r' using that by (simp add: c')
  have le: "map_of (c_entries c) \<subseteq>\<^sub>m map_of (c_entries c')" using new by (auto simp: entries map_le_def)
  have t: "tally c' P = tally c P + of_bool (P e)" for P
  proof -
    have "map (\<lambda>p. of_bool (P (c_heap c' (snd p)))) (c_entries c) = map (\<lambda>p. of_bool (P (c_heap c (snd p)))) (c_entries c)"
      using heap[OF old(1)[OF map_of_SomeD2]] shape by (intro map_cong) (simp_all add: shape_ok_def)
    then have "(\<Sum>p \<leftarrow> c_entries c. of_bool (P (c_heap c' (snd p)))) = (\<Sum>p \<leftarrow> c_entries c. of_bool (P (c_heap c (snd p))))"
      by (rule arg_cong)
    moreover have "c_entries c' = c_entries c @ [(h, r)]" "c_heap c' r = e" by (simp_all add: c')
    ultimately show ?thesis by (simp add: tally_def)
  qed
  have e: "te_info_hash e = h" "te_fetch_state e = FETCH_PENDING" "te_metadata e = None" "\<not> te_lookup_in_progress e"
    "\<not> te_known_from_database e" "te_peers e = None"
    by (simp_all add: e_def new_entry_def)
  have fresh: "h \<notin> fst ` set (c_entries c)" using new by (simp add: map_of_eq_None_iff)
  have subs: "map_of (c_fetched c) \<subseteq>\<^sub>m map_of (c_entries c')" "map_of (c_fetchable c) \<subseteq>\<^sub>m map_of (c_entries c')"
    "map_of (c_needs_lookup c) \<subseteq>\<^sub>m map_of (c_entries c')" "map_of (c_needs_check c) \<subseteq>\<^sub>m map_of (c_entries c')"
    "map_of (c_index_counters c) \<subseteq>\<^sub>m map_of (c_entries c')"
    using shape cat_butD(3)[OF inv] le by (auto simp: shape_ok_def queues_ok_def intro: map_le_trans)
  have "r' < c_next_ref c' \<and> te_info_hash (c_heap c' r') = h'" if "map_of (c_entries c') h' = Some r'" for h' r'
    using that old heap e by (cases "h' = h") (auto simp: entries, auto simp: c' less_SucI)
  then have "shape_ok c'"
    using shape subs fresh unfolding shape_ok_def by (simp add: c')
  moreover have "counts_ok c'"
    using cat_butD(2)[OF inv] e unfolding counts_ok_def t by (simp add: c')
  moreover have "queues_ok c'"
    using documentsD[OF inv] subs(5) heap unfolding queues_ok_def by (auto simp: c' r less_SucI)
  moreover have "key_ok c' h' \<and> fetched_ok c' h' \<and> entry_ok_at c' h'" if "h' \<noteq> h" for h'
  proof -
    have s: "sel c' P h' = sel c P h'" for P
      using that old(1) heap by (auto simp: sel_def entries split: option.splits)
    have "c_max_peers_per_hash c' = c_max_peers_per_hash c" by (simp add: c')
    then have "entry_ok_at c' h' = entry_ok_at c h'"
      unfolding entry_ok_at_def entries using that heap[OF old(1)] by auto
    with that cat_butD(4-6)[OF inv, of h'] show ?thesis
      unfolding key_ok_def fetched_ok_def s by (simp add: c')
  qed
  ultimately show "cat_but {h} c'" by (simp add: cat_but_def)
  have "map_of (c_fetched c) h = None" using shape new by (auto simp: shape_ok_def map_le_def) (metis domI domIff)
  then show "fetched_ok c' h" using e by (simp add: fetched_ok_def sel_def entries) (simp add: c')
  show "entry_ok_at c' h" using e by (simp add: entry_ok_at_def entries entry_ok_def peers_ok_def) (simp add: c')
qed

lemma get_or_create_at:
  assumes "get_or_create_locked c h now = (r, created, c')"
  shows "map_of (c_entries c') h = Some r"
  using assms by (auto simp: get_or_create_locked_def Let_def dict_simps split: option.splits)

lemma get_or_create_cat_but:
  assumes "cat_ok c" "get_or_create_locked c h now = (r, created, c')"
  shows "cat_but {h} c'" "fetched_ok c' h" "entry_ok_at c' h"
  using create_cat_but[OF assms(1) _ assms(2)] assms(2) cat_but_mono[OF assms(1), of "{h}"] cat_butD(5,6)[OF assms(1), of h]
  by (auto simp: get_or_create_locked_def split: option.splits)

section \<open>Peers\<close>

lemma remember_keys: "fst ` set (snd (remember d k v m)) \<subseteq> insert k (fst ` set d)"
  by (auto simp: remember_eq Let_def AList.delete_eq dest!: in_set_dropD)

lemma peers_ok_remember:
  assumes "peers_ok m e" "1 \<le> m" "\<not> (case te_failed_peers e of None \<Rightarrow> False | Some F \<Rightarrow> peer \<in> F)"
    and "d = (case te_peers e of None \<Rightarrow> [] | Some d \<Rightarrow> d)"
  shows "peers_ok m (e\<lparr>te_peers := Some (snd (remember d peer () m))\<rparr>)"
proof -
  have "od_ok d" using assms by (auto simp: peers_ok_def split: option.splits)
  then have "od_ok (snd (remember d peer () m))" by (rule od_ok_remember)
  moreover have "fst ` set (snd (remember d peer () m)) \<inter> F = {}" if "te_failed_peers e = Some F" for F
    using that assms remember_keys[of d peer "()" m] by (auto simp: peers_ok_def split: option.splits)
  ultimately show ?thesis using remember_bound[of d peer "()" m] by (auto simp: peers_ok_def split: option.splits)
qed

text \<open>A step that changes only the peers of one entry.\<close>

definition peers_step :: "ref \<Rightarrow> catalog \<Rightarrow> catalog \<Rightarrow> bool" where
  "peers_step r c c' \<longleftrightarrow> (\<exists>ps fs. c' = upd_entry c r (\<lambda>e. e\<lparr>te_peers := ps, te_failed_peers := fs\<rparr>)
     \<and> peers_ok (c_max_peers_per_hash c) ((c_heap c r)\<lparr>te_peers := ps, te_failed_peers := fs\<rparr>))"

lemma peers_step_refl: "peers_ok (c_max_peers_per_hash c) (c_heap c r) \<Longrightarrow> peers_step r c c"
  unfolding peers_step_def
  by (rule exI[of _ "te_peers (c_heap c r)"], rule exI[of _ "te_failed_peers (c_heap c r)"])
    (simp add: upd_entry_def)

lemma peers_step_trans: "peers_step r c c' \<Longrightarrow> peers_step r c' c'' \<Longrightarrow> peers_step r c c''"
  unfolding peers_step_def by (auto simp: upd_entry_def) blast

lemma peers_step_max: "peers_step r c c' \<Longrightarrow> c_max_peers_per_hash c' = c_max_peers_per_hash c"
  by (auto simp: peers_step_def upd_entry_def)

lemma peers_step_ok: "peers_step r c c' \<Longrightarrow> peers_ok (c_max_peers_per_hash c') (c_heap c' r)"
  by (auto simp: peers_step_def upd_entry_def)

lemma add_peer_step:
  assumes "peers_ok (c_max_peers_per_hash c) (c_heap c r)" "1 \<le> c_max_peers_per_hash c"
  shows "peers_step r c (snd (add_peer_locked c r peer))"
proof (cases "case te_failed_peers (c_heap c r) of None \<Rightarrow> False | Some F \<Rightarrow> peer \<in> F")
  case True
  then show ?thesis using peers_step_refl[OF assms(1)] by (simp add: add_peer_locked_def Let_def)
next
  case False
  let ?d = "case te_peers (c_heap c r) of None \<Rightarrow> [] | Some d \<Rightarrow> d"
  from peers_ok_remember[OF assms False refl]
  show ?thesis unfolding peers_step_def
    by (intro exI[of _ "Some (snd (remember ?d peer () (c_max_peers_per_hash c)))"]
        exI[of _ "te_failed_peers (c_heap c r)"]) (simp add: add_peer_locked_def Let_def False upd_entry_def)
qed

lemma add_peers_loop_step:
  "peers_ok (c_max_peers_per_hash c) (c_heap c r) \<Longrightarrow> 1 \<le> c_max_peers_per_hash c \<Longrightarrow>
     peers_step r c (snd (add_peers_loop c r peers n))"
proof (induction peers arbitrary: c n)
  case Nil
  then show ?case by (simp add: peers_step_refl)
next
  case (Cons peer peers)
  have s: "peers_step r c (snd (add_peer_locked c r peer))" by (rule add_peer_step[OF Cons.prems])
  show ?case
    using Cons.IH[OF peers_step_ok[OF s]] Cons.prems(2) s
    by (auto simp: peers_step_max split_beta Let_def intro: peers_step_trans)
qed

lemma forget_peer_step:
  assumes "peers_ok (c_max_peers_per_hash c) (c_heap c r)"
  shows "peers_step r c (forget_peer_locked c r peer)"
proof -
  let ?e = "c_heap c r"
  let ?ps = "map_option (AList.delete peer) (te_peers ?e)"
  let ?fs = "Some (insert peer (case te_failed_peers ?e of None \<Rightarrow> {} | Some F \<Rightarrow> F))"
  have "peers_ok (c_max_peers_per_hash c) (?e\<lparr>te_peers := ?ps, te_failed_peers := ?fs\<rparr>)"
    using assms length_delete_le[of peer "the (te_peers ?e)"] keys_delete[of peer "the (te_peers ?e)"]
    by (auto simp: peers_ok_def od_ok_delete split: option.splits)
  then show ?thesis unfolding peers_step_def
    by (intro exI[of _ ?ps] exI[of _ ?fs]) (simp add: forget_peer_locked_def upd_entry_def)
qed

lemma forget_peers_step:
  "peers_ok (c_max_peers_per_hash c) (c_heap c r) \<Longrightarrow> peers_step r c (foldl (\<lambda>c peer. forget_peer_locked c r peer) c peers)"
proof (induction peers arbitrary: c)
  case Nil
  then show ?case by (simp add: peers_step_refl)
next
  case (Cons peer peers)
  have s: "peers_step r c (forget_peer_locked c r peer)" by (rule forget_peer_step[OF Cons.prems])
  show ?case using Cons.IH[OF peers_step_ok[OF s]] s by (auto intro: peers_step_trans)
qed

lemma peers_step_same:
  assumes "peers_step r c c'"
  shows "c_entries c' = c_entries c" "c_fetched c' = c_fetched c" "c_index_documents c' = c_index_documents c"
    "c_max_lookups c' = c_max_lookups c" "c_index_tracking c' = c_index_tracking c" "c_max_entries c' = c_max_entries c"
    "c_lookups_in_progress c' = c_lookups_in_progress c" "c_max_fetch_attempts c' = c_max_fetch_attempts c"
    "\<exists>ps fs. c_heap c' = (c_heap c)(r := (c_heap c r)\<lparr>te_peers := ps, te_failed_peers := fs\<rparr>)"
  using assms unfolding peers_step_def upd_entry_def by (auto, blast)

lemma peers_step_cat_but:
  assumes "cat_but X c" "map_of (c_entries c) h = Some r" "peers_step r c c'"
  shows "cat_but (insert h X) c'"
  using assms(3) doc_metadata[OF assms(1,2)] unfolding peers_step_def by (auto intro!: upd_plain[OF assms(1,2)])

lemma at_iff:
  assumes "map_of (c_entries c) h = Some r"
  shows "fetched_ok c h \<longleftrightarrow> map_of (c_fetched c) h = (if te_metadata (c_heap c r) \<noteq> None then Some r else None)"
    "entry_ok_at c h \<longleftrightarrow> entry_ok (c_max_peers_per_hash c) (c_heap c r)"
    "key_ok c h \<longleftrightarrow> map_of (c_needs_check c) h = (if wants_check (c_heap c r) then Some r else None)
       \<and> map_of (c_fetchable c) h = (if wants_fetch (c_heap c r) then Some r else None)
       \<and> map_of (c_needs_lookup c) h = (if wants_lookup (c_max_lookups c) (c_heap c r) then Some r else None)"
  using assms by (simp_all add: fetched_ok_def entry_ok_at_def key_ok_def sel_def)

section \<open>Eviction\<close>

lemma known_noop: "\<not> te_known_from_database e \<Longrightarrow> e\<lparr>te_known_from_database := False\<rparr> = e"
  by (cases e) simp

lemma evict_one_fields:
  assumes "te_info_hash (c_heap c r) = h"
  shows "c_entries (evict_one c r) = AList.delete h (c_entries c)"
    "c_fetched (evict_one c r) = AList.delete h (c_fetched c)"
    "c_fetchable (evict_one c r) = AList.delete h (c_fetchable c)"
    "c_needs_lookup (evict_one c r) = AList.delete h (c_needs_lookup c)"
    "c_needs_check (evict_one c r) = AList.delete h (c_needs_check c)"
    "c_index_counters (evict_one c r) = AList.delete h (c_index_counters c)"
    "c_index_documents (evict_one c r) = c_index_documents c"
    "c_next_ref (evict_one c r) = c_next_ref c"
    "c_max_peers_per_hash (evict_one c r) = c_max_peers_per_hash c"
    "c_max_lookups (evict_one c r) = c_max_lookups c"
    "c_max_entries (evict_one c r) = c_max_entries c"
    "c_lookups_in_progress (evict_one c r) = c_lookups_in_progress c"
    "c_state_counts (evict_one c r) = (c_state_counts c)(te_fetch_state (c_heap c r) := c_state_counts c (te_fetch_state (c_heap c r)) - 1)"
    "c_known_done (evict_one c r) = c_known_done c - of_bool (te_known_from_database (c_heap c r))"
    "c_heap (evict_one c r) = (c_heap c)(r := (c_heap c r)\<lparr>te_known_from_database := False\<rparr>)"
  using assms by (simp_all add: evict_one_def forget_known_locked_def add_orphan_locked_def upd_entry_def Let_def known_noop)

lemma tally_evict_one:
  assumes "shape_ok c" "map_of (c_entries c) h = Some r"
  shows "tally (evict_one c r) P = tally c P - of_bool (P (c_heap c r))"
proof -
  have h: "te_info_hash (c_heap c r) = h" and od: "od_ok (c_entries c)" using assms by (auto simp: shape_ok_def)
  have "snd p \<noteq> r" if "p \<in> set (AList.delete h (c_entries c))" for p
  proof -
    have "p \<in> set (c_entries c)" "fst p \<noteq> h" using that by (auto simp: AList.delete_eq)
    then show ?thesis using other_ref[OF assms, of "fst p" "snd p"] map_of_SomeD2[OF od] by blast
  qed
  then have "map (\<lambda>p. of_bool (P (c_heap (evict_one c r) (snd p)))) (AList.delete h (c_entries c))
      = map (\<lambda>p. of_bool (P (c_heap c (snd p)))) (AList.delete h (c_entries c))"
    by (intro map_cong) (simp_all add: evict_one_fields(15)[OF h])
  then have "(\<Sum>p \<leftarrow> AList.delete h (c_entries c). of_bool (P (c_heap (evict_one c r) (snd p))))
      = (\<Sum>p \<leftarrow> AList.delete h (c_entries c). of_bool (P (c_heap c (snd p))))"
    by (rule arg_cong)
  then show ?thesis
    using sum_list_delete[OF od assms(2), of "\<lambda>e. of_bool (P e)" "c_heap c"]
    unfolding tally_def evict_one_fields(1)[OF h] by (rule trans)
qed

lemma map_le_del_del: "d \<subseteq>\<^sub>m m \<Longrightarrow> d(k := None) \<subseteq>\<^sub>m m(k := None)"
  by (auto simp: map_le_def)

lemma evict_one_ok:
  assumes inv: "cat_ok c" and at: "map_of (c_entries c) h = Some r" and ev: "is_evictable (c_heap c r)"
  shows "cat_ok (evict_one c r)"
proof -
  let ?c = "evict_one c r"
  note shape = cat_butD(1)[OF inv]
  note f = evict_one_fields[OF entry_hash[OF inv at]]
  have heap: "c_heap ?c r' = c_heap c r'" if "r' \<noteq> r" for r' using that by (simp add: f)
  have same: "te_info_hash (c_heap ?c r') = te_info_hash (c_heap c r')" "te_metadata (c_heap ?c r') = te_metadata (c_heap c r')" for r'
    by (simp_all add: f)
  have "\<not> te_lookup_in_progress (c_heap c r)" using ev by (simp add: is_evictable_def)
  then have "counts_ok ?c" using cat_butD(2)[OF inv]
    unfolding counts_ok_def tally_evict_one[OF shape at] f by auto
  moreover have "shape_ok ?c" using shape unfolding shape_ok_def f same
    by (auto simp: dict_simps map_le_del_del)
  moreover have "queues_ok ?c" using documentsD[OF inv] counters_le[OF inv]
    unfolding queues_ok_def f same by (auto simp: f dict_simps map_le_del_del)
  moreover have "key_ok ?c h' \<and> fetched_ok ?c h' \<and> entry_ok_at ?c h'" for h'
  proof (cases "h' = h")
    case True
    then show ?thesis by (simp add: key_ok_def fetched_ok_def entry_ok_at_def sel_def f(1-6) dict_simps)
  next
    case False
    have "c_heap ?c r' = c_heap c r'" if "map_of (c_entries c) h' = Some r'" for r'
      using other_ref[OF shape at that False] heap by blast
    with False have "sel ?c P h' = sel c P h'" and "entry_ok_at ?c h' = entry_ok_at c h'" for P
      by (auto simp: sel_def entry_ok_at_def f(1,9) dict_simps split: option.splits)
    with False cat_butD(4-6)[OF inv, of h'] show ?thesis
      by (simp add: key_ok_def fetched_ok_def f dict_simps)
  qed
  ultimately show ?thesis by (simp add: cat_but_def)
qed

definition evictable_refs :: "catalog \<Rightarrow> ref set" where
  "evictable_refs c = {r \<in> snd ` set (c_entries c). is_evictable (c_heap c r)}"

lemma ref_at:
  assumes "cat_but X c" "r \<in> snd ` set (c_entries c)"
  shows "map_of (c_entries c) (te_info_hash (c_heap c r)) = Some r"
proof -
  obtain h where "(h, r) \<in> set (c_entries c)" using assms(2) by force
  moreover have "od_ok (c_entries c)" using assms(1) by (simp add: inv_defs)
  ultimately have "map_of (c_entries c) h = Some r" by (simp add: map_of_eq_Some_iff)
  with entry_hash[OF assms(1) this] show ?thesis by simp
qed

lemma evict_all_ok:
  "cat_ok c \<Longrightarrow> distinct rs \<Longrightarrow> set rs \<subseteq> evictable_refs c \<Longrightarrow>
     cat_ok (foldl evict_one c rs) \<and> length (c_entries (foldl evict_one c rs)) = length (c_entries c) - length rs
     \<and> set (c_entries (foldl evict_one c rs)) = {p \<in> set (c_entries c). snd p \<notin> set rs}
     \<and> c_max_entries (foldl evict_one c rs) = c_max_entries c
     \<and> (\<forall>r. r \<notin> set rs \<longrightarrow> c_heap (foldl evict_one c rs) r = c_heap c r)"
proof (induction rs arbitrary: c)
  case (Cons r rs)
  let ?h = "te_info_hash (c_heap c r)"
  note inv = Cons.prems(1)
  have ev: "is_evictable (c_heap c r)" and "r \<in> snd ` set (c_entries c)"
    using Cons.prems(3) by (simp_all add: evictable_refs_def)
  then have at: "map_of (c_entries c) ?h = Some r" by (intro ref_at[OF inv])
  note ok = evict_one_ok[OF inv at ev]
  note f = evict_one_fields[OF refl, of c r]
  have od: "od_ok (c_entries c)" using inv by (simp add: inv_defs)
  have gone: "set (c_entries (evict_one c r)) = {p \<in> set (c_entries c). snd p \<noteq> r}"
  proof -
    have iff: "fst p = ?h \<longleftrightarrow> snd p = r" if "p \<in> set (c_entries c)" for p
      using map_of_SomeD2[OF od that] at entry_hash[OF inv] by (metis option.inject)
    have "{p \<in> set (c_entries c). ?h \<noteq> fst p} = {p \<in> set (c_entries c). snd p \<noteq> r}"
      by (intro Collect_cong) (metis iff)
    then show ?thesis by (simp add: f AList.delete_eq split_beta)
  qed
  moreover have "length (c_entries (evict_one c r)) = length (c_entries c) - 1"
  proof -
    have "map fst (AList.delete ?h (c_entries c)) = remove1 ?h (map fst (c_entries c))"
      using od by (simp add: map_fst_delete distinct_remove1_removeAll)
    then have "length (AList.delete ?h (c_entries c)) = length (remove1 ?h (map fst (c_entries c)))"
      by (metis length_map)
    moreover have "?h \<in> set (map fst (c_entries c))" using map_of_SomeD[OF at] by force
    ultimately show ?thesis by (simp add: f length_remove1)
  qed
  moreover have "set rs \<subseteq> evictable_refs (evict_one c r)"
  proof
    fix x assume x: "x \<in> set rs"
    with Cons.prems(2,3) have "x \<noteq> r" "x \<in> evictable_refs c" by auto
    then show "x \<in> evictable_refs (evict_one c r)"
      unfolding evictable_refs_def gone by (auto simp: f)
  qed
  ultimately show ?case using Cons.IH[OF ok] Cons.prems(2) by (auto simp: f)
qed auto


lemma set_sort_take: "set (take n (sort_key f xs)) \<subseteq> set xs"
  by (metis set_take_subset set_sort)

lemma victims_ok:
  assumes "cat_ok c"
  shows "distinct (eviction_victims c)" "set (eviction_victims c) \<subseteq> evictable_refs c"
    "length (eviction_victims c) \<le> max 1 (c_max_entries c div EVICTION_DIVISOR)"
    "evictable_refs c \<noteq> {} \<Longrightarrow> eviction_victims c \<noteq> []"
proof -
  define w where "w = max 1 (c_max_entries c div EVICTION_DIVISOR)"
  define refs where "refs = map snd (c_entries c)"
  define cheap where "cheap = take w (filter (\<lambda>r. te_metadata (c_heap c r) = None \<and> te_seen_count (c_heap c r) \<le> 1
      \<and> \<not> has_peers (c_heap c r) \<and> is_evictable (c_heap c r)) refs)"
  define rest where "rest = filter (\<lambda>r. te_info_hash (c_heap c r) \<notin> (\<lambda>r. te_info_hash (c_heap c r)) ` set cheap
      \<and> is_evictable (c_heap c r)) refs"
  have v: "eviction_victims c = (if length cheap < w
      then cheap @ nsmallest (w - length cheap) (\<lambda>r. eviction_key (c_heap c r)) rest else cheap)"
    unfolding eviction_victims_def Let_def w_def refs_def cheap_def rest_def by (rule refl)
  have d: "distinct refs" using refs_distinct cat_butD(1)[OF assms] by (simp add: refs_def)
  have s: "set (nsmallest n f rest) \<subseteq> set rest" for n and f :: "ref \<Rightarrow> nat \<times> nat \<times> nat \<times> real"
    using set_sort_take by (simp add: nsmallest_def)
  have "distinct cheap" using d by (simp add: cheap_def)
  moreover have "distinct (nsmallest n f rest)" for n and f :: "ref \<Rightarrow> nat \<times> nat \<times> nat \<times> real"
    using d by (simp add: nsmallest_def rest_def)
  moreover have "set cheap \<inter> set rest = {}" by (auto simp: rest_def)
  ultimately show "distinct (eviction_victims c)" using s unfolding v by (simp, blast)
  have "set cheap \<subseteq> evictable_refs c" "set rest \<subseteq> evictable_refs c"
    by (auto simp: cheap_def rest_def evictable_refs_def refs_def dest: in_set_takeD)
  then show "set (eviction_victims c) \<subseteq> evictable_refs c" using s unfolding v by (simp, blast)
  show "length (eviction_victims c) \<le> max 1 (c_max_entries c div EVICTION_DIVISOR)"
  proof -
    have "length cheap \<le> w" by (simp add: cheap_def)
    then show ?thesis unfolding v w_def[symmetric] by (auto simp: nsmallest_def)
  qed
  assume "evictable_refs c \<noteq> {}"
  then obtain r where "r \<in> set refs" "is_evictable (c_heap c r)" by (auto simp: evictable_refs_def refs_def)
  then have "cheap = [] \<Longrightarrow> rest \<noteq> []" unfolding rest_def by (auto simp: filter_empty_conv)
  moreover have "0 < w" by (simp add: w_def)
  ultimately show "eviction_victims c \<noteq> []" unfolding v
    by (auto simp: nsmallest_def take_eq_Nil) (metis length_0_conv length_sort)
qed

lemma evict_locked_ok:
  assumes "cat_ok c"
  shows "cat_ok (evict_locked c)"
    "set (c_entries (evict_locked c)) = {p \<in> set (c_entries c). snd p \<notin> set (eviction_victims c)}"
    "length (c_entries (evict_locked c)) = length (c_entries c) - length (eviction_victims c)"
    "c_max_entries (evict_locked c) = c_max_entries c"
    "\<And>r. r \<notin> set (eviction_victims c) \<Longrightarrow> c_heap (evict_locked c) r = c_heap c r"
  using evict_all_ok[OF assms victims_ok(1,2)[OF assms]] by (simp_all add: evict_locked_def Let_def)

section \<open>Recording\<close>

lemma upd_entry_same [simp]:
  "c_heap (upd_entry c r f) = (c_heap c)(r := f (c_heap c r))" "c_entries (upd_entry c r f) = c_entries c"
  "c_fetched (upd_entry c r f) = c_fetched c" "c_fetchable (upd_entry c r f) = c_fetchable c"
  "c_needs_lookup (upd_entry c r f) = c_needs_lookup c" "c_needs_check (upd_entry c r f) = c_needs_check c"
  "c_index_documents (upd_entry c r f) = c_index_documents c" "c_next_ref (upd_entry c r f) = c_next_ref c"
  "c_max_peers_per_hash (upd_entry c r f) = c_max_peers_per_hash c" "c_max_lookups (upd_entry c r f) = c_max_lookups c"
  "c_max_fetch_attempts (upd_entry c r f) = c_max_fetch_attempts c"
  "c_index_tracking (upd_entry c r f) = c_index_tracking c" "c_max_entries (upd_entry c r f) = c_max_entries c"
  "c_lookups_in_progress (upd_entry c r f) = c_lookups_in_progress c" "c_known_done (upd_entry c r f) = c_known_done c"
  by (simp_all add: upd_entry_def)

lemma set_state_same [simp]:
  "c_heap (set_state_locked c r st) = (c_heap c)(r := (c_heap c r)\<lparr>te_fetch_state := st\<rparr>)"
  "c_entries (set_state_locked c r st) = c_entries c" "c_fetched (set_state_locked c r st) = c_fetched c"
  "c_fetchable (set_state_locked c r st) = c_fetchable c" "c_needs_lookup (set_state_locked c r st) = c_needs_lookup c"
  "c_needs_check (set_state_locked c r st) = c_needs_check c" "c_index_documents (set_state_locked c r st) = c_index_documents c"
  "c_next_ref (set_state_locked c r st) = c_next_ref c" "c_max_lookups (set_state_locked c r st) = c_max_lookups c"
  "c_max_peers_per_hash (set_state_locked c r st) = c_max_peers_per_hash c"
  "c_index_tracking (set_state_locked c r st) = c_index_tracking c" "c_max_entries (set_state_locked c r st) = c_max_entries c"
  by (simp_all add: set_state_locked_def Let_def)

lemma forget_known_same [simp]:
  "c_heap (forget_known_locked c r) = (c_heap c)(r := (c_heap c r)\<lparr>te_known_from_database := False\<rparr>)"
  "c_entries (forget_known_locked c r) = c_entries c" "c_fetched (forget_known_locked c r) = c_fetched c"
  "c_index_documents (forget_known_locked c r) = c_index_documents c"
  "c_max_peers_per_hash (forget_known_locked c r) = c_max_peers_per_hash c"
  "c_index_tracking (forget_known_locked c r) = c_index_tracking c"
  by (simp_all add: forget_known_locked_def known_noop)

lemma entry_ok_seen [simp]:
  "entry_ok m (e\<lparr>te_seen_count := n\<rparr>) = entry_ok m e" "entry_ok m (e\<lparr>te_last_seen := t\<rparr>) = entry_ok m e"
  "entry_ok m (e\<lparr>te_announce_count := n\<rparr>) = entry_ok m e" "entry_ok m (e\<lparr>te_lookup_in_progress := b\<rparr>) = entry_ok m e"
  "entry_ok m (e\<lparr>te_lookups_started := n\<rparr>) = entry_ok m e" "entry_ok m (e\<lparr>te_next_lookup_time := t\<rparr>) = entry_ok m e"
  "entry_ok m (e\<lparr>te_last_error := s\<rparr>) = entry_ok m e" "entry_ok m (e\<lparr>te_fetch_attempts := n\<rparr>) = entry_ok m e"
  "entry_ok m (e\<lparr>te_database_checked := b\<rparr>) = entry_ok m e" "entry_ok m (e\<lparr>te_in_database := b\<rparr>) = entry_ok m e"
  "entry_ok m (e\<lparr>te_index_base := ib\<rparr>) = entry_ok m e" "entry_ok m (e\<lparr>te_flushed_seen := n\<rparr>) = entry_ok m e"
  "entry_ok m (e\<lparr>te_flushed_announce := n\<rparr>) = entry_ok m e"
  by (simp_all add: entry_ok_def peers_ok_def split: option.splits)

lemma entry_ok_peers: "entry_ok m e \<Longrightarrow> peers_ok m e"
  by (simp add: entry_ok_def)

text \<open>The state of the entry of \<open>h\<close> before \<open>_index_entry_locked\<close>, and the step that closes an operation.\<close>

definition open_at :: "bytes \<Rightarrow> ref \<Rightarrow> catalog \<Rightarrow> bool" where
  "open_at h r c \<longleftrightarrow> cat_but {h} c \<and> map_of (c_entries c) h = Some r \<and> fetched_ok c h \<and> entry_ok_at c h"

lemma open_atI: "cat_ok c \<Longrightarrow> map_of (c_entries c) h = Some r \<Longrightarrow> open_at h r c"
  using cat_butD(5,6)[of "{}" c h] cat_but_mono[of "{}" c "{h}"] by (simp add: open_at_def)

lemma open_at_index: "open_at h r c \<Longrightarrow> cat_ok (index_entry_locked c r)"
  unfolding open_at_def using index_entry_cat_but[of h "{}" c r] by simp

lemma open_at_upd:
  assumes "open_at h r c"
    and "te_info_hash (f (c_heap c r)) = te_info_hash (c_heap c r)"
      "te_fetch_state (f (c_heap c r)) = te_fetch_state (c_heap c r)"
      "te_lookup_in_progress (f (c_heap c r)) = te_lookup_in_progress (c_heap c r)"
      "te_known_from_database (f (c_heap c r)) = te_known_from_database (c_heap c r)"
      "te_metadata (f (c_heap c r)) = te_metadata (c_heap c r)"
      "entry_ok (c_max_peers_per_hash c) (c_heap c r) \<Longrightarrow> entry_ok (c_max_peers_per_hash c) (f (c_heap c r))"
  shows "open_at h r (upd_entry c r f)"
proof -
  have at: "map_of (c_entries c) h = Some r" and inv: "cat_but {h} c" using assms(1) by (simp_all add: open_at_def)
  have "cat_but {h} (upd_entry c r f)"
    using upd_plain[where f = f, OF inv at assms(2-5)] doc_metadata[OF inv at] assms(6) by simp
  then show ?thesis using assms at by (simp add: open_at_def at_iff)
qed

lemma open_at_peers:
  assumes "open_at h r c" "peers_step r c c'"
  shows "open_at h r c'"
proof -
  have at: "map_of (c_entries c) h = Some r" and inv: "cat_but {h} c" using assms(1) by (simp_all add: open_at_def)
  obtain ps fs where heap: "c_heap c' = (c_heap c)(r := (c_heap c r)\<lparr>te_peers := ps, te_failed_peers := fs\<rparr>)"
    using peers_step_same(9)[OF assms(2)] by blast
  have "peers_ok (c_max_peers_per_hash c') (c_heap c' r)" by (rule peers_step_ok[OF assms(2)])
  then show ?thesis
    using assms at peers_step_cat_but[OF inv at assms(2)] heap
    by (simp add: open_at_def at_iff peers_step_same[OF assms(2)] entry_ok_def)
qed

lemma open_at_fields [simp]:
  "open_at h r (c\<lparr>c_metadata_bytes := i\<rparr>) = open_at h r c"
  by (simp add: open_at_def fetched_ok_def entry_ok_at_def)

lemma open_at_delete_lookup:
  "open_at h r c \<Longrightarrow> open_at h r (c\<lparr>c_needs_lookup := AList.delete h (c_needs_lookup c)\<rparr>)"
  using delete_lookup_cat_but[of "{h}" c h] by (simp add: open_at_def fetched_ok_def entry_ok_at_def)

lemma open_at_create: "cat_ok c \<Longrightarrow> get_or_create_locked c h now = (r, created, c') \<Longrightarrow> open_at h r c'"
  using get_or_create_cat_but get_or_create_at by (simp add: open_at_def)

lemma max_peers_pos: "open_at h r c \<Longrightarrow> 1 \<le> c_max_peers_per_hash c"
  by (simp add: open_at_def inv_defs)

lemma open_at_peers_ok: "open_at h r c \<Longrightarrow> peers_ok (c_max_peers_per_hash c) (c_heap c r)"
  by (auto simp: open_at_def entry_ok_at_def entry_ok_def)

lemma get_or_create_same:
  assumes "get_or_create_locked c h now = (r, created, c')"
  shows "c_max_entries c' = c_max_entries c" "c_index_tracking c' = c_index_tracking c"
    "length (c_entries c') = length (c_entries c) + (if created then 1 else 0)"
  using assms by (auto simp: get_or_create_locked_def Let_def update_absent split: option.splits)

text \<open>\<open>_record_locked\<close> up to the eviction.\<close>

definition recorded :: "catalog \<Rightarrow> bytes \<Rightarrow> bool \<Rightarrow> catalog \<Rightarrow> ref \<Rightarrow> catalog \<Rightarrow> bool" where
  "recorded c info_hash created c' r c6 \<longleftrightarrow> map_of (c_entries c6) info_hash = Some r \<and> cat_ok c6
     \<and> c_max_entries c6 = c_max_entries c
     \<and> length (c_entries c6) = length (c_entries c) + (if created then 1 else 0)
     \<and> c' = (if length (c_entries c6) > c_max_entries c6 then evict_locked c6 else c6)
     \<and> (created \<longrightarrow> is_evictable (c_heap c6 r))
     \<and> (\<forall>h' r'. map_of (c_entries c) h' = Some r' \<longrightarrow> map_of (c_entries c6) h' = Some r')
     \<and> (\<forall>h' r'. map_of (c_entries c6) h' = Some r' \<longrightarrow> h' = info_hash \<or> map_of (c_entries c) h' = Some r')
     \<and> (\<forall>r'. r' \<noteq> r \<longrightarrow> c_heap c6 r' = c_heap c r')
     \<and> (\<not> created \<longrightarrow> map_of (c_entries c) info_hash = Some r
          \<and> is_evictable (c_heap c6 r) = is_evictable (c_heap c r)
          \<and> te_lookup_in_progress (c_heap c6 r) = te_lookup_in_progress (c_heap c r)
          \<and> te_fetch_state (c_heap c6 r) = te_fetch_state (c_heap c r)
          \<and> te_seen_count (c_heap c6 r) = te_seen_count (c_heap c r) + 1)"

lemma record_before_eviction:
  assumes inv: "cat_ok c"
  obtains r c6 where "recorded c info_hash (fst (record_locked c info_hash source peer moment))
    (snd (record_locked c info_hash source peer moment)) r c6"
proof -
  obtain r created c1 where go: "get_or_create_locked c info_hash moment = (r, created, c1)" by (cases "get_or_create_locked c info_hash moment") auto
  define c2 where "c2 = upd_entry c1 r (\<lambda>e. e\<lparr>te_seen_count := te_seen_count e + 1,
                 te_last_seen := max (te_last_seen e) moment,
                 te_announce_count := te_announce_count e + (if source = SOURCE_ANNOUNCE_PEER then 1 else 0)\<rparr>)"
  define c3 where "c3 = (case peer of None \<Rightarrow> c2
      | Some p \<Rightarrow> if te_fetch_state (c_heap c2 r) \<noteq> FETCH_DONE then snd (add_peer_locked c2 r p) else c2)"
  define c4 where "c4 = index_entry_locked (c3\<lparr>c_needs_lookup := AList.delete info_hash (c_needs_lookup c3)\<rparr>) r"
  define c5 where "c5 = (if c_index_tracking c4 \<and> (te_metadata (c_heap c4 r) \<noteq> None \<or> te_in_database (c_heap c4 r))
                then c4\<lparr>c_index_counters := od_setdefault info_hash r (c_index_counters c4)\<rparr> else c4)"
  define c6 where "c6 = c5\<lparr>c_observations := c_observations c5 + 1\<rparr>"
  have rec: "record_locked c info_hash source peer moment
      = (created, if length (c_entries c6) > c_max_entries c6 then evict_locked c6 else c6)"
    unfolding record_locked_def go Let_def split_conv c6_def c5_def c4_def c3_def c2_def by (rule refl)
  have o1: "open_at info_hash r c1" by (rule open_at_create[OF inv go])
  have o2: "open_at info_hash r c2" unfolding c2_def by (rule open_at_upd[OF o1]) simp_all
  have "peers_step r c2 c3" unfolding c3_def
    using peers_step_refl[OF open_at_peers_ok[OF o2]] add_peer_step[OF open_at_peers_ok[OF o2] max_peers_pos[OF o2]]
    by (simp split: option.splits)
  note s3 = this
  have o3: "open_at info_hash r c3" by (rule open_at_peers[OF o2 s3])
  have i4: "cat_ok c4" unfolding c4_def by (rule open_at_index[OF open_at_delete_lookup[OF o3]])
  have e4: "c_entries c4 = c_entries c1" "c_max_entries c4 = c_max_entries c1"
    by (simp_all add: c4_def peers_step_same[OF s3] c2_def)
  have at1: "map_of (c_entries c1) info_hash = Some r" by (rule get_or_create_at[OF go])
  then have i5: "cat_ok c5" unfolding c5_def using setdefault_counters_cat_but[OF i4] i4 e4 by simp
  have e6: "c_entries c6 = c_entries c1" "c_max_entries c6 = c_max_entries c1" "c_heap c6 = c_heap c4"
    by (simp_all add: c6_def c5_def e4)
  obtain ps fs where heap3: "c_heap c3 = (c_heap c2)(r := (c_heap c2 r)\<lparr>te_peers := ps, te_failed_peers := fs\<rparr>)"
    using peers_step_same(9)[OF s3] by blast
  have old: "c1 = c \<and> map_of (c_entries c) info_hash = Some r" if "\<not> created"
    using go that by (auto simp: get_or_create_locked_def Let_def split: option.splits)
  have ev: "is_evictable (c_heap c6 r)" if created
  proof -
    have "te_fetch_state (c_heap c1 r) = FETCH_PENDING" "\<not> te_lookup_in_progress (c_heap c1 r)"
      using go that by (auto simp: get_or_create_locked_def Let_def new_entry_def split: option.splits)
    then show ?thesis by (simp add: e6 c4_def is_evictable_def c2_def heap3)
  qed
  show thesis
  proof (rule that[of r c6], unfold recorded_def rec fst_conv snd_conv, intro conjI allI impI)
    show "map_of (c_entries c6) info_hash = Some r" using at1 e6 by simp
    show "cat_ok c6" using i5 by (simp add: c6_def)
    show "c_max_entries c6 = c_max_entries c" using e6 get_or_create_same[OF go] by simp
    show "length (c_entries c6) = length (c_entries c) + (if created then 1 else 0)"
      using e6 get_or_create_same[OF go] by simp
    show "map_of (c_entries c6) h' = Some r'" if "map_of (c_entries c) h' = Some r'" for h' r'
      using go that by (auto simp: e6 get_or_create_locked_def Let_def dict_simps split: option.splits)
    show "h' = info_hash \<or> map_of (c_entries c) h' = Some r'" if "map_of (c_entries c6) h' = Some r'" for h' r'
      using go that by (auto simp: e6 get_or_create_locked_def Let_def dict_simps split: option.splits if_splits)
    show "c_heap c6 r' = c_heap c r'" if "r' \<noteq> r" for r'
      using go that by (auto simp: e6 c4_def heap3 c2_def get_or_create_locked_def Let_def split: option.splits)
    show "map_of (c_entries c) info_hash = Some r" "is_evictable (c_heap c6 r) = is_evictable (c_heap c r)"
      "te_lookup_in_progress (c_heap c6 r) = te_lookup_in_progress (c_heap c r)" "te_fetch_state (c_heap c6 r) = te_fetch_state (c_heap c r)"
      "te_seen_count (c_heap c6 r) = te_seen_count (c_heap c r) + 1" if "\<not> created"
      using old[OF that] by (simp_all add: e6 c4_def heap3 c2_def is_evictable_def)
  qed (use ev in auto)
qed

lemma record_locked_ok: "cat_ok c \<Longrightarrow> cat_ok (snd (record_locked c info_hash source peer moment))"
  by (rule record_before_eviction[of c info_hash source peer moment])
    (auto simp: recorded_def evict_locked_ok(1))

lemma record_locked_capacity:
  assumes "cat_ok c" "length (c_entries c) \<le> c_max_entries c"
  shows "c_max_entries (snd (record_locked c info_hash source peer moment)) = c_max_entries c"
    "length (c_entries (snd (record_locked c info_hash source peer moment))) \<le> c_max_entries c"
proof -
  obtain r c6 where rec: "recorded c info_hash (fst (record_locked c info_hash source peer moment))
      (snd (record_locked c info_hash source peer moment)) r c6"
    by (rule record_before_eviction[OF assms(1)])
  then have at: "map_of (c_entries c6) info_hash = Some r" and ok: "cat_ok c6"
    and m: "c_max_entries c6 = c_max_entries c"
    and l: "length (c_entries c6) = length (c_entries c) + (if fst (record_locked c info_hash source peer moment) then 1 else 0)"
    and s: "snd (record_locked c info_hash source peer moment) = (if length (c_entries c6) > c_max_entries c6 then evict_locked c6 else c6)"
    and ev: "fst (record_locked c info_hash source peer moment) \<Longrightarrow> is_evictable (c_heap c6 r)"
    unfolding recorded_def by blast+
  note evict = evict_locked_ok[OF ok]
  show "c_max_entries (snd (record_locked c info_hash source peer moment)) = c_max_entries c"
    using s m evict(4) by simp
  show "length (c_entries (snd (record_locked c info_hash source peer moment))) \<le> c_max_entries c"
  proof (cases "length (c_entries c6) > c_max_entries c6")
    case True
    then have created: "fst (record_locked c info_hash source peer moment)" using l m assms(2) by (cases "fst (record_locked c info_hash source peer moment)") simp_all
    have "r \<in> snd ` set (c_entries c6)" using map_of_SomeD[OF at] by force
    with ev[OF created] have "eviction_victims c6 \<noteq> []" by (intro victims_ok(4)[OF ok]) (auto simp: evictable_refs_def)
    then have "1 \<le> length (eviction_victims c6)" by (cases "eviction_victims c6") simp_all
    with True s l m assms(2) evict(3) created show ?thesis by simp
  next
    case False
    with s m show ?thesis by simp
  qed
qed

lemma record_loop_ok:
  "cat_ok c \<Longrightarrow> cat_ok (snd (record_loop c hs source moment n))"
  by (induction hs arbitrary: c n) (auto simp: Let_def split_beta record_locked_ok)

lemma record_loop_capacity:
  "cat_ok c \<Longrightarrow> length (c_entries c) \<le> c_max_entries c \<Longrightarrow>
     length (c_entries (snd (record_loop c hs source moment n))) \<le> c_max_entries c
     \<and> c_max_entries (snd (record_loop c hs source moment n)) = c_max_entries c"
proof (induction hs arbitrary: c n)
  case (Cons h hs)
  note cap = record_locked_capacity[OF Cons.prems, of h source None moment]
  let ?c = "snd (record_locked c h source None moment)"
  have "length (c_entries (snd (record_loop ?c hs source moment m))) \<le> c_max_entries c
      \<and> c_max_entries (snd (record_loop ?c hs source moment m)) = c_max_entries c" for m
    using Cons.IH[of ?c m] cap record_locked_ok[OF Cons.prems(1)] by simp
  then show ?case by (simp add: Let_def split_beta)
qed simp

section \<open>Peers and lookups\<close>

lemma add_peers_ok: "cat_ok c \<Longrightarrow> cat_ok (snd (add_peers c info_hash peers))"
proof (cases "map_of (c_entries c) info_hash")
  case (Some r)
  assume "cat_ok c"
  then have o: "open_at info_hash r c" using Some by (rule open_atI)
  from open_at_index[OF open_at_peers[OF o add_peers_loop_step[OF open_at_peers_ok[OF o] max_peers_pos[OF o]]]]
  show ?thesis by (simp add: add_peers_def Some split_beta)
qed (simp add: add_peers_def)

lemma open_at_flag:
  assumes "open_at h r c" "te_lookup_in_progress (c_heap c r) = (\<not> b)" "l = c_lookups_in_progress c + (if b then 1 else - 1)"
  shows "open_at h r ((upd_entry c r (te_lookup_in_progress_update (\<lambda>_. b)))\<lparr>c_lookups_in_progress := l\<rparr>)"
proof -
  have at: "map_of (c_entries c) h = Some r" and inv: "cat_but {h} c" using assms(1) by (simp_all add: open_at_def)
  from flag_cat_but[OF inv at assms(2,3) doc_metadata[OF inv at]] assms(1) at
  show ?thesis by (simp add: open_at_def at_iff)
qed

lemma open_at_set_state:
  assumes "open_at h r c" and "te_metadata (c_heap c r) = None \<or> st = FETCH_DONE"
    and "\<not> te_known_from_database (c_heap c r) \<or> st = FETCH_DONE"
  shows "open_at h r (set_state_locked c r st)"
proof -
  have at: "map_of (c_entries c) h = Some r" and inv: "cat_but {h} c" using assms(1) by (simp_all add: open_at_def)
  have "peers_ok m (e\<lparr>te_fetch_state := st\<rparr>) = peers_ok m e" for m e by (simp add: peers_ok_def split: option.splits)
  with set_state_cat_but[OF inv at doc_metadata[OF inv at], of st] assms at
  show ?thesis by (auto simp: open_at_def at_iff entry_ok_def)
qed


lemma entry_ok_not_done:
  "entry_ok m e \<Longrightarrow> te_fetch_state e \<noteq> FETCH_DONE \<Longrightarrow> te_metadata e = None \<and> \<not> te_known_from_database e"
  by (cases "te_metadata e") (auto simp: entry_ok_def)

lemma claim_lookup_ok:
  assumes "cat_ok c" "map_of (c_entries c) h = Some r" "\<not> te_lookup_in_progress (c_heap c r)"
  shows "cat_ok (claim_lookup c r)"
  unfolding claim_lookup_def using open_at_index[OF open_at_flag[OF open_atI[OF assms(1,2)], of True]] assms(3) by simp

lemma claim_lookups_ok:
  "cat_ok c \<Longrightarrow> distinct rs \<Longrightarrow> (\<And>r. r \<in> set rs \<Longrightarrow> r \<in> snd ` set (c_entries c) \<and> \<not> te_lookup_in_progress (c_heap c r)) \<Longrightarrow>
     cat_ok (foldl claim_lookup c rs)"
proof (induction rs arbitrary: c)
  case (Cons r rs)
  have "r \<in> snd ` set (c_entries c)" "\<not> te_lookup_in_progress (c_heap c r)" using Cons.prems(3)[of r] by simp_all
  then have ok: "cat_ok (claim_lookup c r)" by (intro claim_lookup_ok[OF Cons.prems(1) ref_at[OF Cons.prems(1)]])
  show ?case using Cons.prems(2,3) by (simp, intro Cons.IH[OF ok]) (auto simp: claim_lookup_def)
qed simp

text \<open>The values of an index dictionary are distinct entries.\<close>

lemma index_refs:
  assumes inv: "cat_ok c" and od: "od_ok d" and le: "map_of d \<subseteq>\<^sub>m map_of (c_entries c)"
  shows "distinct (map snd d)" "set (map snd d) \<subseteq> snd ` set (c_entries c)"
proof -
  have at: "map_of (c_entries c) (fst p) = Some (snd p)" if "p \<in> set d" for p
    using map_of_SomeD2[OF od that] le by (metis domI map_le_def)
  show "set (map snd d) \<subseteq> snd ` set (c_entries c)"
    using at map_of_SomeD by (force simp: image_iff)
  have "inj_on snd (set d)"
    using at entry_hash[OF inv] by (intro inj_onI) (metis prod.expand)
  moreover have "distinct d" using od by (simp add: distinct_map)
  ultimately show "distinct (map snd d)" by (simp add: distinct_map)
qed

lemma index_dicts:
  assumes "cat_ok c"
  shows "od_ok (c_needs_lookup c)" "map_of (c_needs_lookup c) \<subseteq>\<^sub>m map_of (c_entries c)"
    "od_ok (c_fetchable c)" "map_of (c_fetchable c) \<subseteq>\<^sub>m map_of (c_entries c)"
    "od_ok (c_needs_check c)" "map_of (c_needs_check c) \<subseteq>\<^sub>m map_of (c_entries c)"
    "od_ok (c_fetched c)" "map_of (c_fetched c) \<subseteq>\<^sub>m map_of (c_entries c)"
  using cat_butD(1)[OF assms] by (simp_all add: shape_ok_def)

lemma sel_SomeD: "sel c P h = Some r \<Longrightarrow> map_of (c_entries c) h = Some r \<and> P (c_heap c r)"
  by (auto simp: sel_def split: option.splits if_splits)

lemma indexed_wants:
  assumes "cat_ok c"
  shows "r \<in> set (map snd (c_needs_lookup c)) \<Longrightarrow> wants_lookup (c_max_lookups c) (c_heap c r)"
    "r \<in> set (map snd (c_fetchable c)) \<Longrightarrow> wants_fetch (c_heap c r)"
    "r \<in> set (map snd (c_needs_check c)) \<Longrightarrow> wants_check (c_heap c r)"
    "r \<in> set (map snd (c_fetched c)) \<Longrightarrow> te_metadata (c_heap c r) \<noteq> None"
proof -
  note key = cat_butD(4,5)[OF assms, unfolded key_ok_def fetched_ok_def]
  note dicts = index_dicts[OF assms]
  show "r \<in> set (map snd (c_needs_lookup c)) \<Longrightarrow> wants_lookup (c_max_lookups c) (c_heap c r)"
    using key map_of_SomeD2[OF dicts(1)] sel_SomeD by fastforce
  show "r \<in> set (map snd (c_fetchable c)) \<Longrightarrow> wants_fetch (c_heap c r)"
    using key map_of_SomeD2[OF dicts(3)] sel_SomeD by fastforce
  show "r \<in> set (map snd (c_needs_check c)) \<Longrightarrow> wants_check (c_heap c r)"
    using key map_of_SomeD2[OF dicts(5)] sel_SomeD by fastforce
  show "r \<in> set (map snd (c_fetched c)) \<Longrightarrow> te_metadata (c_heap c r) \<noteq> None"
    using key map_of_SomeD2[OF dicts(7)] sel_SomeD by fastforce
qed

lemma hashes_needing_peers_ok: "cat_ok c \<Longrightarrow> cat_ok (snd (hashes_needing_peers c limit clock now))"
proof -
  assume inv: "cat_ok c"
  note dicts = index_dicts[OF inv]
  have "distinct (take n (filter P (rev (map snd (c_needs_lookup c)))))" for n P
    using index_refs(1)[OF inv dicts(1,2)] by (simp add: distinct_rev)
  moreover have "r \<in> snd ` set (c_entries c) \<and> \<not> te_lookup_in_progress (c_heap c r)"
    if "r \<in> set (take n (filter P (rev (map snd (c_needs_lookup c)))))" for n P r
  proof -
    have r: "r \<in> set (map snd (c_needs_lookup c))" using that by (auto dest!: in_set_takeD)
    with indexed_wants(1)[OF inv r] index_refs(2)[OF inv dicts(1,2)] show ?thesis by (auto simp: wants_lookup_def)
  qed
  ultimately show ?thesis unfolding hashes_needing_peers_def Let_def snd_conv by (intro claim_lookups_ok[OF inv]) auto
qed

lemma release_lookup_claim_ok: "cat_ok c \<Longrightarrow> cat_ok (release_lookup_claim c info_hash)"
  using open_at_index[OF open_at_flag[OF open_atI, of c info_hash _ False]]
  by (auto simp: release_lookup_claim_def split: option.splits)

lemma add_lookup_result_ok: "cat_ok c \<Longrightarrow> cat_ok (add_lookup_result c info_hash peers clock now)"
proof (cases "map_of (c_entries c) info_hash")
  case (Some r)
  assume inv: "cat_ok c"
  define c1 where "c1 = (if te_lookup_in_progress (c_heap c r)
      then (upd_entry c r (te_lookup_in_progress_update (\<lambda>_. False)))\<lparr>c_lookups_in_progress := c_lookups_in_progress c - 1\<rparr> else c)"
  define c2 where "c2 = upd_entry c1 r (\<lambda>e. e\<lparr>te_lookups_started := te_lookups_started e + 1\<rparr>)"
  define c3 where "c3 = snd (add_peers_loop c2 r peers 0)"
  let ?t = "te_next_lookup_time_update (\<lambda>_. moment_or_now clock now + c_lookup_retry_seconds c * real (te_lookups_started (c_heap c3 r)))"
  define c3a where "c3a = upd_entry c3 r ?t"
  define c4 where "c4 = (if \<not> has_peers (c_heap c3 r) then
      if te_lookups_started (c_heap c3 r) \<ge> c_max_lookups c \<and> te_fetch_state (c_heap c3 r) = FETCH_PENDING
      then set_state_locked (upd_entry c3a r (te_last_error_update (\<lambda>_. ''no_peers''))) r FETCH_FAILED else c3a else c3)"
  have "add_lookup_result c info_hash peers clock now = index_entry_locked c4 r"
    unfolding add_lookup_result_def Let_def Some option.case c4_def c3a_def c3_def c2_def c1_def by (rule refl)
  moreover have o1: "open_at info_hash r c1"
    unfolding c1_def using open_at_flag[OF open_atI[OF inv Some], of False] open_atI[OF inv Some] by simp
  have o2: "open_at info_hash r c2" unfolding c2_def by (rule open_at_upd[OF o1]) simp_all
  have o3: "open_at info_hash r c3" unfolding c3_def
    by (rule open_at_peers[OF o2 add_peers_loop_step[OF open_at_peers_ok[OF o2] max_peers_pos[OF o2]]])
  have o3a: "open_at info_hash r c3a" unfolding c3a_def by (rule open_at_upd[OF o3]) simp_all
  have o3b: "open_at info_hash r (upd_entry c3a r (te_last_error_update (\<lambda>_. ''no_peers'')))"
    by (rule open_at_upd[OF o3a]) simp_all
  have "entry_ok (c_max_peers_per_hash c3) (c_heap c3 r)" using o3 by (simp add: open_at_def entry_ok_at_def)
  then have "open_at info_hash r (set_state_locked (upd_entry c3a r (te_last_error_update (\<lambda>_. ''no_peers''))) r FETCH_FAILED)"
    if "te_fetch_state (c_heap c3 r) = FETCH_PENDING"
    using that entry_ok_not_done by (intro open_at_set_state[OF o3b]) (simp_all add: c3a_def)
  then have "open_at info_hash r c4" unfolding c4_def using o3 o3a by simp
  ultimately show ?thesis using open_at_index by simp
qed (simp add: add_lookup_result_def)

section \<open>Fetches\<close>

lemma claim_fetch_ok:
  assumes "cat_ok c" "map_of (c_entries c) h = Some r" "te_fetch_state (c_heap c r) = FETCH_PENDING"
  shows "cat_ok (claim_fetch c r)"
proof -
  have o: "open_at h r c" by (rule open_atI[OF assms(1,2)])
  then have "entry_ok (c_max_peers_per_hash c) (c_heap c r)" by (simp add: open_at_def entry_ok_at_def)
  with entry_ok_not_done assms(3) show ?thesis
    unfolding claim_fetch_def by (intro open_at_index[OF open_at_set_state[OF o]]) auto
qed

lemma claim_fetches_ok:
  "cat_ok c \<Longrightarrow> distinct rs \<Longrightarrow> (\<And>r. r \<in> set rs \<Longrightarrow> r \<in> snd ` set (c_entries c) \<and> te_fetch_state (c_heap c r) = FETCH_PENDING) \<Longrightarrow>
     cat_ok (snd (claim_fetches c rs))"
proof (induction rs arbitrary: c)
  case (Cons r rs)
  have "r \<in> snd ` set (c_entries c)" "te_fetch_state (c_heap c r) = FETCH_PENDING" using Cons.prems(3)[of r] by simp_all
  then have ok: "cat_ok (claim_fetch c r)" by (intro claim_fetch_ok[OF Cons.prems(1) ref_at[OF Cons.prems(1)]])
  have "cat_ok (snd (claim_fetches (claim_fetch c r) rs))"
    using Cons.prems(2,3) by (intro Cons.IH[OF ok]) (auto simp: claim_fetch_def)
  then show ?case by (simp add: Let_def split_beta)
qed simp

lemma nlargest_set: "set (nlargest n f xs) \<subseteq> set xs"
  unfolding nlargest_def sort_desc_def by (metis set_take_subset set_rev set_sort)

lemma nlargest_distinct: "distinct xs \<Longrightarrow> distinct (nlargest n f xs)"
  by (simp add: nlargest_def sort_desc_def)

lemma next_fetch_candidates_ok: "cat_ok c \<Longrightarrow> cat_ok (snd (next_fetch_candidates c limit))"
proof -
  assume inv: "cat_ok c"
  note refs = index_refs[OF inv index_dicts(3,4)[OF inv]]
  have "r \<in> snd ` set (c_entries c) \<and> te_fetch_state (c_heap c r) = FETCH_PENDING"
    if "r \<in> set (nlargest limit f (map snd (c_fetchable c)))" for r and f :: "ref \<Rightarrow> nat \<times> real"
  proof -
    have r: "r \<in> set (map snd (c_fetchable c))" using that by (rule subsetD[OF nlargest_set])
    with refs(2) indexed_wants(2)[OF inv r] show ?thesis by (auto simp: wants_fetch_def)
  qed
  then show ?thesis unfolding next_fetch_candidates_def
    by (intro claim_fetches_ok[OF inv nlargest_distinct[OF refs(1)]])
qed

lemma release_fetch_claim_ok: "cat_ok c \<Longrightarrow> cat_ok (release_fetch_claim c info_hash)"
proof (cases "map_of (c_entries c) info_hash")
  case (Some r)
  assume "cat_ok c"
  then have o: "open_at info_hash r c" using Some by (rule open_atI)
  then have "entry_ok (c_max_peers_per_hash c) (c_heap c r)" by (simp add: open_at_def entry_ok_at_def)
  with entry_ok_not_done have "cat_ok (index_entry_locked (set_state_locked c r FETCH_PENDING) r)"
    if "te_fetch_state (c_heap c r) = FETCH_IN_PROGRESS"
    using that by (intro open_at_index[OF open_at_set_state[OF o]]) auto
  with \<open>cat_ok c\<close> show ?thesis by (simp add: release_fetch_claim_def Some)
qed (simp add: release_fetch_claim_def)

text \<open>\<open>mark_fetch_failed\<close> is called for a claimed hash: its entry is not done.\<close>

lemma mark_fetch_failed_ok:
  assumes inv: "cat_ok c"
    and claimed: "\<And>r. map_of (c_entries c) info_hash = Some r \<Longrightarrow> te_fetch_state (c_heap c r) = FETCH_IN_PROGRESS"
  shows "cat_ok (snd (mark_fetch_failed c info_hash tried_peers reason clock now))"
proof (cases "map_of (c_entries c) info_hash")
  case (Some r)
  define c1 where "c1 = foldl (\<lambda>c peer. forget_peer_locked c r peer) c tried_peers"
  define c2 where "c2 = upd_entry c1 r (\<lambda>e. e\<lparr>te_fetch_attempts := te_fetch_attempts e + 1, te_last_error := reason\<rparr>)"
  define c2n where "c2n = upd_entry c2 r (te_last_error_update (\<lambda>_. ''no_peers''))"
  define c2a where "c2a = set_state_locked c2 r FETCH_PENDING"
  define c3 where "c3 = (if te_fetch_attempts (c_heap c2 r) \<ge> c_max_fetch_attempts c2 then set_state_locked c2 r FETCH_FAILED
      else if \<not> has_peers (c_heap c2 r) \<and> te_lookups_started (c_heap c2 r) \<ge> c_max_lookups c2 \<and> \<not> te_lookup_in_progress (c_heap c2 r)
      then set_state_locked c2n r FETCH_FAILED
      else if \<not> has_peers (c_heap c2 r) then upd_entry c2a r (te_next_lookup_time_update (\<lambda>_. moment_or_now clock now)) else c2a)"
  have res: "snd (mark_fetch_failed c info_hash tried_peers reason clock now) = index_entry_locked c3 r"
    unfolding mark_fetch_failed_def Let_def Some option.case snd_conv c3_def c2n_def c2a_def c2_def c1_def by (rule refl)
  have o: "open_at info_hash r c" by (rule open_atI[OF inv Some])
  have s1: "peers_step r c c1" unfolding c1_def by (rule forget_peers_step[OF open_at_peers_ok[OF o]])
  have o1: "open_at info_hash r c1" by (rule open_at_peers[OF o s1])
  have o2: "open_at info_hash r c2" unfolding c2_def by (rule open_at_upd[OF o1]) simp_all
  have "te_fetch_state (c_heap c2 r) \<noteq> FETCH_DONE"
    using claimed[OF Some] peers_step_same(9)[OF s1] by (auto simp: c2_def)
  moreover have "entry_ok (c_max_peers_per_hash c2) (c_heap c2 r)" using o2 by (simp add: open_at_def entry_ok_at_def)
  ultimately have nd: "te_metadata (c_heap c2 r) = None" "\<not> te_known_from_database (c_heap c2 r)"
    using entry_ok_not_done by blast+
  have o2n: "open_at info_hash r c2n" unfolding c2n_def by (rule open_at_upd[OF o2]) simp_all
  have set: "open_at info_hash r (set_state_locked c2 r st)" for st using nd by (intro open_at_set_state[OF o2]) simp_all
  have set_n: "open_at info_hash r (set_state_locked c2n r st)" for st
    using nd by (intro open_at_set_state[OF o2n]) (simp_all add: c2n_def)
  have o2t: "open_at info_hash r (upd_entry c2a r (te_next_lookup_time_update (\<lambda>_. moment_or_now clock now)))"
    unfolding c2a_def by (rule open_at_upd[OF set]) simp_all
  have "open_at info_hash r c3" unfolding c3_def using set set_n o2t by (simp add: c2a_def)
  then show ?thesis unfolding res by (rule open_at_index)
qed (simp add: mark_fetch_failed_def inv)

section \<open>Documents to write\<close>

lemma drop_unwritten_ok:
  assumes inv: "cat_ok c" and docs: "map_of (c_index_documents c) (te_info_hash (c_heap c r)) \<noteq> Some r"
  shows "cat_ok (drop_unwritten_metadata_locked c r)"
proof -
  let ?h = "te_info_hash (c_heap c r)"
  show ?thesis
  proof (cases "map_of (c_entries c) ?h = Some r \<and> te_metadata (c_heap c r) \<noteq> None \<and> te_fetch_state (c_heap c r) = FETCH_DONE")
    case True
    then have at: "map_of (c_entries c) ?h = Some r" by blast
    define c1 where "c1 = c\<lparr>c_metadata_bytes := c_metadata_bytes c - md_size (te_metadata (c_heap c r))\<rparr>"
    define c2 where "c2 = upd_entry c1 r (\<lambda>e. e\<lparr>te_metadata := None, te_database_checked := True\<rparr>)"
    define c3 where "c3 = c2\<lparr>c_fetched := AList.delete ?h (c_fetched c2)\<rparr>"
    have res: "drop_unwritten_metadata_locked c r = index_entry_locked (set_state_locked c3 r FETCH_PENDING) r"
      using True by (simp add: drop_unwritten_metadata_locked_def Let_def c3_def c2_def c1_def)
    have ok: "entry_ok (c_max_peers_per_hash c) (c_heap c r)"
      using cat_butD(6)[OF inv, of ?h] at by (simp add: entry_ok_at_def)
    have i1: "cat_ok c1" using inv by (simp add: c1_def)
    have i2: "cat_but {?h} c2" unfolding c2_def using docs at
      by (intro upd_plain[OF i1]) (simp_all add: c1_def)
    have i3: "cat_but {?h} c3" unfolding c3_def using delete_fetched_cat_but[OF i2, of ?h] by simp
    have "\<not> te_known_from_database (c_heap c r)" using ok True by (auto simp: entry_ok_def)
    moreover have "peers_ok m (e\<lparr>te_metadata := x, te_database_checked := b\<rparr>) = peers_ok m e" for m e x b
      by (simp add: peers_ok_def split: option.splits)
    ultimately have "open_at ?h r c3" using i3 at ok
      by (simp add: open_at_def at_iff) (simp add: c3_def c2_def c1_def at_iff dict_simps entry_ok_def)
    then show ?thesis unfolding res
      using \<open>\<not> te_known_from_database (c_heap c r)\<close>
      by (intro open_at_index[OF open_at_set_state]) (simp_all add: c3_def c2_def c1_def)
  next
    case False
    then show ?thesis using inv by (auto simp: drop_unwritten_metadata_locked_def Let_def)
  qed
qed


lemma queue_document_ok:
  assumes inv: "cat_ok c" and r: "r < c_next_ref c" "te_metadata (c_heap c r) \<noteq> None"
  shows "cat_ok (queue_document_locked c r)"
proof -
  let ?h = "te_info_hash (c_heap c r)"
  define c1 where "c1 = c\<lparr>c_index_counters := AList.delete ?h (c_index_counters c)\<rparr>"
  define docs where "docs = c_index_documents c @ [(?h, r)]"
  have i1: "cat_ok c1" unfolding c1_def by (rule delete_counters_cat_but[OF inv])
  show ?thesis
  proof (cases "?h \<in> fst ` set (c_index_documents c)")
    case True
    then show ?thesis using i1 by (simp add: queue_document_locked_def Let_def c1_def)
  next
    case False
    then have od: "od_ok docs" using documents_ok[OF inv] by (auto simp: docs_def)
    have member: "snd p < c_next_ref c1 \<and> te_info_hash (c_heap c1 (snd p)) = fst p \<and> te_metadata (c_heap c1 (snd p)) \<noteq> None"
      if "p \<in> set docs" for p
      using that r documentsD[OF inv map_of_SomeD2[OF documents_ok[OF inv]], of p] by (auto simp: docs_def c1_def)
    have queued: "cat_ok (c1\<lparr>c_index_documents := d\<rparr>)" if "set d \<subseteq> set docs" "od_ok d" for d
      using that member by (intro documents_cat_but[OF i1]) (auto dest!: map_of_SomeD)
    obtain p ps where ps: "docs = p # ps" by (cases docs) (auto simp: docs_def)
    let ?c2 = "c1\<lparr>c_index_documents := ps, c_index_dropped := c_index_dropped c1 + 1\<rparr>"
    have "cat_ok ?c2" using queued[of ps] od ps by (simp, auto)
    moreover have "map_of ps (fst p) = None" using od ps by (simp add: map_of_eq_None_iff image_iff)
    ultimately have "cat_ok (drop_unwritten_metadata_locked ?c2 (snd p))"
      using member[of p] ps by (intro drop_unwritten_ok) auto
    then show ?thesis using False queued[of docs] od ps
      by (simp add: queue_document_locked_def Let_def c1_def docs_def)
  qed
qed

lemma store_metadata_ok: "cat_ok c \<Longrightarrow> cat_ok (snd (store_metadata c metadata clock now))"
proof -
  assume inv: "cat_ok c"
  let ?h = "md_info_hash (snd metadata)"
  obtain r created c1 where go: "get_or_create_locked c ?h (moment_or_now clock now) = (r, created, c1)"
    by (cases "get_or_create_locked c ?h (moment_or_now clock now)") auto
  define e where "e = c_heap c1 r"
  define c2 where "c2 = (if te_fetch_state e \<noteq> FETCH_DONE \<or> te_known_from_database e
      then c1\<lparr>c_metadata_bytes := c_metadata_bytes c1 + md_total_size (snd metadata)\<rparr> else c1)"
  define c3 where "c3 = forget_known_locked c2 r"
  define c4 where "c4 = upd_entry c3 r (\<lambda>e. e\<lparr>te_metadata := Some metadata, te_last_error := []\<rparr>)"
  define c5 where "c5 = set_state_locked c4 r FETCH_DONE"
  define c6 where "c6 = c5\<lparr>c_fetched := AList.update (te_info_hash e) r (c_fetched c5)\<rparr>"
  define c7 where "c7 = index_entry_locked c6 r"
  have res: "snd (store_metadata c metadata clock now) = (if c_index_tracking c7 then queue_document_locked c7 r else c7)"
    unfolding store_metadata_def Let_def go split_conv snd_conv c7_def c6_def c5_def c4_def c3_def c2_def e_def by (rule refl)
  have o1: "open_at ?h r c1" by (rule open_at_create[OF inv go])
  then have i1: "cat_but {?h} c1" and at: "map_of (c_entries c1) ?h = Some r"
    and ok: "entry_ok (c_max_peers_per_hash c1) e" by (simp_all add: open_at_def entry_ok_at_def e_def)
  have same2: "c_entries c2 = c_entries c1" "c_heap c2 = c_heap c1" "c_fetched c2 = c_fetched c1"
    "c_max_peers_per_hash c2 = c_max_peers_per_hash c1" by (simp_all add: c2_def)
  have i2: "cat_but {?h} c2" using i1 by (simp add: c2_def)
  have at2: "map_of (c_entries c2) ?h = Some r" using at same2 by simp
  have i3: "cat_but {?h} c3" using forget_known_cat_but[OF i2 at2 doc_metadata[OF i2 at2]] by (simp add: c3_def)
  have at3: "map_of (c_entries c3) ?h = Some r" using at2 by (simp add: c3_def)
  have i4: "cat_but {?h} c4" unfolding c4_def using upd_plain[OF i3 at3, of "\<lambda>e. e\<lparr>te_metadata := Some metadata, te_last_error := []\<rparr>"] by simp
  have at4: "map_of (c_entries c4) ?h = Some r" using at3 by (simp add: c4_def)
  have i5: "cat_but {?h} c5" unfolding c5_def using set_state_cat_but[OF i4 at4 doc_metadata[OF i4 at4]] by simp
  have h: "te_info_hash e = ?h" using entry_hash[OF i1 at] by (simp add: e_def)
  have at5: "map_of (c_entries c5) ?h = Some r" using at4 by (simp add: c5_def)
  have i6: "cat_but {?h} c6" unfolding c6_def h using update_fetched_cat_but[OF i5 at5] by simp
  have heap6: "c_heap c6 r = e\<lparr>te_known_from_database := False, te_metadata := Some metadata, te_last_error := [], te_fetch_state := FETCH_DONE\<rparr>"
    by (simp add: c6_def c5_def c4_def c3_def same2 e_def)
  have pk: "peers_ok m (e\<lparr>te_known_from_database := b, te_metadata := x, te_last_error := s, te_fetch_state := st\<rparr>) = peers_ok m e" for m b x s st
    by (simp add: peers_ok_def split: option.splits)
  have at6: "map_of (c_entries c6) ?h = Some r" using at5 by (simp add: c6_def)
  have m6: "c_max_peers_per_hash c6 = c_max_peers_per_hash c1" by (simp add: c6_def c5_def c4_def c3_def same2)
  have "map_of (c_fetched c6) ?h = Some r" by (simp add: c6_def h dict_simps)
  then have "open_at ?h r c6" using i6 at6 ok by (simp add: open_at_def at_iff heap6 m6 entry_ok_def pk)
  then have i7: "cat_ok c7" unfolding c7_def by (rule open_at_index)
  have "r < c_next_ref c7" using cat_butD(1)[OF i7] at6 by (simp add: shape_ok_def c7_def)
  moreover have "te_metadata (c_heap c7 r) \<noteq> None" by (simp add: c7_def heap6)
  ultimately show ?thesis unfolding res using queue_document_ok[OF i7] i7 by simp
qed

section \<open>The search index and the database\<close>

text \<open>Assignments to the flushed counters and the base of any entry object, evicted or not.\<close>

definition quiet :: "(torrent_entry \<Rightarrow> torrent_entry) \<Rightarrow> bool" where
  "quiet f \<longleftrightarrow> (\<forall>e. \<exists>ib fs fa. f e = e\<lparr>te_index_base := ib, te_flushed_seen := fs, te_flushed_announce := fa\<rparr>)"

lemma quiet_wants:
  assumes "quiet f"
  shows "wants_check (f e) = wants_check e" "wants_fetch (f e) = wants_fetch e" "wants_lookup m (f e) = wants_lookup m e"
    "entry_ok m (f e) = entry_ok m e" "te_metadata (f e) = te_metadata e" "te_info_hash (f e) = te_info_hash e"
    "te_fetch_state (f e) = te_fetch_state e" "te_lookup_in_progress (f e) = te_lookup_in_progress e"
    "te_known_from_database (f e) = te_known_from_database e"
proof -
  obtain ib fs fa where f: "f e = e\<lparr>te_index_base := ib, te_flushed_seen := fs, te_flushed_announce := fa\<rparr>"
    using assms unfolding quiet_def by blast
  then show "wants_check (f e) = wants_check e" "wants_fetch (f e) = wants_fetch e" "wants_lookup m (f e) = wants_lookup m e"
    "entry_ok m (f e) = entry_ok m e" "te_metadata (f e) = te_metadata e" "te_info_hash (f e) = te_info_hash e"
    "te_fetch_state (f e) = te_fetch_state e" "te_lookup_in_progress (f e) = te_lookup_in_progress e"
    "te_known_from_database (f e) = te_known_from_database e"
    by (simp_all add: wants_check_def wants_fetch_def wants_lookup_def has_peers_def)
qed

lemma quiet_ok:
  assumes inv: "cat_but X c" and q: "quiet f"
  shows "cat_but X (upd_entry c r f)"
proof -
  let ?c = "upd_entry c r f"
  have p: "P (c_heap ?c r') = P (c_heap c r')" if "\<And>e. P (f e) = P e" for P :: "torrent_entry \<Rightarrow> bool" and r'
    using that by simp
  have s: "sel ?c P h = sel c P h" if "\<And>e. P (f e) = P e" for P h
    using that by (auto simp: sel_def split: option.splits)
  have t: "tally ?c P = tally c P" if "\<And>e. P (f e) = P e" for P
    unfolding tally_def by (intro arg_cong[where f = sum_list] map_cong) (simp_all add: that)
  have same: "te_info_hash (c_heap ?c r') = te_info_hash (c_heap c r')" "te_metadata (c_heap ?c r') = te_metadata (c_heap c r')" for r'
    by (simp_all add: quiet_wants[OF q])
  have "shape_ok ?c" using cat_butD(1)[OF inv] unfolding shape_ok_def same by simp
  moreover have "queues_ok ?c" using cat_butD(3)[OF inv] unfolding queues_ok_def same by simp
  moreover have "c_state_counts ?c = c_state_counts c" by (simp add: upd_entry_def)
  then have "counts_ok ?c" using cat_butD(2)[OF inv] by (simp add: counts_ok_def t quiet_wants[OF q])
  moreover have "key_ok ?c h = key_ok c h" "fetched_ok ?c h = fetched_ok c h" for h
    by (simp_all add: key_ok_def fetched_ok_def s quiet_wants[OF q])
  moreover have "entry_ok_at ?c h = entry_ok_at c h" for h
    using p[of "entry_ok (c_max_peers_per_hash c)"] quiet_wants(4)[OF q] by (auto simp: entry_ok_at_def)
  ultimately show ?thesis using inv by (simp add: cat_but_def)
qed

lemma quiet_base: "quiet (te_index_base_update (\<lambda>_. b))"
proof (unfold quiet_def, intro allI)
  fix e :: torrent_entry
  show "\<exists>ib fs fa. e\<lparr>te_index_base := b\<rparr> = e\<lparr>te_index_base := ib, te_flushed_seen := fs, te_flushed_announce := fa\<rparr>"
    by (rule exI[of _ b], rule exI[of _ "te_flushed_seen e"], rule exI[of _ "te_flushed_announce e"]) simp
qed

lemma quiet_flushed: "quiet (\<lambda>e. e\<lparr>te_flushed_seen := f e, te_flushed_announce := g e\<rparr>)"
proof (unfold quiet_def, intro allI)
  fix e :: torrent_entry
  show "\<exists>ib fs fa. e\<lparr>te_flushed_seen := f e, te_flushed_announce := g e\<rparr>
      = e\<lparr>te_index_base := ib, te_flushed_seen := fs, te_flushed_announce := fa\<rparr>"
    by (rule exI[of _ "te_index_base e"], rule exI[of _ "f e"], rule exI[of _ "g e"]) simp
qed

lemma quiet_reset: "quiet (\<lambda>e. e\<lparr>te_index_base := b, te_flushed_seen := m, te_flushed_announce := n\<rparr>)"
  unfolding quiet_def by blast

lemma add_flushed_ok: "cat_ok c \<Longrightarrow> cat_ok (add_flushed c s)"
  unfolding add_flushed_def by (rule quiet_ok[OF _ quiet_flushed])

lemma mark_counters_written_ok: "cat_ok c \<Longrightarrow> cat_ok (mark_counters_written c ss)"
  unfolding mark_counters_written_def by (induction ss arbitrary: c) (auto simp: add_flushed_ok)

lemma set_index_base_ok: "cat_ok c \<Longrightarrow> cat_ok (set_index_base c h base)"
  unfolding set_index_base_def by (auto simp: quiet_ok quiet_base split: option.splits)

lemma enable_index_tracking_ok: "cat_ok c \<Longrightarrow> cat_ok (enable_index_tracking c n b)"
  by (simp add: enable_index_tracking_def)

lemma drain_index_documents_ok: "cat_ok c \<Longrightarrow> cat_ok (snd (drain_index_documents c limit))"
proof -
  assume inv: "cat_ok c"
  have od: "od_ok (drop limit (c_index_documents c))"
    unfolding drop_map[symmetric] using documents_ok[OF inv] by (rule distinct_drop)
  then have "cat_ok (c\<lparr>c_index_documents := drop limit (c_index_documents c)\<rparr>)"
  proof (rule documents_cat_but[OF inv])
    fix h r assume "map_of (drop limit (c_index_documents c)) h = Some r"
    then have "(h, r) \<in> set (c_index_documents c)" by (auto dest!: map_of_SomeD in_set_dropD)
    with documents_ok[OF inv] have "map_of (c_index_documents c) h = Some r" by (simp add: map_of_eq_Some_iff)
    then show "r < c_next_ref c \<and> te_info_hash (c_heap c r) = h \<and> te_metadata (c_heap c r) \<noteq> None"
      by (rule documentsD[OF inv])
  qed
  then show ?thesis by (simp add: drain_index_documents_def)
qed

lemma drain_counters_ok: "cat_ok c \<Longrightarrow> cat_ok (snd (drain_counters c limit result))"
proof (induction c limit result rule: drain_counters.induct)
  case (1 c limit result)
  show ?case
  proof (cases "c_index_counters c")
    case Nil
    then show ?thesis using "1.prems" by (subst drain_counters.simps) simp
  next
    case (Cons p counters)
    obtain h r where p: "p = (h, r)" by (cases p)
    let ?c1 = "c\<lparr>c_index_counters := counters\<rparr>"
    have "map_of (c_index_counters c) h = Some r" by (simp add: Cons p)
    then have at: "map_of (c_entries c) h = Some r" using counters_le[OF "1.prems"] by (metis domI map_le_def)
    have "map_of counters h = None" using counters_ok[OF "1.prems"] by (simp add: Cons p map_of_eq_None_iff)
    then have "map_of counters \<subseteq>\<^sub>m map_of (c_index_counters c)" by (auto simp: Cons p map_le_def)
    then have le: "map_of counters \<subseteq>\<^sub>m map_of (c_entries c)" using counters_le[OF "1.prems"] by (rule map_le_trans)
    have i1: "cat_ok ?c1" using counters_ok[OF "1.prems"] Cons p by (intro counters_cat_but[OF "1.prems" _ le]) simp
    have "r < c_next_ref ?c1" using cat_butD(1)[OF "1.prems"] at by (simp add: shape_ok_def)
    then have i2: "cat_ok (if te_metadata (c_heap ?c1 r) \<noteq> None then queue_document_locked ?c1 r else ?c1)"
      using queue_document_ok[OF i1] i1 by simp
    show ?thesis
      using "1.IH"[OF Cons p[symmetric]] "1.prems" i1 i2 Cons p
      by (subst drain_counters.simps) (simp add: Let_def)
  qed
qed

lemma drain_index_counters_ok: "cat_ok c \<Longrightarrow> cat_ok (snd (drain_index_counters c limit))"
  unfolding drain_index_counters_def by (auto simp: Let_def split_beta intro: drain_counters_ok)

lemma add_orphan_ok: "cat_ok c \<Longrightarrow> cat_ok (add_orphan_locked c r)"
  by (simp add: add_orphan_locked_def Let_def)

lemma requeue_index_counters_ok: "cat_ok c \<Longrightarrow> cat_ok (requeue_index_counters c ss)"
proof -
  have "cat_ok c \<Longrightarrow> cat_ok (requeue_index_counter c s)" for c s
    by (auto simp: requeue_index_counter_def add_orphan_ok intro: setdefault_counters_cat_but)
  then show "cat_ok c \<Longrightarrow> cat_ok (requeue_index_counters c ss)"
    unfolding requeue_index_counters_def by (induction ss arbitrary: c) auto
qed

text \<open>A snapshot whose entry still has metadata: what the indexer may put back.\<close>

definition unwritten :: "catalog \<Rightarrow> index_snapshot \<Rightarrow> bool" where
  "unwritten c s \<longleftrightarrow> is_entry s < c_next_ref c \<and> te_info_hash (c_heap c (is_entry s)) = is_info_hash s
     \<and> te_metadata (c_heap c (is_entry s)) \<noteq> None"

lemma requeue_documents_foldl:
  assumes "\<And>s. s \<in> set ss \<Longrightarrow> unwritten c s" and "od_ok d"
    and "\<And>p. p \<in> set d \<Longrightarrow> snd p < c_next_ref c \<and> te_info_hash (c_heap c (snd p)) = fst p \<and> te_metadata (c_heap c (snd p)) \<noteq> None"
  defines "d' \<equiv> foldl (\<lambda>docs s. if is_info_hash s \<in> fst ` set docs then docs else (is_info_hash s, is_entry s) # docs) d ss"
  shows "od_ok d' \<and> (\<forall>p \<in> set d'. snd p < c_next_ref c \<and> te_info_hash (c_heap c (snd p)) = fst p \<and> te_metadata (c_heap c (snd p)) \<noteq> None)"
  using assms(1-3) unfolding d'_def
proof (induction ss arbitrary: d)
  case (Cons s ss)
  show ?case using Cons.prems(1)[of s] Cons.prems
    by (simp only: foldl_Cons, intro Cons.IH) (auto simp: unwritten_def split: if_splits)
qed auto

lemma requeue_index_documents_ok:
  assumes inv: "cat_ok c" and ss: "\<And>s. s \<in> set ss \<Longrightarrow> unwritten c s"
  shows "cat_ok (requeue_index_documents c ss)"
proof -
  have docs: "snd p < c_next_ref c \<and> te_info_hash (c_heap c (snd p)) = fst p \<and> te_metadata (c_heap c (snd p)) \<noteq> None"
    if "p \<in> set (c_index_documents c)" for p
    using documentsD[OF inv map_of_SomeD2[OF documents_ok[OF inv] that]] .
  note f = requeue_documents_foldl[of "rev ss" c "c_index_documents c", OF _ documents_ok[OF inv] docs]
  show ?thesis unfolding requeue_index_documents_def using f ss
    by (intro documents_cat_but[OF inv]) (auto dest!: map_of_SomeD)
qed

lemma done_wants:
  "te_fetch_state e = FETCH_DONE \<Longrightarrow> \<not> wants_check e \<and> \<not> wants_fetch e \<and> \<not> wants_lookup m e"
  by (simp add: wants_check_def wants_fetch_def wants_lookup_def)

lemma release_metadata_ok:
  assumes inv: "cat_ok c" and at: "map_of (c_entries c) h = Some r" and dn: "te_fetch_state (c_heap c r) = FETCH_DONE"
    and docs: "map_of (c_index_documents c) h \<noteq> Some r"
  shows "cat_ok (release_metadata_locked c r)"
proof -
  let ?f = "\<lambda>e. e\<lparr>te_metadata := None, te_in_database := True, te_peers := None, te_failed_peers := None\<rparr>"
  have h: "te_info_hash (c_heap c r) = h" by (rule entry_hash[OF inv at])
  define c2 where "c2 = (upd_entry c r ?f)\<lparr>c_fetched := AList.delete h (c_fetched c)\<rparr>"
  have "cat_but {h} (upd_entry c r ?f)" using docs by (intro upd_plain[OF inv at]) simp_all
  then have i2: "cat_but {h} c2" using delete_fetched_cat_but[of "{h}" "upd_entry c r ?f" h] by (simp add: c2_def)
  have at2: "map_of (c_entries c2) h = Some r" using at by (simp add: c2_def)
  have heap2: "c_heap c2 r = ?f (c_heap c r)" by (simp add: c2_def)
  have "key_ok c h" "entry_ok_at c h" using cat_butD[OF inv] by auto
  then have "key_ok c2 h" "entry_ok_at c2 h" "fetched_ok c2 h"
    using done_wants[OF dn] done_wants[of "?f (c_heap c r)"] dn at
    by (simp_all add: at_iff[OF at] at_iff[OF at2] heap2) (simp_all add: c2_def entry_ok_def peers_ok_def dict_simps)
  then have "cat_ok c2" using cat_but_restore[of h "{}" c2] i2 by simp
  moreover have "release_metadata_locked c r = c2" by (simp add: release_metadata_locked_def Let_def c2_def h)
  ultimately show ?thesis by simp
qed

lemma mark_index_written_ok:
  assumes inv: "cat_ok c" and md: "is_metadata s \<noteq> None"
  shows "cat_ok (mark_index_written c s base)"
proof -
  define c1 where "c1 = add_flushed c s"
  have i1: "cat_ok c1" unfolding c1_def by (rule add_flushed_ok[OF inv])
  show ?thesis
  proof (cases "map_of (c_entries c1) (is_info_hash s) = Some (is_entry s)")
    case False
    then show ?thesis using i1 by (simp add: mark_index_written_def c1_def Let_def)
  next
    case True
    let ?r = "is_entry s" let ?h = "is_info_hash s"
    define c2 where "c2 = upd_entry c1 ?r (te_index_base_update (\<lambda>_. Some base))"
    have i2: "cat_ok c2" unfolding c2_def by (rule quiet_ok[OF i1 quiet_base])
    have at2: "map_of (c_entries c2) ?h = Some ?r" using True by (simp add: c2_def)
    have h2: "te_info_hash (c_heap c2 ?r) = ?h" by (rule entry_hash[OF i2 at2])
    define c3 where "c3 = (if ?h \<in> fst ` set (c_index_documents c2)
        then c2\<lparr>c_index_documents := AList.delete ?h (c_index_documents c2),
                c_index_counters := od_setdefault ?h ?r (c_index_counters c2)\<rparr> else c2)"
    have res: "mark_index_written c s base =
        (if map_option fst (te_metadata (c_heap c2 ?r)) = map_option fst (is_metadata s) then release_metadata_locked c3 ?r else c2)"
      using True by (simp add: mark_index_written_def c1_def[symmetric] c2_def[symmetric] c3_def h2 Let_def)
    have "cat_ok (c2\<lparr>c_index_documents := AList.delete ?h (c_index_documents c2)\<rparr>)"
      using documents_ok[OF i2] documentsD[OF i2]
      by (intro documents_cat_but[OF i2]) (auto simp: dict_simps split: if_splits)
    from setdefault_counters_cat_but[OF this, of ?h ?r] at2 i2
    have i3: "cat_ok c3" by (simp add: c3_def)
    have at3: "map_of (c_entries c3) ?h = Some ?r" "c_heap c3 = c_heap c2" using at2 by (simp_all add: c3_def)
    have docs: "map_of (c_index_documents c3) ?h = None" by (simp add: c3_def map_of_eq_None_iff keys_delete)
    have "cat_ok (release_metadata_locked c3 ?r)" if "map_option fst (te_metadata (c_heap c2 ?r)) = map_option fst (is_metadata s)"
    proof -
      have "te_metadata (c_heap c3 ?r) \<noteq> None" using that md at3 by (cases "te_metadata (c_heap c2 ?r)") auto
      moreover have "entry_ok_at c3 ?h" using cat_butD(6)[OF i3] by blast
      ultimately have "te_fetch_state (c_heap c3 ?r) = FETCH_DONE" using at3 by (simp add: at_iff entry_ok_def)
      with at3 docs show ?thesis by (intro release_metadata_ok[OF i3 at3(1)]) simp_all
    qed
    with i2 show ?thesis by (simp add: res)
  qed
qed

lemma check_off_ok:
  assumes "cat_ok c" "map_of (c_entries c) h = Some r"
  shows "cat_ok (check_off c r)"
  unfolding check_off_def by (rule open_at_index[OF open_at_upd[OF open_atI[OF assms]]]) simp_all

lemma check_offs_ok:
  "cat_ok c \<Longrightarrow> set rs \<subseteq> snd ` set (c_entries c) \<Longrightarrow> cat_ok (foldl check_off c rs)"
proof (induction rs arbitrary: c)
  case (Cons r rs)
  then have "cat_ok (check_off c r)" by (intro check_off_ok[OF Cons.prems(1) ref_at[OF Cons.prems(1)]]) auto
  then show ?case using Cons.prems(2) by (simp, intro Cons.IH) (auto simp: check_off_def)
qed simp

lemma set_database_check_ok: "cat_ok c \<Longrightarrow> cat_ok (set_database_check c enabled)"
  using check_offs_ok[of "c\<lparr>c_check_database := False\<rparr>" "map snd (c_needs_check c)"]
    index_refs(2)[of c, OF _ index_dicts(5,6)]
  by (simp add: set_database_check_def Let_def)

lemma apply_database_check_ok:
  assumes inv: "cat_ok c"
  shows "cat_ok (apply_database_check found c h)"
proof (cases "map_of (c_needs_check c) h")
  case None
  then show ?thesis using inv by (simp add: apply_database_check_def)
next
  case (Some r)
  have at: "map_of (c_entries c) h = Some r" and w: "wants_check (c_heap c r)"
    using cat_butD(4)[OF inv, of h] Some sel_SomeD[of c wants_check h r] unfolding key_ok_def by simp_all
  then have pend: "te_fetch_state (c_heap c r) = FETCH_PENDING" "\<not> te_database_checked (c_heap c r)"
    by (simp_all add: wants_check_def)
  have "entry_ok (c_max_peers_per_hash c) (c_heap c r)" using cat_butD(6)[OF inv, of h] at by (simp add: at_iff)
  with entry_ok_not_done pend have nd: "te_metadata (c_heap c r) = None" "\<not> te_known_from_database (c_heap c r)" by auto
  define c1 where "c1 = c\<lparr>c_needs_check := AList.delete h (c_needs_check c)\<rparr>"
  define c2 where "c2 = upd_entry c1 r (te_database_checked_update (\<lambda>_. True))"
  let ?f = "\<lambda>e. e\<lparr>te_index_base := found h, te_in_database := True, te_peers := None, te_failed_peers := None, te_known_from_database := True\<rparr>"
  define c2a where "c2a = (upd_entry c2 r ?f)\<lparr>c_known_done := c_known_done c2 + 1\<rparr>"
  define c2b where "c2b = set_state_locked c2a r FETCH_DONE"
  define c2c where "c2c = (if c_index_tracking c2b then c2b\<lparr>c_index_counters := od_setdefault h r (c_index_counters c2b)\<rparr> else c2b)"
  have res: "apply_database_check found c h = index_entry_locked (if found h \<noteq> None then c2c else c2) r"
    using pend by (simp add: apply_database_check_def Some Let_def c1_def c2_def c2a_def c2b_def c2c_def)
  have o1: "open_at h r c1" using open_atI[OF inv at] delete_check_cat_but[of "{h}" c h]
    by (simp add: open_at_def c1_def fetched_ok_def entry_ok_at_def)
  have o2: "open_at h r c2" unfolding c2_def by (rule open_at_upd[OF o1]) simp_all
  have at2: "map_of (c_entries c2) h = Some r" and i2: "cat_but {h} c2" using o2 by (simp_all add: open_at_def)
  have heap2: "te_metadata (c_heap c2 r) = None" "\<not> te_known_from_database (c_heap c2 r)" using nd by (simp_all add: c2_def c1_def)
  have nodoc: "map_of (c_index_documents c2) h \<noteq> Some r" using doc_metadata[OF i2 at2] heap2 by simp
  have i2a: "cat_but {h} c2a" unfolding c2a_def
    using known_cat_but[OF i2 at2, of ?f "c_known_done c2 + 1"] heap2 nodoc by simp
  have at2a: "map_of (c_entries c2a) h = Some r" using at2 by (simp add: c2a_def)
  have i2b: "cat_but {h} c2b" unfolding c2b_def
    using set_state_cat_but[OF i2a at2a] nodoc by (simp add: c2a_def)
  have at2b: "map_of (c_entries c2b) h = Some r" using at2a by (simp add: c2b_def)
  have i2c: "cat_but {h} c2c" unfolding c2c_def using setdefault_counters_cat_but[OF i2b at2b] i2b by simp
  have "fetched_ok c2c h" "entry_ok_at c2c h"
    using o2 at2 heap2 by (simp_all add: open_at_def at_iff c2c_def c2b_def c2a_def entry_ok_def peers_ok_def)
  then have "open_at h r c2c" using i2c at2b by (simp add: open_at_def c2c_def)
  then show ?thesis unfolding res using o2 open_at_index by simp
qed

lemma apply_database_checks_ok: "cat_ok c \<Longrightarrow> cat_ok (apply_database_checks c hs found)"
  unfolding apply_database_checks_def by (induction hs arbitrary: c) (auto simp: apply_database_check_ok)

lemma open_at_forget_known:
  assumes "open_at h r c"
  shows "open_at h r (forget_known_locked c r)"
proof -
  have at: "map_of (c_entries c) h = Some r" and inv: "cat_but {h} c" using assms by (simp_all add: open_at_def)
  have "peers_ok m (e\<lparr>te_known_from_database := b\<rparr>) = peers_ok m e" for m e b by (simp add: peers_ok_def split: option.splits)
  with forget_known_cat_but[OF inv at doc_metadata[OF inv at]] assms at
  show ?thesis by (simp add: open_at_def at_iff entry_ok_def)
qed

lemma reset_index_base_ok: "cat_ok c \<Longrightarrow> cat_ok (reset_index_base c h)"
proof (cases "map_of (c_entries c) h")
  case (Some r)
  assume inv: "cat_ok c"
  define c1 where "c1 = upd_entry c r (\<lambda>e. e\<lparr>te_index_base := None, te_flushed_seen := 0, te_flushed_announce := 0\<rparr>)"
  define c2 where "c2 = c1\<lparr>c_index_counters := AList.delete h (c_index_counters c1)\<rparr>"
  define c3 where "c3 = upd_entry c2 r (\<lambda>e. e\<lparr>te_in_database := False, te_database_checked := True\<rparr>)"
  define c4 where "c4 = forget_known_locked c3 r"
  define c5 where "c5 = (if te_fetch_state (c_heap c4 r) = FETCH_DONE then set_state_locked c4 r FETCH_PENDING else c4)"
  have res: "reset_index_base c h = (if te_metadata (c_heap c2 r) \<noteq> None then queue_document_locked c2 r
      else if te_in_database (c_heap c2 r) then index_entry_locked c5 r else c2)"
    unfolding reset_index_base_def Some option.case Let_def c5_def c4_def c3_def c2_def c1_def by (rule refl)
  have "cat_ok c1" unfolding c1_def by (rule quiet_ok[OF inv quiet_reset])
  then have i2: "cat_ok c2" unfolding c2_def by (rule delete_counters_cat_but)
  have at2: "map_of (c_entries c2) h = Some r" using Some by (simp add: c2_def c1_def)
  then have "r < c_next_ref c2" using cat_butD(1)[OF i2] by (simp add: shape_ok_def)
  then have q: "cat_ok (queue_document_locked c2 r)" if "te_metadata (c_heap c2 r) \<noteq> None" using queue_document_ok[OF i2] that by simp
  have o3: "open_at h r c3" unfolding c3_def by (rule open_at_upd[OF open_atI[OF i2 at2]]) simp_all
  have o4: "open_at h r c4" unfolding c4_def by (rule open_at_forget_known[OF o3])
  have "open_at h r c5" if "te_metadata (c_heap c2 r) = None"
    unfolding c5_def using o4 that open_at_set_state[OF o4, of FETCH_PENDING] by (simp add: c4_def c3_def)
  then have "cat_ok (index_entry_locked c5 r)" if "te_metadata (c_heap c2 r) = None" using that open_at_index by blast
  with q i2 show ?thesis unfolding res by (cases "te_metadata (c_heap c2 r)") simp_all
qed (simp add: reset_index_base_def)

lemma new_catalog_ok: "1 \<le> mp \<Longrightarrow> cat_ok (new_catalog me mp mf ml rs)"
  by (simp add: new_catalog_def inv_defs tally_def sel_def)


section \<open>The catalog as a state machine\<close>

text \<open>
  One rule per public operation that changes the catalog; each is atomic under the lock. The
  guards are what the callers guarantee: the fetch engine reports a failure for a hash it has
  claimed, the indexer marks or puts back documents whose entry still has its metadata.
\<close>

inductive catalog_step :: "catalog \<Rightarrow> catalog \<Rightarrow> bool" where
  step_record_hash: "catalog_step c (snd (record_hash c info_hash source peer clock now))"
| step_record_hashes: "catalog_step c (snd (record_hashes c info_hashes source clock now))"
| step_add_peers: "catalog_step c (snd (add_peers c info_hash peers))"
| step_hashes_needing_peers: "catalog_step c (snd (hashes_needing_peers c limit clock now))"
| step_release_lookup_claim: "catalog_step c (release_lookup_claim c info_hash)"
| step_add_lookup_result: "catalog_step c (add_lookup_result c info_hash peers clock now)"
| step_next_fetch_candidates: "catalog_step c (snd (next_fetch_candidates c limit))"
| step_store_metadata:
    "md_info_hash (snd metadata) \<in> fst ` set (c_entries c) \<Longrightarrow> catalog_step c (snd (store_metadata c metadata clock now))"
| step_mark_fetch_failed:
    "(\<And>r. map_of (c_entries c) info_hash = Some r \<Longrightarrow> te_fetch_state (c_heap c r) = FETCH_IN_PROGRESS) \<Longrightarrow>
       catalog_step c (snd (mark_fetch_failed c info_hash tried_peers reason clock now))"
| step_release_fetch_claim: "catalog_step c (release_fetch_claim c info_hash)"
| step_enable_index_tracking: "catalog_step c (enable_index_tracking c max_pending check_database)"
| step_drain_index_documents: "catalog_step c (snd (drain_index_documents c limit))"
| step_drain_index_counters: "catalog_step c (snd (drain_index_counters c limit))"
| step_requeue_index_documents:
    "(\<And>s. s \<in> set snapshots \<Longrightarrow> unwritten c s) \<Longrightarrow> catalog_step c (requeue_index_documents c snapshots)"
| step_requeue_index_counters: "catalog_step c (requeue_index_counters c snapshots)"
| step_mark_counters_written: "catalog_step c (mark_counters_written c snapshots)"
| step_set_index_base: "catalog_step c (set_index_base c info_hash base)"
| step_mark_index_written: "is_metadata snapshot \<noteq> None \<Longrightarrow> catalog_step c (mark_index_written c snapshot base)"
| step_set_database_check: "catalog_step c (set_database_check c enabled)"
| step_apply_database_checks: "catalog_step c (apply_database_checks c info_hashes found)"
| step_reset_index_base: "catalog_step c (reset_index_base c info_hash)"

lemmas op_ok = record_locked_ok record_loop_ok add_peers_ok hashes_needing_peers_ok release_lookup_claim_ok
  add_lookup_result_ok next_fetch_candidates_ok store_metadata_ok mark_fetch_failed_ok release_fetch_claim_ok
  enable_index_tracking_ok drain_index_documents_ok drain_index_counters_ok requeue_index_documents_ok
  requeue_index_counters_ok mark_counters_written_ok set_index_base_ok mark_index_written_ok
  set_database_check_ok apply_database_checks_ok reset_index_base_ok

lemma catalog_step_ok: "catalog_step c c' \<Longrightarrow> cat_ok c \<Longrightarrow> cat_ok c'"
  by (induction rule: catalog_step.induct) (simp_all add: op_ok record_hash_def record_hashes_def)

definition catalog_start :: "catalog \<Rightarrow> bool" where
  "catalog_start c \<longleftrightarrow> (\<exists>me mp mf ml rs. 1 \<le> me \<and> 1 \<le> mp \<and> c = new_catalog me mp mf ml rs)"

interpretation catalog_machine: invariant_system catalog_start catalog_step cat_ok
  by unfold_locales (auto simp: catalog_start_def new_catalog_ok intro: catalog_step_ok)

section \<open>The capacity\<close>

text \<open>Every operation but recording keeps the set of entries; recording keeps the bound.\<close>

definition keeps :: "catalog \<Rightarrow> catalog \<Rightarrow> bool" where
  "keeps c c' \<longleftrightarrow> c_entries c' = c_entries c \<and> c_max_entries c' = c_max_entries c"

lemma keeps_refl: "keeps c c"
  by (simp add: keeps_def)

lemma keeps_foldl: "(\<And>c x. keeps c (f c x)) \<Longrightarrow> keeps c (foldl f c xs)"
  by (induction xs arbitrary: c) (auto simp: keeps_def)

lemma keeps_add_peer: "keeps c (snd (add_peer_locked c r peer))"
  by (simp add: keeps_def add_peer_locked_def Let_def)

lemma keeps_add_peers_loop: "keeps c (snd (add_peers_loop c r peers n))"
proof (induction peers arbitrary: c n)
  case (Cons p ps)
  then show ?case using keeps_add_peer[of c r p] by (simp add: keeps_def Let_def split_beta)
qed (simp add: keeps_refl)

lemma keeps_drop: "keeps c (drop_unwritten_metadata_locked c r)"
  by (simp add: keeps_def drop_unwritten_metadata_locked_def Let_def)

lemma keeps_queue: "keeps c (queue_document_locked c r)"
  using keeps_drop by (simp add: keeps_def queue_document_locked_def Let_def)

lemma queue_same [simp]:
  "c_entries (queue_document_locked c r) = c_entries c" "c_max_entries (queue_document_locked c r) = c_max_entries c"
  using keeps_queue[of c r] by (simp_all add: keeps_def)

lemma keeps_drain_counters: "keeps c (snd (drain_counters c limit result))"
proof (induction c limit result rule: drain_counters.induct)
  case (1 c limit result)
  show ?case
  proof (cases "c_index_counters c")
    case Nil
    then show ?thesis by (subst drain_counters.simps) (simp add: keeps_refl)
  next
    case (Cons p counters)
    obtain h r where p: "p = (h, r)" by (cases p)
    have "keeps (c\<lparr>c_index_counters := counters\<rparr>) (queue_document_locked (c\<lparr>c_index_counters := counters\<rparr>) r)"
      by (rule keeps_queue)
    with "1.IH"[OF Cons p[symmetric]] Cons p show ?thesis
      by (subst drain_counters.simps) (simp add: Let_def keeps_def)
  qed
qed

lemma keeps_claim_fetches: "keeps c (snd (claim_fetches c rs))"
  by (induction rs arbitrary: c) (auto simp: keeps_def Let_def split_beta claim_fetch_def)

lemma keeps_forget: "keeps c (foldl (\<lambda>c p. forget_peer_locked c r p) c ps)"
  by (rule keeps_foldl) (simp add: keeps_def forget_peer_locked_def)

lemma get_or_create_old: "h \<in> fst ` set (c_entries c) \<Longrightarrow> \<exists>r. get_or_create_locked c h now = (r, False, c)"
  by (auto simp: get_or_create_locked_def map_of_eq_None_iff split: option.splits)

lemma keeps_store:
  assumes "md_info_hash (snd metadata) \<in> fst ` set (c_entries c)"
  shows "keeps c (snd (store_metadata c metadata clock now))"
proof -
  obtain r where go: "get_or_create_locked c (md_info_hash (snd metadata)) (moment_or_now clock now) = (r, False, c)"
    using get_or_create_old[OF assms] by blast
  show ?thesis unfolding store_metadata_def go Let_def split_conv snd_conv
    by (simp add: keeps_def forget_known_locked_def)
qed

lemma keeps_apply: "keeps c (apply_database_check found c h)"
  by (simp add: keeps_def apply_database_check_def Let_def split: option.splits)

lemma keeps_release_metadata: "keeps c (release_metadata_locked c r)"
  by (simp add: keeps_def release_metadata_locked_def Let_def)

lemma keeps_mark_written: "keeps c (mark_index_written c s base)"
  by (simp add: keeps_def mark_index_written_def Let_def add_flushed_def release_metadata_locked_def)

lemma keeps_reset: "keeps c (reset_index_base c h)"
proof (cases "map_of (c_entries c) h")
  case (Some r)
  show ?thesis unfolding reset_index_base_def Some option.case Let_def
    by (simp add: keeps_def forget_known_locked_def)
qed (simp add: reset_index_base_def keeps_refl)

lemma catalog_step_capacity:
  assumes "catalog_step c c'" "cat_ok c" "length (c_entries c) \<le> c_max_entries c"
  shows "length (c_entries c') \<le> c_max_entries c' \<and> c_max_entries c' = c_max_entries c"
proof -
  have "keeps c c' \<or> (\<exists>h src p m. c' = snd (record_locked c h src p m)) \<or> (\<exists>hs src m. c' = snd (record_loop c hs src m 0))"
    using assms(1)
  proof (induction rule: catalog_step.induct)
    case (step_record_hash c)
    then show ?case unfolding record_hash_def by blast
  next
    case (step_record_hashes c)
    then show ?case unfolding record_hashes_def by blast
  next
    case (step_add_peers c info_hash peers)
    show ?case using keeps_add_peers_loop[of c _ peers 0]
      by (auto simp: add_peers_def keeps_def split_beta split: option.splits)
  next
    case (step_hashes_needing_peers c limit clock now)
    have "keeps c (foldl claim_lookup c rs)" for rs by (rule keeps_foldl) (simp add: keeps_def claim_lookup_def)
    then show ?case by (simp add: hashes_needing_peers_def Let_def)
  next
    case (step_add_lookup_result c info_hash peers clock now)
    have "c_entries (snd (add_peers_loop c' r peers 0)) = c_entries c' \<and>
      c_max_entries (snd (add_peers_loop c' r peers 0)) = c_max_entries c'" for c' r
      using keeps_add_peers_loop[of c' r peers 0] by (simp add: keeps_def)
    then show ?case by (simp add: add_lookup_result_def Let_def keeps_def split: option.splits)
  next
    case (step_mark_fetch_failed c info_hash tried_peers reason clock now)
    then show ?case using keeps_forget[of c _ tried_peers]
      by (auto simp: mark_fetch_failed_def Let_def keeps_def split: option.splits)
  next
    case (step_drain_index_counters c limit)
    show ?case using keeps_drain_counters[of "c\<lparr>c_orphan_counters := _\<rparr>" limit]
      by (simp add: drain_index_counters_def keeps_def split_beta)
  next
    case (step_requeue_index_counters c snapshots)
    have "keeps c (requeue_index_counters c snapshots)" unfolding requeue_index_counters_def
      by (rule keeps_foldl) (simp add: keeps_def requeue_index_counter_def add_orphan_locked_def Let_def)
    then show ?case by blast
  next
    case (step_mark_counters_written c snapshots)
    have "keeps c (mark_counters_written c snapshots)" unfolding mark_counters_written_def
      by (rule keeps_foldl) (simp add: keeps_def add_flushed_def)
    then show ?case by blast
  next
    case (step_set_database_check c enabled)
    have "keeps c' (foldl check_off c' rs)" for c' rs by (rule keeps_foldl) (simp add: keeps_def check_off_def)
    then show ?case by (simp add: set_database_check_def Let_def keeps_def)
  next
    case (step_apply_database_checks c info_hashes found)
    have "keeps c (apply_database_checks c info_hashes found)" unfolding apply_database_checks_def
      by (rule keeps_foldl) (rule keeps_apply)
    then show ?case by blast
  qed (rule disjI1, (rule keeps_mark_written keeps_reset | erule keeps_store
      | simp add: next_fetch_candidates_def keeps_claim_fetches
      | simp add: keeps_def release_lookup_claim_def release_fetch_claim_def enable_index_tracking_def
          drain_index_documents_def requeue_index_documents_def set_index_base_def split: option.splits))+
  then show ?thesis
    using assms record_locked_capacity record_loop_capacity by (auto simp: keeps_def)
qed

interpretation bounded_machine: invariant_system catalog_start catalog_step
    "\<lambda>c. cat_ok c \<and> length (c_entries c) \<le> c_max_entries c"
  by unfold_locales
    (auto simp: catalog_start_def new_catalog_ok intro: catalog_step_ok dest: catalog_step_capacity,
     simp add: new_catalog_def)

end
