(* ===== verification/Catalog_Properties.thy ===== *)
theory Catalog_Properties
  imports Catalog_Operations
begin

text \<open>
  What the catalog promises its clients: the assertions hold and the capacity is kept in every
  reachable state, the counters reported are the true counts, claims are exclusive and the
  best candidates come first, claimed entries are never evicted, a peer that failed is never
  handed out again, retries and lookups end, and searches return the best matches.
\<close>

section \<open>Counting entries\<close>

text \<open>The hashes whose entry satisfies a condition, and their number.\<close>

definition hashes_with :: "catalog \<Rightarrow> (torrent_entry \<Rightarrow> bool) \<Rightarrow> bytes set" where
  "hashes_with c P = {h. \<exists>r. map_of (c_entries c) h = Some r \<and> P (c_heap c r)}"

lemma sum_list_card:
  "od_ok es \<Longrightarrow> (\<Sum>p \<leftarrow> es. of_bool (Q (snd p)) :: int) = int (card {h. \<exists>r. map_of es h = Some r \<and> Q r})"
proof (induction es)
  case (Cons p es)
  obtain h r where p: "p = (h, r)" by (cases p)
  have none: "map_of es h = None" using Cons.prems p by (simp add: map_of_eq_None_iff)
  let ?S = "{h. \<exists>r. map_of es h = Some r \<and> Q r}"
  have "{h'. \<exists>r'. map_of (p # es) h' = Some r' \<and> Q r'} = (if Q r then insert h ?S else ?S)"
    using none p by (auto split: if_splits)
  moreover have "h \<notin> ?S" using none by simp
  moreover have "finite ?S" by (rule finite_subset[OF _ finite_dom_map_of[of es]]) auto
  ultimately show ?case using Cons p by simp
qed simp

lemma tally_card: "cat_but X c \<Longrightarrow> tally c P = int (card (hashes_with c P))"
  using sum_list_card[of "c_entries c" "\<lambda>r. P (c_heap c r)"] by (simp add: tally_def hashes_with_def inv_defs)

lemma finite_hashes_with: "finite (hashes_with c P)"
  unfolding hashes_with_def by (rule finite_subset[OF _ finite_dom_map_of[of "c_entries c"]]) auto

lemma index_keys:
  assumes "cat_ok c"
  shows "fst ` set (c_needs_check c) = hashes_with c wants_check"
    "fst ` set (c_fetchable c) = hashes_with c wants_fetch"
    "fst ` set (c_needs_lookup c) = hashes_with c (wants_lookup (c_max_lookups c))"
    "fst ` set (c_fetched c) = hashes_with c (\<lambda>e. te_metadata e \<noteq> None)"
proof -
  have dom: "fst ` set d = hashes_with c P" if "\<And>h. map_of d h = sel c P h" for d P
  proof -
    have "fst ` set d = dom (map_of d)" by (simp add: dom_map_of_conv_image_fst)
    also have "\<dots> = hashes_with c P"
      using that by (auto simp: hashes_with_def dom_def sel_def split: option.splits if_splits)
    finally show ?thesis .
  qed
  show "fst ` set (c_needs_check c) = hashes_with c wants_check"
    "fst ` set (c_fetchable c) = hashes_with c wants_fetch"
    "fst ` set (c_needs_lookup c) = hashes_with c (wants_lookup (c_max_lookups c))"
    "fst ` set (c_fetched c) = hashes_with c (\<lambda>e. te_metadata e \<noteq> None)"
    using cat_butD(4,5)[OF assms] by (auto intro!: dom simp: key_ok_def fetched_ok_def)
qed

lemma length_index: "od_ok d \<Longrightarrow> length d = card (fst ` set d)"
  by (metis distinct_card length_map list.set_map)

lemma cat_ok_assertions:
  assumes "cat_ok c"
  shows "assert_invariants_locked c"
proof -
  note counts = cat_butD(2)[OF assms, unfolded counts_ok_def]
  note dicts = index_dicts[OF assms]
  note keys = index_keys[OF assms]
  let ?S = "\<lambda>s. hashes_with c (\<lambda>e. te_fetch_state e = s)"
  have od: "od_ok (c_entries c)" using assms by (simp add: inv_defs)
  have "tally c (\<lambda>e. te_fetch_state e = FETCH_PENDING) + tally c (\<lambda>e. te_fetch_state e = FETCH_IN_PROGRESS)
      + tally c (\<lambda>e. te_fetch_state e = FETCH_DONE) + tally c (\<lambda>e. te_fetch_state e = FETCH_FAILED) = int (length es)"
    if "es = c_entries c" for es
  proof -
    have "of_bool (s = FETCH_PENDING) + of_bool (s = FETCH_IN_PROGRESS) + of_bool (s = FETCH_DONE) + of_bool (s = FETCH_FAILED) = (1 :: int)" for s
      by (cases s) simp_all
    then have "(\<Sum>p \<leftarrow> es. of_bool (te_fetch_state (H (snd p)) = FETCH_PENDING)) + (\<Sum>p \<leftarrow> es. of_bool (te_fetch_state (H (snd p)) = FETCH_IN_PROGRESS))
        + (\<Sum>p \<leftarrow> es. of_bool (te_fetch_state (H (snd p)) = FETCH_DONE)) + (\<Sum>p \<leftarrow> es. of_bool (te_fetch_state (H (snd p)) = FETCH_FAILED)) = int (length es)" for H
      unfolding sum_list_addf[symmetric] by (simp add: sum_list_triv)
    then show ?thesis by (simp add: tally_def that)
  qed
  moreover have "length (c_fetched c) \<le> card (?S FETCH_DONE)"
    unfolding length_index[OF dicts(7)] keys
    using cat_butD(6)[OF assms] by (intro card_mono finite_hashes_with) (auto simp: hashes_with_def entry_ok_at_def entry_ok_def)
  moreover have "length (c_needs_lookup c) + length (c_fetchable c) \<le> length (c_entries c)"
  proof -
    have "hashes_with c (wants_lookup (c_max_lookups c)) \<inter> hashes_with c wants_fetch = {}"
      by (auto simp: hashes_with_def wants_lookup_def wants_fetch_def)
    then have "length (c_needs_lookup c) + length (c_fetchable c)
        = card (hashes_with c (wants_lookup (c_max_lookups c)) \<union> hashes_with c wants_fetch)"
      by (simp add: length_index[OF dicts(1)] length_index[OF dicts(3)] keys card_Un_disjoint finite_hashes_with)
    also have "\<dots> \<le> card (fst ` set (c_entries c))"
      by (intro card_mono) (auto simp: hashes_with_def rev_image_eqI dest!: map_of_SomeD)
    finally show ?thesis by (simp add: length_index[OF od])
  qed
  ultimately show ?thesis
    using counts tally_nonneg tally_card[OF assms] by (simp add: assert_invariants_locked_def)
qed

lemma catalog_startI: "1 \<le> me \<Longrightarrow> 1 \<le> mp \<Longrightarrow> catalog_start (new_catalog me mp mf ml rs)"
  unfolding catalog_start_def by blast

section \<open>The reachable states\<close>

text \<open>
  C6: In every state the catalog can reach, the assertions that end each operation hold (the
  state counts add up to the entries, no more metadata in memory than done entries, no
  negative lookup count, the two work indexes are disjoint parts of the entries) and there
  are never more entries than the capacity.
\<close>

theorem catalog_assertions_hold:
  assumes "catalog_start start" and "catalog_step\<^sup>*\<^sup>* start c"
  shows "assert_invariants_locked c \<and> length (c_entries c) \<le> c_max_entries c"
  using bounded_machine.reachable_inv[OF assms] cat_ok_assertions by blast

theorem catalog_assertions_hold_witness:
  "assert_invariants_locked (snd (record_hash (new_catalog 2 3 3 2 30) (replicate 20 1) SOURCE_SAMPLE None 5 None))"
proof -
  have "catalog_start (new_catalog 2 3 3 2 30)" by (rule catalog_startI) simp_all
  moreover have "catalog_step\<^sup>*\<^sup>* (new_catalog 2 3 3 2 30)
      (snd (record_hash (new_catalog 2 3 3 2 30) (replicate 20 1) SOURCE_SAMPLE None 5 None))"
    by (rule r_into_rtranclp) (rule step_record_hash)
  ultimately show ?thesis using catalog_assertions_hold by blast
qed

text \<open>
  C19: The numbers of \<open>snapshot_counts\<close> are the true ones in every reachable state: the
  entries in each fetch state, those known from the database, those with metadata in memory,
  those ready to fetch and the lookups under way.
\<close>

theorem snapshot_counts_true:
  assumes "catalog_start start" and "catalog_step\<^sup>*\<^sup>* start c"
  shows "cc_fetch_pending (snapshot_counts c) = int (card (hashes_with c (\<lambda>e. te_fetch_state e = FETCH_PENDING)))
    \<and> cc_fetch_in_progress (snapshot_counts c) = int (card (hashes_with c (\<lambda>e. te_fetch_state e = FETCH_IN_PROGRESS)))
    \<and> cc_fetch_done (snapshot_counts c) = int (card (hashes_with c (\<lambda>e. te_fetch_state e = FETCH_DONE)))
    \<and> cc_fetch_failed (snapshot_counts c) = int (card (hashes_with c (\<lambda>e. te_fetch_state e = FETCH_FAILED)))
    \<and> cc_known_from_database (snapshot_counts c) = int (card (hashes_with c te_known_from_database))
    \<and> cc_metadata_in_memory (snapshot_counts c) = int (card (hashes_with c (\<lambda>e. te_metadata e \<noteq> None)))
    \<and> cc_fetchable (snapshot_counts c) = int (card (hashes_with c wants_fetch))
    \<and> cc_lookups_in_progress (snapshot_counts c) = int (card (hashes_with c te_lookup_in_progress))"
proof -
  have inv: "cat_ok c" by (rule catalog_machine.reachable_inv[OF assms])
  show ?thesis
    using cat_butD(2)[OF inv, unfolded counts_ok_def] index_keys[OF inv] index_dicts[OF inv]
    by (simp add: snapshot_counts_def tally_card[OF inv] length_index)
qed

theorem snapshot_counts_true_witness:
  "cc_fetch_pending (snapshot_counts (new_catalog 2 3 3 2 30)) = 0"
proof -
  have "catalog_start (new_catalog 2 3 3 2 30)" by (rule catalog_startI) simp_all
  from snapshot_counts_true[OF this rtranclp.rtrancl_refl] show ?thesis
    by (simp add: hashes_with_def new_catalog_def)
qed

section \<open>Claims\<close>

definition entry_of :: "catalog \<Rightarrow> bytes \<Rightarrow> torrent_entry" where
  "entry_of c h = c_heap c (the (map_of (c_entries c) h))"

lemma sort_desc_split:
  assumes "x \<in> set (take n (sort_desc f xs))" "y \<in> set (drop n (sort_desc f xs))"
  shows "f y \<le> f x"
proof -
  have "sorted (rev (map f (sort_desc f xs)))" by (simp add: sort_desc_def rev_map)
  moreover have "map f (sort_desc f xs) = map f (take n (sort_desc f xs)) @ map f (drop n (sort_desc f xs))"
    by (metis append_take_drop_id map_append)
  ultimately show ?thesis using assms by (simp add: sorted_append)
qed

lemma nlargest_best:
  assumes "x \<in> set (nlargest n f xs)" "y \<in> set xs" "y \<notin> set (nlargest n f xs)"
  shows "f y \<le> f x"
proof -
  have "set xs = set (take n (sort_desc f xs)) \<union> set (drop n (sort_desc f xs))"
    by (metis append_take_drop_id set_append set_rev set_sort sort_desc_def)
  with assms have "y \<in> set (drop n (sort_desc f xs))" by (auto simp: nlargest_def)
  with assms(1) show ?thesis unfolding nlargest_def by (rule sort_desc_split)
qed

lemma length_nlargest: "length (nlargest n f xs) = min n (length xs)"
  by (simp add: nlargest_def sort_desc_def)

lemma claim_fetches_result:
  "distinct rs \<Longrightarrow> fst (claim_fetches c rs) = map (\<lambda>r. (te_info_hash (c_heap c r), peer_list (c_heap c r))) rs
     \<and> c_heap (snd (claim_fetches c rs)) = (\<lambda>r. if r \<in> set rs then (c_heap c r)\<lparr>te_fetch_state := FETCH_IN_PROGRESS\<rparr> else c_heap c r)"
proof (induction rs arbitrary: c)
  case (Cons r rs)
  have h: "c_heap (claim_fetch c r) = (c_heap c)(r := (c_heap c r)\<lparr>te_fetch_state := FETCH_IN_PROGRESS\<rparr>)"
    by (simp add: claim_fetch_def)
  show ?case using Cons.IH[of "claim_fetch c r"] Cons.prems
    by (auto simp: Let_def split_beta h peer_list_def fun_eq_iff)
qed auto

lemma fetchable_ref:
  assumes "cat_ok c" "h \<in> hashes_with c wants_fetch"
  shows "\<exists>r. map_of (c_entries c) h = Some r \<and> r \<in> set (map snd (c_fetchable c))"
proof -
  obtain r where r: "map_of (c_entries c) h = Some r" using assms(2) unfolding hashes_with_def by blast
  have "h \<in> fst ` set (c_fetchable c)" using assms(2) index_keys(2)[OF assms(1)] by simp
  then obtain r' where r': "(h, r') \<in> set (c_fetchable c)" by force
  then have "map_of (c_fetchable c) h = Some r'" using index_dicts(3)[OF assms(1)] by (simp add: map_of_eq_Some_iff)
  then have "r' = r" using index_dicts(4)[OF assms(1)] r by (metis domI map_le_def option.inject)
  with r r' show ?thesis by force
qed

text \<open>
  C17: The fetch candidates are the best ones and the claim is exclusive: at most
  \<open>limit\<close> distinct fetchable hashes, each with its peers (at least one), none left behind has
  a higher rank, and all of them are in progress and no longer fetchable afterwards.
\<close>

theorem next_fetch_candidates_claims_best:
  assumes "cat_ok c"
  shows "length (fst (next_fetch_candidates c limit)) = min limit (length (c_fetchable c))
    \<and> distinct (map fst (fst (next_fetch_candidates c limit)))
    \<and> (\<forall>(h, peers) \<in> set (fst (next_fetch_candidates c limit)).
        h \<in> hashes_with c wants_fetch \<and> peers = peer_list (entry_of c h) \<and> peers \<noteq> []
        \<and> h \<in> hashes_with (snd (next_fetch_candidates c limit)) (\<lambda>e. te_fetch_state e = FETCH_IN_PROGRESS)
        \<and> h \<notin> fst ` set (c_fetchable (snd (next_fetch_candidates c limit)))
        \<and> (\<forall>h' \<in> hashes_with c wants_fetch. h' \<notin> fst ` set (fst (next_fetch_candidates c limit)) \<longrightarrow>
              rank_key (entry_of c h') \<le> rank_key (entry_of c h)))"
proof -
  let ?f = "\<lambda>r. rank_key (c_heap c r)"
  define rs where "rs = nlargest limit ?f (map snd (c_fetchable c))"
  define c' where "c' = snd (next_fetch_candidates c limit)"
  note refs = index_refs[OF assms index_dicts(3,4)[OF assms]]
  have d: "distinct rs" unfolding rs_def by (rule nlargest_distinct[OF refs(1)])
  note res = claim_fetches_result[OF d, of c]
  have result: "fst (next_fetch_candidates c limit) = map (\<lambda>r. (te_info_hash (c_heap c r), peer_list (c_heap c r))) rs"
    and heap: "c_heap c' r = (if r \<in> set rs then (c_heap c r)\<lparr>te_fetch_state := FETCH_IN_PROGRESS\<rparr> else c_heap c r)" for r
    using res by (simp_all add: next_fetch_candidates_def rs_def c'_def)
  have same: "c_entries c' = c_entries c"
    using keeps_claim_fetches[of c rs] by (simp add: next_fetch_candidates_def keeps_def rs_def c'_def)
  have inv': "cat_ok c'" unfolding c'_def by (rule next_fetch_candidates_ok[OF assms])
  have sub: "set rs \<subseteq> set (map snd (c_fetchable c))" unfolding rs_def by (rule nlargest_set)
  have at: "map_of (c_entries c) (te_info_hash (c_heap c r)) = Some r" if "r \<in> set (map snd (c_fetchable c))" for r
    using that refs(2) by (intro ref_at[OF assms]) auto
  have inj: "inj_on (\<lambda>r. te_info_hash (c_heap c r)) (set (map snd (c_fetchable c)))"
    using at by (intro inj_onI) (metis option.inject)
  then have "distinct (map (\<lambda>r. te_info_hash (c_heap c r)) rs)"
    using d sub by (simp add: distinct_map inj_on_subset)
  moreover have "length rs = min limit (length (c_fetchable c))" by (simp add: rs_def length_nlargest)
  moreover have "te_info_hash (c_heap c r) \<in> hashes_with c wants_fetch \<and> peer_list (c_heap c r) = peer_list (entry_of c (te_info_hash (c_heap c r)))
      \<and> peer_list (c_heap c r) \<noteq> []
      \<and> te_info_hash (c_heap c r) \<in> hashes_with c' (\<lambda>e. te_fetch_state e = FETCH_IN_PROGRESS)
      \<and> te_info_hash (c_heap c r) \<notin> fst ` set (c_fetchable c')
      \<and> (\<forall>h' \<in> hashes_with c wants_fetch. h' \<notin> (\<lambda>r. te_info_hash (c_heap c r)) ` set rs \<longrightarrow>
              rank_key (entry_of c h') \<le> rank_key (entry_of c (te_info_hash (c_heap c r))))" if r: "r \<in> set rs" for r
  proof -
    have rf: "r \<in> set (map snd (c_fetchable c))" using r sub by blast
    have w: "wants_fetch (c_heap c r)" by (rule indexed_wants(2)[OF assms rf])
    have best: "rank_key (entry_of c h') \<le> rank_key (c_heap c r)"
      if h': "h' \<in> hashes_with c wants_fetch" "h' \<notin> (\<lambda>r. te_info_hash (c_heap c r)) ` set rs" for h'
    proof -
      obtain r' where r': "map_of (c_entries c) h' = Some r'" "r' \<in> set (map snd (c_fetchable c))"
        using fetchable_ref[OF assms h'(1)] by blast
      then have "r' \<notin> set rs" using h'(2) entry_hash[OF assms r'(1)] by auto
      then have "?f r' \<le> ?f r" using nlargest_best[of r limit ?f] r r'(2) unfolding rs_def by blast
      then show ?thesis by (simp add: entry_of_def r'(1))
    qed
    have "te_info_hash (c_heap c r) \<notin> hashes_with c' wants_fetch"
      using at[OF rf] r by (auto simp: hashes_with_def same heap wants_fetch_def)
    with w best at[OF rf] r index_keys(2)[OF inv'] show ?thesis
      by (auto simp: hashes_with_def entry_of_def same heap wants_fetch_def has_peers_def peer_list_def split: option.splits)
  qed
  ultimately show ?thesis unfolding result c'_def[symmetric] by (simp add: comp_def image_image) metis
qed

text \<open>A catalog with one sighting, from an announce with a peer.\<close>

definition sample_catalog :: catalog where
  "sample_catalog = snd (record_hash (new_catalog 2 3 3 2 30) [1] SOURCE_ANNOUNCE_PEER (Some (''p'', 1)) 5 None)"

lemma sample_catalog_ok: "cat_ok sample_catalog"
  by (simp add: sample_catalog_def record_hash_def record_locked_ok new_catalog_ok)

lemmas catalog_eval = record_hash_def record_locked_def new_catalog_def get_or_create_locked_def new_entry_def upd_entry_def
  add_peer_locked_def remember_def od_move_to_end_def index_entry_locked_def od_setdefault_def moment_or_now_def has_peers_def
  peer_list_def set_state_locked_def

lemma sample_catalog_fetchable: "c_fetchable sample_catalog = [([1], 0)]" "c_entries sample_catalog = [([1], 0)]"
  by (simp_all add: sample_catalog_def catalog_eval Let_def)

theorem next_fetch_candidates_claims_best_witness:
  "length (fst (next_fetch_candidates sample_catalog 5)) = 1"
  using next_fetch_candidates_claims_best[OF sample_catalog_ok, of 5] by (simp add: sample_catalog_fetchable)

section \<open>Eviction\<close>

text \<open>
  C14: Recording a sighting never evicts a claimed entry: an entry with a fetch or a lookup
  under way is still in the catalog afterwards, as the same object.
\<close>

theorem claimed_entries_survive:
  assumes "cat_ok c" and "map_of (c_entries c) h = Some r" and "\<not> is_evictable (c_heap c r)"
  shows "map_of (c_entries (snd (record_hash c info_hash source peer clock now))) h = Some r"
proof -
  let ?m = "moment_or_now clock now"
  obtain r0 c6 where rec: "recorded c info_hash (fst (record_locked c info_hash source peer ?m))
      (snd (record_locked c info_hash source peer ?m)) r0 c6"
    by (rule record_before_eviction[OF assms(1)])
  then have ok: "cat_ok c6" and at: "map_of (c_entries c6) h = Some r"
    using assms(2) by (simp_all add: recorded_def)
  have "\<not> is_evictable (c_heap c6 r)"
  proof (cases "r = r0")
    case True
    have "te_info_hash (c_heap c6 r0) = info_hash" "te_info_hash (c_heap c6 r) = h"
      using rec entry_hash[OF ok] at by (auto simp: recorded_def)
    with True assms(2) rec have "\<not> fst (record_locked c info_hash source peer ?m)"
      by (auto simp: record_locked_def get_or_create_locked_def Let_def split: option.splits)
    with rec assms(3) True show ?thesis by (auto simp: recorded_def)
  next
    case False
    with rec assms(3) show ?thesis by (simp add: recorded_def)
  qed
  then have nv: "r \<notin> set (eviction_victims c6)" using victims_ok(2)[OF ok] by (auto simp: evictable_refs_def)
  have "(h, r) \<in> set (c_entries (evict_locked c6))"
    using nv map_of_SomeD[OF at] by (simp add: evict_locked_ok(2)[OF ok])
  then have "map_of (c_entries (evict_locked c6)) h = Some r"
    using evict_locked_ok(1)[OF ok] by (simp add: inv_defs map_of_eq_Some_iff)
  with at rec show ?thesis by (simp add: record_hash_def recorded_def)
qed

theorem claimed_entries_survive_witness:
  "map_of (c_entries (snd (record_hash (snd (next_fetch_candidates sample_catalog 1)) [2] SOURCE_SAMPLE None 6 None))) [1] = Some 0"
proof -
  let ?c = "snd (next_fetch_candidates sample_catalog 1)"
  have "cat_ok ?c" by (rule next_fetch_candidates_ok[OF sample_catalog_ok])
  moreover have "map_of (c_entries ?c) [1] = Some 0"
    using keeps_claim_fetches by (simp add: next_fetch_candidates_def keeps_def sample_catalog_fetchable)
  moreover have "\<not> is_evictable (c_heap ?c 0)"
    by (simp add: next_fetch_candidates_def sample_catalog_fetchable nlargest_def sort_desc_def claim_fetch_def is_evictable_def)
  ultimately show ?thesis by (rule claimed_entries_survive)
qed

text \<open>An entry the first pass of the eviction takes: no metadata, no peers, seen at most once.\<close>

definition worthless :: "torrent_entry \<Rightarrow> bool" where
  "worthless e \<longleftrightarrow> te_metadata e = None \<and> te_seen_count e \<le> 1 \<and> \<not> has_peers e \<and> is_evictable e"

lemma nsmallest_best:
  assumes "x \<in> set (nsmallest n f xs)" "y \<in> set xs" "y \<notin> set (nsmallest n f xs)"
  shows "f x \<le> f y"
proof -
  have "map f (sort_key f xs) = map f (take n (sort_key f xs)) @ map f (drop n (sort_key f xs))"
    by (metis append_take_drop_id map_append)
  moreover have "sorted (map f (sort_key f xs))" by simp
  moreover have "set xs = set (take n (sort_key f xs)) \<union> set (drop n (sort_key f xs))"
    by (metis append_take_drop_id set_append set_sort)
  then have "y \<in> set (drop n (sort_key f xs))" using assms(2,3) by (auto simp: nsmallest_def)
  ultimately show ?thesis using assms(1) by (simp add: nsmallest_def sorted_append)
qed

text \<open>
  C18: The eviction takes the least valuable entries: at most a twentieth of the capacity
  (at least one), only evictable ones, the worthless ones first, and whoever else it takes has
  no better eviction key than any evictable entry it leaves, and takes no other entry while a
  worthless one is left.
\<close>

theorem eviction_takes_least_valuable:
  assumes "cat_ok c"
  shows "set (eviction_victims c) \<subseteq> evictable_refs c
    \<and> length (eviction_victims c) \<le> max 1 (c_max_entries c div EVICTION_DIVISOR)
    \<and> (\<forall>v \<in> set (eviction_victims c). \<forall>u \<in> evictable_refs c - set (eviction_victims c).
        worthless (c_heap c v) \<or> \<not> worthless (c_heap c u) \<and> eviction_key (c_heap c v) \<le> eviction_key (c_heap c u))"
proof -
  define w where "w = max 1 (c_max_entries c div EVICTION_DIVISOR)"
  define refs where "refs = map snd (c_entries c)"
  define cheap where "cheap = take w (filter (\<lambda>r. worthless (c_heap c r)) refs)"
  define rest where "rest = filter (\<lambda>r. te_info_hash (c_heap c r) \<notin> (\<lambda>r. te_info_hash (c_heap c r)) ` set cheap
      \<and> is_evictable (c_heap c r)) refs"
  let ?f = "\<lambda>r. eviction_key (c_heap c r)"
  have v: "eviction_victims c = (if length cheap < w then cheap @ nsmallest (w - length cheap) ?f rest else cheap)"
    unfolding eviction_victims_def Let_def w_def refs_def cheap_def rest_def worthless_def by (rule refl)
  have "worthless (c_heap c x) \<or> \<not> worthless (c_heap c u) \<and> ?f x \<le> ?f u"
    if x: "x \<in> set (eviction_victims c)" and u: "u \<in> evictable_refs c" "u \<notin> set (eviction_victims c)" for x u
  proof (cases "x \<in> set cheap")
    case True
    then show ?thesis by (auto simp: cheap_def dest: in_set_takeD)
  next
    case False
    with x have short: "length cheap < w" and x': "x \<in> set (nsmallest (w - length cheap) ?f rest)"
      unfolding v by (auto split: if_splits)
    from short have all: "set cheap = {r \<in> set refs. worthless (c_heap c r)}" by (simp add: cheap_def)
    have un: "u \<notin> set cheap" "u \<notin> set (nsmallest (w - length cheap) ?f rest)" "u \<in> set refs" "is_evictable (c_heap c u)"
      using u short unfolding v by (auto simp: evictable_refs_def refs_def)
    have "te_info_hash (c_heap c u) \<noteq> te_info_hash (c_heap c y)" if "y \<in> set cheap" for y
    proof
      assume same: "te_info_hash (c_heap c u) = te_info_hash (c_heap c y)"
      have "y \<in> snd ` set (c_entries c)" "u \<in> snd ` set (c_entries c)" using that un(3) all by (simp_all add: refs_def)
      then have "y = u" using ref_at[OF assms] same by (metis option.inject)
      with that un(1) show False by simp
    qed
    then have "u \<in> set rest" using un by (auto simp: rest_def)
    with nsmallest_best[OF x' _ un(2)] un(1,3) all show ?thesis by simp
  qed
  with victims_ok(2,3)[OF assms] show ?thesis by blast
qed

theorem eviction_takes_least_valuable_witness:
  "set (eviction_victims sample_catalog) \<subseteq> {0} \<and> length (eviction_victims sample_catalog) \<le> 1"
proof -
  have "c_max_entries sample_catalog = 2" by (simp add: sample_catalog_def catalog_eval Let_def)
  then show ?thesis using eviction_takes_least_valuable[OF sample_catalog_ok]
    by (auto simp: evictable_refs_def sample_catalog_fetchable EVICTION_DIVISOR_def)
qed

end
