(* ===== verification/Peer_Wire_Messages.thy ===== *)
theory Peer_Wire_Messages
  imports Node_Identity
begin

text \<open>
  The peer wire protocol of \<open>peer_wire_messages.py\<close>: the handshake, length-prefixed
  frames, extended messages with a bencoded payload and trailing bytes, the metadata messages
  and the piece arithmetic. The main results: handshakes and extended messages round-trip, a
  metadata request is read back as it was sent, the accepted extended handshakes are within
  the size limit, and the expected pieces partition the metadata.
\<close>

unbundle bit_operations_syntax

section \<open>Constants\<close>

definition HANDSHAKE_LENGTH :: nat where "HANDSHAKE_LENGTH = 68"
definition PROTOCOL_NAME :: bytes where "PROTOCOL_NAME = ascii ''BitTorrent protocol''"
definition RESERVED_LENGTH :: nat where "RESERVED_LENGTH = 8"
definition EXTENSION_RESERVED_INDEX :: nat where "EXTENSION_RESERVED_INDEX = 5"
definition EXTENSION_BIT :: byte where "EXTENSION_BIT = 16"
definition FRAME_HEADER_LENGTH :: nat where "FRAME_HEADER_LENGTH = 4"
definition MESSAGE_EXTENDED :: int where "MESSAGE_EXTENDED = 20"
definition EXTENDED_HANDSHAKE_ID :: int where "EXTENDED_HANDSHAKE_ID = 0"
definition UT_METADATA_LOCAL_ID :: int where "UT_METADATA_LOCAL_ID = 1"
definition METADATA_PIECE_SIZE :: int where "METADATA_PIECE_SIZE = 16384"
definition MAX_METADATA_SIZE :: int where "MAX_METADATA_SIZE = 4 * 1024 * 1024"
definition MSG_TYPE_REQUEST :: int where "MSG_TYPE_REQUEST = 0"
definition MSG_TYPE_DATA :: int where "MSG_TYPE_DATA = 1"
definition MSG_TYPE_REJECT :: int where "MSG_TYPE_REJECT = 2"
definition CLIENT_VERSION :: bytes where "CLIENT_VERSION = ascii ''dht_scraper 2.0''"

lemmas wire_consts = HANDSHAKE_LENGTH_def PROTOCOL_NAME_def RESERVED_LENGTH_def EXTENSION_RESERVED_INDEX_def
  EXTENSION_BIT_def FRAME_HEADER_LENGTH_def MESSAGE_EXTENDED_def EXTENDED_HANDSHAKE_ID_def
  UT_METADATA_LOCAL_ID_def METADATA_PIECE_SIZE_def MAX_METADATA_SIZE_def MSG_TYPE_REQUEST_def
  MSG_TYPE_DATA_def MSG_TYPE_REJECT_def CLIENT_VERSION_def

text \<open>
  The errors: an assertion, the \<open>struct.error\<close> of a frame that is too long, the
  \<open>ValueError\<close>s by their text, and what the bencode codec raises.
\<close>

datatype wire_error =
    WireAssertion
  | StructError
  | BadHandshake
  | BadExtendedMessage
  | NoUtMetadata
  | TooLarge
  | BadPiece
  | EncodeFailed encode_error
  | DecodeFailed decode_error

section \<open>Handshake\<close>

definition encode_handshake :: "bytes \<Rightarrow> bytes \<Rightarrow> wire_error + bytes" where
  "encode_handshake info_hash peer_id =
     (if \<not> (length info_hash = NODE_ID_LENGTH \<and> length peer_id = NODE_ID_LENGTH) then Inl WireAssertion
      else let reserved = replicate RESERVED_LENGTH 0;
               reserved1 = reserved[EXTENSION_RESERVED_INDEX := reserved ! EXTENSION_RESERVED_INDEX OR EXTENSION_BIT]
           in Inr ([of_nat (length PROTOCOL_NAME)] @ PROTOCOL_NAME @ reserved1 @ info_hash @ peer_id))"

definition decode_handshake :: "bytes \<Rightarrow> wire_error + (bytes \<times> bytes \<times> bool)" where
  "decode_handshake data =
     (if length data \<noteq> HANDSHAKE_LENGTH \<or> data ! 0 \<noteq> of_nat (length PROTOCOL_NAME)
         \<or> byte_slice data 1 20 \<noteq> PROTOCOL_NAME
      then Inl BadHandshake
      else Inr (byte_slice data 28 48, byte_slice data 48 68,
                (data ! (20 + EXTENSION_RESERVED_INDEX)) AND EXTENSION_BIT \<noteq> 0))"

section \<open>Frames and extended messages\<close>

definition encode_frame :: "int \<Rightarrow> bytes \<Rightarrow> wire_error + bytes" where
  "encode_frame message_id payload =
     (if \<not> (0 \<le> message_id \<and> message_id \<le> 255) then Inl WireAssertion
      else if 1 + length payload \<ge> 2 ^ 32 then Inl StructError
      else Inr (be_bytes 4 (1 + length payload) @ [of_int message_id] @ payload))"

definition decode_frame_length :: "bytes \<Rightarrow> nat" where
  "decode_frame_length header = be_value header"

definition encode_extended_message :: "int \<Rightarrow> pydict \<Rightarrow> bytes \<Rightarrow> wire_error + bytes" where
  "encode_extended_message extension_id payload trailing =
     (if \<not> (0 \<le> extension_id \<and> extension_id \<le> 255) then Inl WireAssertion
      else case encode_bencode (PyDict payload) of
        Inl e \<Rightarrow> Inl (EncodeFailed e)
      | Inr x \<Rightarrow> encode_frame MESSAGE_EXTENDED ([of_int extension_id] @ x @ trailing))"

definition decode_extended_message :: "bytes \<Rightarrow> wire_error + (int \<times> pydict \<times> bytes)" where
  "decode_extended_message body =
     (if length body < 2 then Inl BadExtendedMessage
      else case decode_value_at body 1 of
        Inl e \<Rightarrow> Inl (DecodeFailed e)
      | Inr (PyDict payload, next_index) \<Rightarrow> Inr (uint (body ! 0), payload, drop next_index body)
      | Inr _ \<Rightarrow> Inl BadExtendedMessage)"

definition encode_extended_handshake :: "wire_error + bytes" where
  "encode_extended_handshake =
     encode_extended_message EXTENDED_HANDSHAKE_ID
       [(KBytes (ascii ''m''), PyDict [(KBytes (ascii ''ut_metadata''), PyInt UT_METADATA_LOCAL_ID)]),
        (KBytes (ascii ''v''), PyBytes CLIENT_VERSION)] []"

definition read_extended_handshake :: "pydict \<Rightarrow> wire_error + (int \<times> int)" where
  "read_extended_handshake payload =
     (let their_id = (case py_get payload (ascii ''m'') of
            PyDict extensions \<Rightarrow> py_get extensions (ascii ''ut_metadata'') | _ \<Rightarrow> PyNone)
      in case their_id of
           PyInt i \<Rightarrow>
             if \<not> (1 \<le> i \<and> i \<le> 255) then Inl NoUtMetadata
             else (case py_get payload (ascii ''metadata_size'') of
                PyInt n \<Rightarrow> if n \<le> 0 then Inl NoUtMetadata
                           else if n > MAX_METADATA_SIZE then Inl TooLarge else Inr (i, n)
              | _ \<Rightarrow> Inl NoUtMetadata)
         | _ \<Rightarrow> Inl NoUtMetadata)"

section \<open>Metadata messages\<close>

definition encode_metadata_request :: "int \<Rightarrow> int \<Rightarrow> wire_error + bytes" where
  "encode_metadata_request their_id piece =
     (if \<not> (1 \<le> their_id \<and> their_id \<le> 255 \<and> 0 \<le> piece) then Inl WireAssertion
      else encode_extended_message their_id
        [(KBytes (ascii ''msg_type''), PyInt MSG_TYPE_REQUEST), (KBytes (ascii ''piece''), PyInt piece)] [])"

definition decode_metadata_message :: "pydict \<Rightarrow> wire_error + (int \<times> int \<times> int option)" where
  "decode_metadata_message payload =
     (case (py_get payload (ascii ''msg_type''), py_get payload (ascii ''piece'')) of
        (PyInt msg_type, PyInt piece) \<Rightarrow>
          if msg_type < 0 \<or> piece < 0 then Inl BadPiece
          else (case py_get payload (ascii ''total_size'') of
             PyNone \<Rightarrow> Inr (msg_type, piece, None)
           | PyInt total_size \<Rightarrow> if total_size < 0 then Inl BadPiece else Inr (msg_type, piece, Some total_size)
           | _ \<Rightarrow> Inl BadPiece)
      | _ \<Rightarrow> Inl BadPiece)"

definition piece_count :: "int \<Rightarrow> int" where
  "piece_count metadata_size = (metadata_size + METADATA_PIECE_SIZE - 1) div METADATA_PIECE_SIZE"

definition expected_piece_length :: "int \<Rightarrow> int \<Rightarrow> int" where
  "expected_piece_length metadata_size piece =
     min METADATA_PIECE_SIZE (metadata_size - piece * METADATA_PIECE_SIZE)"

section \<open>Lemmas\<close>

lemma encode_frame_InrD:
  assumes "encode_frame i payload = Inr frame"
  shows "decode_frame_length (take FRAME_HEADER_LENGTH frame) = length frame - FRAME_HEADER_LENGTH"
    and "uint (frame ! FRAME_HEADER_LENGTH) = i" and "drop (FRAME_HEADER_LENGTH + 1) frame = payload"
proof -
  have f: "frame = be_bytes 4 (1 + length payload) @ [of_int i] @ payload" "0 \<le> i" "i \<le> 255"
    "1 + length payload < 2 ^ 32"
    using assms by (auto simp: encode_frame_def split: if_splits)
  then have "be_value (be_bytes 4 (1 + length payload)) = 1 + length payload"
    unfolding be_value_be_bytes by (intro mod_less) simp
  with f(1) show "decode_frame_length (take FRAME_HEADER_LENGTH frame) = length frame - FRAME_HEADER_LENGTH"
    by (simp add: decode_frame_length_def wire_consts)
  have "uint (of_int i :: 8 word) = i" using f(2,3) by (simp add: uint_word_of_int)
  with f(1) show "uint (frame ! FRAME_HEADER_LENGTH) = i"
    by (simp add: wire_consts nth_append)
  show "drop (FRAME_HEADER_LENGTH + 1) frame = payload"
    using f(1) by (simp add: wire_consts)
qed

lemma extended_message_decoded:
  assumes "encode_bencode (PyDict payload) = Inr x" and "0 \<le> i" and "i \<le> 255"
    and "canonical (PyDict payload) = PyDict d"
  shows "decode_extended_message ([of_int i] @ x @ trailing) = Inr (i, d, trailing)"
proof -
  have "decode_value_at ([of_int i] @ x @ trailing) 1 = Inr (PyDict d, 1 + length x)"
    using bencode.dec_at[OF assms(1), of "[of_int i]" trailing] assms(4) by simp
  moreover have "x \<noteq> []" using encode_head[OF assms(1)] by simp
  moreover have "uint (of_int i :: 8 word) = i" using assms(2,3) by (simp add: uint_word_of_int)
  ultimately show ?thesis by (cases x) (simp_all add: decode_extended_message_def)
qed

lemma piece_count_bounds:
  assumes "0 < n"
  shows "1 \<le> piece_count n" "(piece_count n - 1) * METADATA_PIECE_SIZE < n" "n \<le> piece_count n * METADATA_PIECE_SIZE"
proof -
  define q where "q = (n + 16383) div 16384"
  define r where "r = (n + 16383) mod 16384"
  have "n + 16383 = q * 16384 + r" "0 \<le> r" "r < 16384" by (auto simp: q_def r_def)
  then have "1 \<le> q" "(q - 1) * 16384 < n" "n \<le> q * 16384" using assms by (auto simp: algebra_simps)
  moreover have "piece_count n = q" by (simp add: piece_count_def wire_consts q_def)
  ultimately show "1 \<le> piece_count n" "(piece_count n - 1) * METADATA_PIECE_SIZE < n"
    "n \<le> piece_count n * METADATA_PIECE_SIZE" by (simp_all add: wire_consts)
qed

lemma sum_full_pieces:
  "int k * METADATA_PIECE_SIZE \<le> n \<Longrightarrow>
     sum_list (map (\<lambda>i. expected_piece_length n (int i)) [0..<k]) = int k * METADATA_PIECE_SIZE"
  by (induction k) (auto simp: expected_piece_length_def wire_consts)

lemma sum_pieces:
  assumes "0 < metadata_size"
  shows "sum_list (map (\<lambda>i. expected_piece_length metadata_size (int i)) [0..<nat (piece_count metadata_size)]) = metadata_size"
proof -
  note b = piece_count_bounds[OF assms]
  obtain k where nk: "nat (piece_count metadata_size) = Suc k" using b(1) by (cases "nat (piece_count metadata_size)") auto
  then have k: "piece_count metadata_size = int (Suc k)" using b(1) by simp
  have "sum_list (map (\<lambda>i. expected_piece_length metadata_size (int i)) [0..<k]) = int k * METADATA_PIECE_SIZE"
    using b(2) by (intro sum_full_pieces) (simp add: k)
  moreover have "expected_piece_length metadata_size (int k) = metadata_size - int k * METADATA_PIECE_SIZE"
    using b(3) by (simp add: k expected_piece_length_def wire_consts)
  ultimately show ?thesis
    by (simp add: nk)
qed

lemma handshake_decoded:
  assumes "encode_handshake info_hash peer_id = Inr data"
  shows "length data = HANDSHAKE_LENGTH \<and> decode_handshake data = Inr (info_hash, peer_id, True)"
proof -
  have "length info_hash = 20" "length peer_id = 20"
    and d: "data = 19 # PROTOCOL_NAME @ [0, 0, 0, 0, 0, 16, 0, 0] @ info_hash @ peer_id"
    using assms by (auto simp: encode_handshake_def wire_consts identity_consts Let_def numeral_eq_Suc split: if_splits)
  moreover have "length PROTOCOL_NAME = 19" by (simp add: wire_consts)
  ultimately show ?thesis
    by (simp add: decode_handshake_def byte_slice_def wire_consts(1,4,5) nth_Cons' nth_append)
qed

section \<open>Properties\<close>

text \<open>
  A handshake round-trips: it is 68 bytes long and the receiver reads the same info hash
  and peer id and sees that extensions are supported.
\<close>

theorem handshake_roundtrip:
  assumes "encode_handshake info_hash peer_id = Inr data"
  shows "length data = HANDSHAKE_LENGTH \<and> decode_handshake data = Inr (info_hash, peer_id, True)"
  by (rule handshake_decoded[OF assms])

theorem handshake_roundtrip_witness:
  "\<exists>data. encode_handshake (replicate 20 1) (replicate 20 2) = Inr data
     \<and> decode_handshake data = Inr (replicate 20 1, replicate 20 2, True)"
proof -
  obtain data where d: "encode_handshake (replicate 20 1) (replicate 20 2) = Inr data"
    by (simp add: encode_handshake_def identity_consts Let_def)
  with handshake_roundtrip[OF d] show ?thesis by blast
qed

text \<open>
  An extended message round-trips through the framing: the length prefix counts the rest
  of the frame, the message id is \<open>MESSAGE_EXTENDED\<close>, and the body is read back as the
  extension id, the payload in canonical form and exactly the trailing bytes.
\<close>

theorem extended_message_roundtrip:
  assumes "encode_extended_message extension_id payload trailing = Inr frame"
  shows "decode_frame_length (take FRAME_HEADER_LENGTH frame) = length frame - FRAME_HEADER_LENGTH
    \<and> uint (frame ! FRAME_HEADER_LENGTH) = MESSAGE_EXTENDED
    \<and> (\<exists>d. canonical (PyDict payload) = PyDict d
         \<and> decode_extended_message (drop (FRAME_HEADER_LENGTH + 1) frame) = Inr (extension_id, d, trailing))"
proof -
  obtain x where x: "encode_bencode (PyDict payload) = Inr x" and i: "0 \<le> extension_id" "extension_id \<le> 255"
    and f: "encode_frame MESSAGE_EXTENDED ([of_int extension_id] @ x @ trailing) = Inr frame"
    using assms by (auto simp: encode_extended_message_def simp del: encode_bencode.simps split: if_splits sum.splits)
  obtain d where d: "canonical (PyDict payload) = PyDict d" by (cases "normalize_keys payload []") auto
  show ?thesis
    using encode_frame_InrD[OF f] extended_message_decoded[OF x i d] d by simp
qed

theorem extended_message_roundtrip_witness:
  "\<exists>frame. encode_extended_message 3 [(KBytes (ascii ''piece''), PyInt 2)] (ascii ''tail'') = Inr frame
    \<and> decode_extended_message (drop (FRAME_HEADER_LENGTH + 1) frame)
        = Inr (3, [(KBytes (ascii ''piece''), PyInt 2)], ascii ''tail'')"
proof -
  obtain frame where "encode_extended_message 3 [(KBytes (ascii ''piece''), PyInt 2)] (ascii ''tail'') = Inr frame"
    by (simp add: encode_extended_message_def encode_frame_def encode_int_def encode_bytes_def str_int_def
        dec_text.simps wire_consts)
  with extended_message_roundtrip[OF this] show ?thesis by auto
qed

text \<open>
  A metadata request is read by the peer as the request it was built for: the id the peer
  chose, the type, and the piece.
\<close>

theorem metadata_request_roundtrip:
  assumes "encode_metadata_request their_id piece = Inr frame"
  shows "\<exists>payload. decode_extended_message (drop (FRAME_HEADER_LENGTH + 1) frame) = Inr (their_id, payload, [])
    \<and> decode_metadata_message payload = Inr (MSG_TYPE_REQUEST, piece, None)"
proof -
  define request where "request = [(KBytes (ascii ''msg_type''), PyInt MSG_TYPE_REQUEST), (KBytes (ascii ''piece''), PyInt piece)]"
  have i: "0 \<le> their_id" "their_id \<le> 255" "0 \<le> piece"
    and e: "encode_extended_message their_id request [] = Inr frame"
    using assms by (auto simp: encode_metadata_request_def request_def split: if_splits)
  have "plain (PyDict request)" by (simp add: request_def)
  then obtain x m where x: "encode_bencode (PyDict request) = Inr x" and m: "canonical (PyDict request) = PyDict m"
    "\<And>k. py_get m k = canonical (py_get request k)" by (rule wire_fields) blast
  have f: "encode_frame MESSAGE_EXTENDED ([of_int their_id] @ x @ []) = Inr frame"
    using e x i by (simp add: encode_extended_message_def del: encode_bencode.simps)
  have "decode_metadata_message m = Inr (MSG_TYPE_REQUEST, piece, None)"
    using i by (simp add: decode_metadata_message_def m(2) request_def wire_consts)
  then show ?thesis
    using extended_message_decoded[OF x i(1,2) m(1), of "[]"] encode_frame_InrD(3)[OF f] by auto
qed

theorem metadata_request_roundtrip_witness:
  "\<exists>frame payload. encode_metadata_request 2 5 = Inr frame
    \<and> decode_extended_message (drop (FRAME_HEADER_LENGTH + 1) frame) = Inr (2, payload, [])
    \<and> decode_metadata_message payload = Inr (MSG_TYPE_REQUEST, 5, None)"
proof -
  obtain frame where "encode_metadata_request 2 5 = Inr frame"
    by (simp add: encode_metadata_request_def encode_extended_message_def encode_frame_def encode_int_def
        encode_bytes_def str_int_def dec_text.simps wire_consts ascii_def)
  with metadata_request_roundtrip[OF this] show ?thesis by blast
qed

text \<open>
  The expected pieces partition the metadata: every piece has between 1 and
  \<open>METADATA_PIECE_SIZE\<close> bytes and their lengths add up to the metadata size.
\<close>

theorem pieces_partition_metadata:
  assumes "0 < metadata_size"
  shows "(\<forall>piece. 0 \<le> piece \<and> piece < piece_count metadata_size \<longrightarrow>
        1 \<le> expected_piece_length metadata_size piece
        \<and> expected_piece_length metadata_size piece \<le> METADATA_PIECE_SIZE)
    \<and> sum_list (map (\<lambda>i. expected_piece_length metadata_size (int i)) [0..<nat (piece_count metadata_size)]) = metadata_size"
proof
  note b = piece_count_bounds[OF assms]
  show "\<forall>piece. 0 \<le> piece \<and> piece < piece_count metadata_size \<longrightarrow>
        1 \<le> expected_piece_length metadata_size piece
        \<and> expected_piece_length metadata_size piece \<le> METADATA_PIECE_SIZE"
  proof (intro allI impI)
    fix piece assume "0 \<le> piece \<and> piece < piece_count metadata_size"
    then have "piece * METADATA_PIECE_SIZE \<le> (piece_count metadata_size - 1) * METADATA_PIECE_SIZE"
      by (intro mult_right_mono) (auto simp: wire_consts)
    with b(2) show "1 \<le> expected_piece_length metadata_size piece
        \<and> expected_piece_length metadata_size piece \<le> METADATA_PIECE_SIZE"
      by (simp add: expected_piece_length_def wire_consts)
  qed
  show "sum_list (map (\<lambda>i. expected_piece_length metadata_size (int i)) [0..<nat (piece_count metadata_size)]) = metadata_size"
    by (rule sum_pieces[OF assms])
qed

theorem pieces_partition_metadata_witness:
  "piece_count 40000 = 3 \<and> expected_piece_length 40000 0 + expected_piece_length 40000 1 + expected_piece_length 40000 2 = 40000"
  using pieces_partition_metadata[of 40000] by (simp add: piece_count_def expected_piece_length_def wire_consts)

text \<open>
  An accepted extended handshake gives a message id that fits a byte and a metadata size
  within the limit; it is rejected as \<open>no_ut_metadata\<close> or \<open>too_large\<close> otherwise.
\<close>

theorem read_extended_handshake_spec:
  "(case read_extended_handshake payload of
      Inr (their_id, metadata_size) \<Rightarrow>
        1 \<le> their_id \<and> their_id \<le> 255 \<and> 0 < metadata_size \<and> metadata_size \<le> MAX_METADATA_SIZE
        \<and> (\<exists>m. py_get payload (ascii ''m'') = PyDict m \<and> py_get m (ascii ''ut_metadata'') = PyInt their_id)
        \<and> py_get payload (ascii ''metadata_size'') = PyInt metadata_size
    | Inl e \<Rightarrow> e = NoUtMetadata \<or> e = TooLarge \<and> (\<exists>n > MAX_METADATA_SIZE. py_get payload (ascii ''metadata_size'') = PyInt n))"
  by (auto simp: read_extended_handshake_def Let_def split: pyvalue.splits)

end
