(* ===== verification/Fallible_State.thy ===== *)
theory Fallible_State
  imports Scraper_Prelude
begin

text \<open>
  Steps that change a state and may raise: a step takes the state and returns a result or an
  exception, with the state as the step left it. \<open>triple P m Q\<close> says that from a state
  satisfying \<open>P\<close> the step \<open>m\<close> raises nothing and ends with \<open>Q\<close>; the rules in the
  collection \<open>triple_rules\<close> follow the structure of a step.
\<close>

named_theorems triple_rules

type_synonym ('e, 's, 'a) fallible = "'s \<Rightarrow> ('e + 'a) \<times> 's"

section \<open>Combinators\<close>

definition io_return :: "'a \<Rightarrow> ('e, 's, 'a) fallible" where
  "io_return x s = (Inr x, s)"

definition io_raise :: "'e \<Rightarrow> ('e, 's, 'a) fallible" where
  "io_raise e s = (Inl e, s)"

definition io_bind :: "('e, 's, 'a) fallible \<Rightarrow> ('a \<Rightarrow> ('e, 's, 'b) fallible) \<Rightarrow> ('e, 's, 'b) fallible" where
  "io_bind m f s = (case m s of (Inl e, s1) \<Rightarrow> (Inl e, s1) | (Inr x, s1) \<Rightarrow> f x s1)"

definition io_seq :: "('e, 's, 'a) fallible \<Rightarrow> ('e, 's, 'b) fallible \<Rightarrow> ('e, 's, 'b) fallible" where
  "io_seq m n = io_bind m (\<lambda>_. n)"

definition io_get :: "('s \<Rightarrow> 'a) \<Rightarrow> ('e, 's, 'a) fallible" where
  "io_get f s = (Inr (f s), s)"

definition io_update :: "('s \<Rightarrow> 's) \<Rightarrow> ('e, 's, unit) fallible" where
  "io_update f s = (Inr (), f s)"

text \<open>\<open>assert c\<close>, with the exception it raises; and \<open>if c: m\<close>.\<close>

definition io_assert :: "bool \<Rightarrow> 'e \<Rightarrow> ('e, 's, unit) fallible" where
  "io_assert c e = (if c then io_return () else io_raise e)"

definition io_when :: "bool \<Rightarrow> ('e, 's, unit) fallible \<Rightarrow> ('e, 's, unit) fallible" where
  "io_when c m = (if c then m else io_return ())"

text \<open>\<open>for x in xs: m\<close>.\<close>

primrec io_for :: "('a \<Rightarrow> ('e, 's, unit) fallible) \<Rightarrow> 'a list \<Rightarrow> ('e, 's, unit) fallible" where
  "io_for m [] = io_return ()"
| "io_for m (x # xs) = io_seq (m x) (io_for m xs)"

section \<open>Triples\<close>

definition triple :: "('s \<Rightarrow> bool) \<Rightarrow> ('e, 's, 'a) fallible \<Rightarrow> ('a \<Rightarrow> 's \<Rightarrow> bool) \<Rightarrow> bool" where
  "triple P m Q \<longleftrightarrow> (\<forall>s. P s \<longrightarrow> (case m s of (Inl e, s1) \<Rightarrow> False | (Inr x, s1) \<Rightarrow> Q x s1))"

lemma tripleI: "(\<And>s. P s \<Longrightarrow> \<exists>x s1. m s = (Inr x, s1) \<and> Q x s1) \<Longrightarrow> triple P m Q"
  by (fastforce simp: triple_def)

lemma tripleD:
  assumes "triple P m Q" "P s"
  obtains x s1 where "m s = (Inr x, s1)" "Q x s1"
proof -
  obtain r s1 where r: "m s = (r, s1)" by (cases "m s")
  with assms that show thesis by (cases r) (fastforce simp: triple_def)+
qed

lemma triple_return [triple_rules]: "triple (Q x) (io_return x) Q"
  by (simp add: triple_def io_return_def)

lemma triple_bind [triple_rules]:
  "triple P m R \<Longrightarrow> (\<And>x. triple (R x) (f x) Q) \<Longrightarrow> triple P (io_bind m f) Q"
  unfolding triple_def io_bind_def by (fastforce split: prod.splits sum.splits)

lemma triple_seq [triple_rules]: "triple P m (\<lambda>_. R) \<Longrightarrow> triple R n Q \<Longrightarrow> triple P (io_seq m n) Q"
  unfolding io_seq_def by (erule triple_bind)

lemma triple_get: "triple (\<lambda>s. Q (f s) s) (io_get f) Q"
  by (simp add: triple_def io_get_def)

lemma triple_update: "triple (\<lambda>s. Q () (f s)) (io_update f) Q"
  by (simp add: triple_def io_update_def)

lemma triple_assert: "c \<Longrightarrow> triple (Q ()) (io_assert c e) Q"
  by (simp add: io_assert_def triple_return)

lemma triple_when: "(c \<Longrightarrow> triple P m (\<lambda>_. P)) \<Longrightarrow> triple P (io_when c m) (\<lambda>_. P)"
  by (auto simp: io_when_def triple_def io_return_def)

lemma triple_for: "(\<And>x. x \<in> set xs \<Longrightarrow> triple P (m x) (\<lambda>_. P)) \<Longrightarrow> triple P (io_for m xs) (\<lambda>_. P)"
  by (induction xs) (auto intro: triple_return triple_seq)

lemma triple_pre: "triple P m Q \<Longrightarrow> (\<And>s. P' s \<Longrightarrow> P s) \<Longrightarrow> triple P' m Q"
  by (simp add: triple_def)

lemma triple_post: "triple P m Q \<Longrightarrow> (\<And>x s. Q x s \<Longrightarrow> Q' x s) \<Longrightarrow> triple P m Q'"
  by (fastforce simp: triple_def split: prod.splits sum.splits)

lemma triple_assume: "(c \<Longrightarrow> triple P m Q) \<Longrightarrow> triple (\<lambda>s. c \<and> P s) m Q"
  by (auto simp: triple_def)

text \<open>Reading the state: the value read is a fixed one of a state that satisfies the precondition.\<close>

lemma triple_read: "(\<And>s0. P s0 \<Longrightarrow> triple (\<lambda>s. s = s0) (f (g s0)) Q) \<Longrightarrow> triple P (io_bind (io_get g) f) Q"
  by (simp add: triple_def io_bind_def io_get_def)

lemma triple_at: "(\<And>s0. P s0 \<Longrightarrow> triple (\<lambda>s. s = s0) m Q) \<Longrightarrow> triple P m Q"
  by (simp add: triple_def)

text \<open>
  Rules for an invariant \<open>P\<close> that stays true throughout: a value read comes from a state that
  satisfies it, and a step may give a fact about its result.
\<close>

lemma triple_get_bind:
  "(\<And>x. \<exists>s. P s \<and> x = g s \<Longrightarrow> triple P (f x) Q) \<Longrightarrow> triple P (io_bind (io_get g) f) Q"
  by (fastforce simp: triple_def io_bind_def io_get_def)

lemma triple_bind_fact:
  "triple P m (\<lambda>x s. c x \<and> R s) \<Longrightarrow> (\<And>x. c x \<Longrightarrow> triple R (f x) Q) \<Longrightarrow> triple P (io_bind m f) Q"
  by (erule triple_bind) (rule triple_assume)

lemma triple_bind_dep:
  "triple P m (\<lambda>x s. c x \<and> R x s) \<Longrightarrow> (\<And>x. c x \<Longrightarrow> triple (R x) (f x) Q) \<Longrightarrow> triple P (io_bind m f) Q"
  by (erule triple_bind) (rule triple_assume)

lemma triple_seq_fact:
  "triple P m (\<lambda>x s. c x \<and> R s) \<Longrightarrow> triple R n Q \<Longrightarrow> triple P (io_seq m n) Q"
  unfolding io_seq_def by (erule triple_bind_fact)

lemma triple_assert_seq: "c \<Longrightarrow> triple P n Q \<Longrightarrow> triple P (io_seq (io_assert c e) n) Q"
  by (simp add: triple_def io_seq_def io_bind_def io_assert_def io_return_def)

lemma triple_assert_keep: "c \<Longrightarrow> triple P (io_assert c e) (\<lambda>_. P)"
  by (simp add: triple_def io_assert_def io_return_def)

lemma triple_update_seq: "triple R n Q \<Longrightarrow> (\<And>s. P s \<Longrightarrow> R (f s)) \<Longrightarrow> triple P (io_seq (io_update f) n) Q"
  by (simp add: triple_def io_seq_def io_bind_def io_update_def)

lemma triple_update_same: "(\<And>s. P s \<Longrightarrow> P (f s)) \<Longrightarrow> triple P n Q \<Longrightarrow> triple P (io_seq (io_update f) n) Q"
  by (rule triple_update_seq)

lemma triple_update_keep: "(\<And>s. P s \<Longrightarrow> Q (f s)) \<Longrightarrow> triple P (io_update f) (\<lambda>_. Q)"
  by (simp add: triple_def io_update_def)

lemma triple_return_fact: "c x \<Longrightarrow> triple P (io_return x) (\<lambda>x s. c x \<and> P s)"
  by (simp add: triple_def io_return_def)

lemma triple_return_keep: "triple P (io_return x) (\<lambda>_. P)"
  by (simp add: triple_def io_return_def)

lemma triple_get_keep: "triple P (io_get g) (\<lambda>_. P)"
  by (simp add: triple_def io_get_def)

lemma triple_if: "(c \<Longrightarrow> triple P a Q) \<Longrightarrow> (\<not> c \<Longrightarrow> triple P b Q) \<Longrightarrow> triple P (if c then a else b) Q"
  by simp

lemma triple_drop_fact: "triple P m (\<lambda>x s. c x \<and> R s) \<Longrightarrow> triple P m (\<lambda>_. R)"
  by (erule triple_post) simp

section \<open>Parts of the state a command leaves alone\<close>

definition untouched :: "('s \<Rightarrow> 'b) \<Rightarrow> ('e, 's, 'a) fallible \<Rightarrow> bool" where
  "untouched g m \<longleftrightarrow> (\<forall>s. g (snd (m s)) = g s)"

lemma untouched_steps:
  "untouched g (io_return x)" "untouched g (io_raise e)" "untouched g (io_get f)" "untouched g (io_assert c e)"
  by (auto simp: untouched_def io_return_def io_raise_def io_get_def io_assert_def)

lemma untouched_bind: "untouched g m \<Longrightarrow> (\<And>x. untouched g (f x)) \<Longrightarrow> untouched g (io_bind m f)"
  by (simp add: untouched_def io_bind_def split_beta split: sum.splits)

lemma untouched_seq: "untouched g m \<Longrightarrow> untouched g n \<Longrightarrow> untouched g (io_seq m n)"
  by (simp add: io_seq_def untouched_bind)

lemma untouched_for: "(\<And>x. untouched g (m x)) \<Longrightarrow> untouched g (io_for m xs)"
  by (induction xs) (auto intro: untouched_seq untouched_steps)

lemma untouched_update: "(\<And>s. g (f s) = g s) \<Longrightarrow> untouched g (io_update f)"
  by (simp add: untouched_def io_update_def)

lemmas untouched_rules = untouched_steps untouched_bind untouched_seq untouched_for untouched_update

section \<open>Running a command at a state\<close>

lemma bind_get: "io_bind (io_get f) g s = g (f s) s"
  by (simp add: io_bind_def io_get_def)

lemma bind_return: "io_bind (io_return x) f = f x"
  by (simp add: io_bind_def io_return_def fun_eq_iff)

lemma bind_at: "m s = (Inr x, s1) \<Longrightarrow> io_bind m f s = f x s1"
  by (simp add: io_bind_def)

lemma assert_passed: "c \<Longrightarrow> io_seq (io_assert c e) n = n"
  by (simp add: io_seq_def io_assert_def bind_return)

end
