(* ===== verification/Metadata_Fetcher.thy ===== *)
theory Metadata_Fetcher
  imports Peer_Wire_Messages Fallible_State
begin

text \<open>
  One metadata fetch of \<open>metadata_fetcher.py\<close>: the handshake, the extension handshake and the
  piece requests of a session, over anything that offers the \<open>ByteStream\<close> methods. The record
  \<open>stream_ops\<close> has the methods a session calls and the clock of the event loop; a session step
  is a function of the stream's state that returns a value or raises. The TCP stream
  (\<open>PeerStream\<close>) is the record \<open>tcp_stream\<close>: what asyncio has buffered, and what will arrive
  and when. The loops that wait for a message have fuel; a fuel above the number of incoming
  bytes is enough, because every frame takes bytes. SHA-1 is the parameter \<open>sha1\<close>.
\<close>

section \<open>Reasons and errors\<close>

datatype fetch_reason =
    R_connect | R_connect_timeout | R_closed | R_closed_on_handshake | R_timeout | R_stopped | R_bad_handshake
  | R_hash_mismatch | R_no_extensions | R_no_ut_metadata | R_too_large | R_reject | R_bad_piece | R_sha1_mismatch
  | R_frame_too_large | R_bad_extended_message | R_encryption_failed | R_local_error

text \<open>
  What a step raises: \<open>MetadataFetchError(reason)\<close>, some other exception (an assertion or an
  \<open>IndexError\<close>), or no result within the fuel.
\<close>

datatype fetch_error = FetchError fetch_reason | Uncaught | OutOfFuel

definition PIECE_WINDOW :: nat where "PIECE_WINDOW = 8"
definition MAX_FRAME_LENGTH :: nat where "MAX_FRAME_LENGTH = 1024 * 1024"
definition KEEP_ALIVE_ID :: int where "KEEP_ALIVE_ID = - 1"

record fetch_timeouts =
  ft_connect :: real
  ft_handshake :: real
  ft_piece :: real
  ft_session :: real
  ft_utp_connect :: real

definition DEFAULT_TIMEOUTS :: fetch_timeouts where
  "DEFAULT_TIMEOUTS = \<lparr>ft_connect = 1, ft_handshake = 4, ft_piece = 5, ft_session = 15, ft_utp_connect = 2\<rparr>"

datatype os_errno = EMFILE | ENFILE | ENOBUFS | ENOMEM | EADDRNOTAVAIL | OtherErrno

definition connect_error_reason :: "os_errno \<Rightarrow> fetch_reason" where
  "connect_error_reason error = (if error = OtherErrno then R_connect else R_local_error)"

section \<open>Steps that may raise\<close>

type_synonym ('s, 'a) io = "(fetch_error, 's, 'a) fallible"

record 's stream_ops =
  so_read :: "'s \<Rightarrow> nat \<Rightarrow> real \<Rightarrow> fetch_reason \<Rightarrow> (fetch_reason + bytes) \<times> 's"
  so_write :: "'s \<Rightarrow> bytes \<Rightarrow> 's"
  so_time :: "'s \<Rightarrow> real"

definition io_read :: "'s stream_ops \<Rightarrow> nat \<Rightarrow> real \<Rightarrow> fetch_reason \<Rightarrow> ('s, bytes) io" where
  "io_read S len deadline closed_reason s =
     (case so_read S s len deadline closed_reason of
        (Inl reason, s1) \<Rightarrow> (Inl (FetchError reason), s1)
      | (Inr data, s1) \<Rightarrow> (Inr data, s1))"

definition io_write :: "'s stream_ops \<Rightarrow> bytes \<Rightarrow> ('s, unit) io" where
  "io_write S data s = (Inr (), so_write S s data)"

definition io_time :: "'s stream_ops \<Rightarrow> ('s, real) io" where
  "io_time S s = (Inr (so_time S s), s)"

text \<open>A codec call whose errors nothing catches.\<close>

definition io_lift :: "'e + 'a \<Rightarrow> ('s, 'a) io" where
  "io_lift r = (case r of Inl _ \<Rightarrow> io_raise Uncaught | Inr x \<Rightarrow> io_return x)"

section \<open>Sessions\<close>

definition read_frame :: "'s stream_ops \<Rightarrow> real \<Rightarrow> ('s, int \<times> bytes) io" where
  "read_frame S deadline =
     io_bind (io_read S FRAME_HEADER_LENGTH deadline R_closed) (\<lambda>header.
       let len = decode_frame_length header
       in if len = 0 then io_return (KEEP_ALIVE_ID, [])
          else if len > MAX_FRAME_LENGTH then io_raise (FetchError R_frame_too_large)
          else io_bind (io_read S len deadline R_closed) (\<lambda>body.
                 io_return (uint (body ! 0), drop 1 body)))"

definition read_handshake :: "'s stream_ops \<Rightarrow> bytes \<Rightarrow> real \<Rightarrow> ('s, unit) io" where
  "read_handshake S info_hash deadline =
     io_bind (io_read S HANDSHAKE_LENGTH deadline R_closed_on_handshake) (\<lambda>data.
       case decode_handshake data of
         Inl _ \<Rightarrow> io_raise (FetchError R_bad_handshake)
       | Inr (remote_hash, _, supports_extensions) \<Rightarrow>
           if remote_hash \<noteq> info_hash then io_raise (FetchError R_hash_mismatch)
           else if \<not> supports_extensions then io_raise (FetchError R_no_extensions)
           else io_return ())"

text \<open>
  \<open>decode_extended_message\<close> raises \<open>ValueError\<close>, which is caught, or the decoder's
  \<open>IndexError\<close>, which is not.
\<close>

fun receive_extended :: "'s stream_ops \<Rightarrow> nat \<Rightarrow> int \<Rightarrow> real \<Rightarrow> ('s, pydict \<times> bytes) io" where
  "receive_extended S 0 extension_id deadline = io_raise OutOfFuel"
| "receive_extended S (Suc fuel) extension_id deadline =
     io_bind (read_frame S deadline) (\<lambda>(message_id, body).
       if message_id \<noteq> MESSAGE_EXTENDED then receive_extended S fuel extension_id deadline
       else case decode_extended_message body of
              Inl (DecodeFailed (IndexOutOfRange _)) \<Rightarrow> io_raise Uncaught
            | Inl _ \<Rightarrow> io_raise (FetchError R_bad_extended_message)
            | Inr (received_id, payload, trailing) \<Rightarrow>
                if received_id = extension_id then io_return (payload, trailing)
                else receive_extended S fuel extension_id deadline)"

definition receive_extended_handshake :: "'s stream_ops \<Rightarrow> nat \<Rightarrow> real \<Rightarrow> ('s, int \<times> int) io" where
  "receive_extended_handshake S fuel deadline =
     io_bind (receive_extended S fuel EXTENDED_HANDSHAKE_ID deadline) (\<lambda>(payload, _).
       case read_extended_handshake payload of
         Inl TooLarge \<Rightarrow> io_raise (FetchError R_too_large)
       | Inl _ \<Rightarrow> io_raise (FetchError R_no_ut_metadata)
       | Inr result \<Rightarrow> io_return result)"

text \<open>The set \<open>outstanding\<close> is a list without duplicates.\<close>

fun receive_piece :: "'s stream_ops \<Rightarrow> nat \<Rightarrow> int list \<Rightarrow> int \<Rightarrow> real \<Rightarrow> ('s, int \<times> bytes) io" where
  "receive_piece S 0 outstanding metadata_size deadline = io_raise OutOfFuel"
| "receive_piece S (Suc fuel) outstanding metadata_size deadline =
     io_bind (receive_extended S (Suc fuel) UT_METADATA_LOCAL_ID deadline) (\<lambda>(payload, data).
       case decode_metadata_message payload of
         Inl _ \<Rightarrow> io_raise (FetchError R_bad_piece)
       | Inr (msg_type, piece, total_size) \<Rightarrow>
           if piece \<notin> set outstanding then receive_piece S fuel outstanding metadata_size deadline
           else if msg_type = MSG_TYPE_REJECT then io_raise (FetchError R_reject)
           else if msg_type \<noteq> MSG_TYPE_DATA then receive_piece S fuel outstanding metadata_size deadline
           else if int (length data) \<noteq> expected_piece_length metadata_size piece
                   \<or> (case total_size of None \<Rightarrow> False | Some n \<Rightarrow> n \<noteq> metadata_size)
           then io_raise (FetchError R_bad_piece)
           else io_return (piece, data))"

text \<open>The inner loop of \<open>request_pieces\<close>: fill the window of outstanding requests.\<close>

function fill_window :: "'s stream_ops \<Rightarrow> int \<Rightarrow> int \<Rightarrow> int list \<Rightarrow> int \<Rightarrow> ('s, int list \<times> int) io" where
  "fill_window S their_id piece_total outstanding next_piece =
     (if next_piece < piece_total \<and> length outstanding < PIECE_WINDOW
      then io_bind (io_lift (encode_metadata_request their_id next_piece)) (\<lambda>request.
             io_bind (io_write S request) (\<lambda>_.
               fill_window S their_id piece_total (outstanding @ [next_piece]) (next_piece + 1)))
      else io_return (outstanding, next_piece))"
  by pat_completeness auto
termination fill_window
  by (relation "measure (\<lambda>(S, their_id, piece_total, outstanding, next_piece). PIECE_WINDOW - length outstanding)") auto

declare fill_window.simps [simp del]

text \<open>
  The outer loop. Every round receives one new piece, so \<open>count\<close> rounds are enough; \<open>pieces\<close> is
  the dictionary of the pieces received so far.
\<close>

fun request_rounds ::
    "'s stream_ops \<Rightarrow> nat \<Rightarrow> nat \<Rightarrow> int \<Rightarrow> int \<Rightarrow> fetch_timeouts \<Rightarrow> real \<Rightarrow> (int, bytes) odict \<Rightarrow> int list \<Rightarrow> int
       \<Rightarrow> ('s, (int, bytes) odict) io" where
  "request_rounds S fuel rounds their_id metadata_size timeouts session_deadline pieces outstanding next_piece =
     (if \<not> int (length pieces) < piece_count metadata_size then io_return pieces
      else case rounds of
             0 \<Rightarrow> io_raise OutOfFuel
           | Suc rounds_left \<Rightarrow>
               io_bind (fill_window S their_id (piece_count metadata_size) outstanding next_piece) (\<lambda>(outstanding1, next_piece1).
                 io_bind (io_time S) (\<lambda>now.
                   io_bind (receive_piece S fuel outstanding1 metadata_size (min session_deadline (now + ft_piece timeouts)))
                     (\<lambda>(piece, data).
                       request_rounds S fuel rounds_left their_id metadata_size timeouts session_deadline
                         (AList.update piece data pieces) (removeAll piece outstanding1) next_piece1))))"

declare request_rounds.simps [simp del]

text \<open>\<open>pieces[index]\<close> raises \<open>KeyError\<close> for a missing piece.\<close>

definition join_pieces :: "(int, bytes) odict \<Rightarrow> int \<Rightarrow> ('s, bytes) io" where
  "join_pieces pieces piece_total =
     (if \<forall>index \<in> set [0..<nat piece_total]. int index \<in> fst ` set pieces
      then io_return (concat (map (\<lambda>index. the (map_of pieces (int index))) [0..<nat piece_total]))
      else io_raise Uncaught)"

definition request_pieces :: "'s stream_ops \<Rightarrow> nat \<Rightarrow> int \<Rightarrow> int \<Rightarrow> fetch_timeouts \<Rightarrow> real \<Rightarrow> ('s, bytes) io" where
  "request_pieces S fuel their_id metadata_size timeouts session_deadline =
     io_bind (request_rounds S fuel (nat (piece_count metadata_size)) their_id metadata_size timeouts session_deadline [] [] 0)
       (\<lambda>pieces. io_bind (join_pieces pieces (piece_count metadata_size)) (\<lambda>result.
          if int (length result) = metadata_size then io_return result else io_raise Uncaught))"

definition opening_messages :: "bytes \<Rightarrow> bytes \<Rightarrow> wire_error + bytes" where
  "opening_messages peer_id info_hash =
     (case encode_handshake info_hash peer_id of
        Inl e \<Rightarrow> Inl e
      | Inr handshake \<Rightarrow> (case encode_extended_handshake of Inl e \<Rightarrow> Inl e | Inr extended \<Rightarrow> Inr (handshake @ extended)))"

definition run_session ::
    "'s stream_ops \<Rightarrow> nat \<Rightarrow> bytes \<Rightarrow> bytes \<Rightarrow> fetch_timeouts \<Rightarrow> real \<Rightarrow> bool \<Rightarrow> ('s, bytes) io" where
  "run_session S fuel peer_id info_hash timeouts session_deadline send_handshakes =
     io_bind (if send_handshakes then io_bind (io_lift (opening_messages peer_id info_hash)) (io_write S) else io_return ())
       (\<lambda>_. io_bind (io_time S) (\<lambda>now.
          let handshake_deadline = min session_deadline (now + ft_handshake timeouts)
          in io_bind (read_handshake S info_hash handshake_deadline) (\<lambda>_.
               io_bind (receive_extended_handshake S fuel handshake_deadline) (\<lambda>(their_id, metadata_size).
                 request_pieces S fuel their_id metadata_size timeouts session_deadline))))"

definition verify_metadata :: "(bytes \<Rightarrow> bytes) \<Rightarrow> bytes \<Rightarrow> bytes \<Rightarrow> fetch_error + unit" where
  "verify_metadata sha1 info_hash metadata =
     (if sha1 metadata \<noteq> info_hash then Inl (FetchError R_sha1_mismatch) else Inr ())"

section \<open>The TCP stream\<close>

datatype tcp_event = Chunk bytes | Eof | ConnectionReset

record tcp_stream =
  ts_clock :: real
  ts_buffer :: bytes
  ts_events :: "(real \<times> tcp_event) list"
  ts_written :: bytes
  ts_closed :: bool

text \<open>
  \<open>within(reader.readexactly(length), remaining)\<close>: wait until enough bytes are buffered, the
  peer closes or resets the connection, or the time is up.
\<close>

datatype wait_outcome = WaitReady | WaitEof | WaitOsError | WaitTimeout

fun await_bytes ::
    "nat \<Rightarrow> real \<Rightarrow> real \<Rightarrow> bytes \<Rightarrow> (real \<times> tcp_event) list \<Rightarrow> wait_outcome \<times> real \<times> bytes \<times> (real \<times> tcp_event) list" where
  "await_bytes n deadline clock buffer [] =
     (if n \<le> length buffer then (WaitReady, clock, buffer, []) else (WaitTimeout, deadline, buffer, []))"
| "await_bytes n deadline clock buffer ((t, event) # events) =
     (if n \<le> length buffer then (WaitReady, clock, buffer, (t, event) # events)
      else if t > deadline then (WaitTimeout, deadline, buffer, (t, event) # events)
      else case event of
             Chunk data \<Rightarrow> await_bytes n deadline (max clock t) (buffer @ data) events
           | Eof \<Rightarrow> (WaitEof, max clock t, buffer, (t, event) # events)
           | ConnectionReset \<Rightarrow> (WaitOsError, max clock t, buffer, (t, event) # events))"

definition tcp_read_exactly ::
    "tcp_stream \<Rightarrow> nat \<Rightarrow> real \<Rightarrow> fetch_reason \<Rightarrow> (fetch_reason + bytes) \<times> tcp_stream" where
  "tcp_read_exactly s len deadline closed_reason =
     (if deadline - ts_clock s \<le> 0 then (Inl R_timeout, s)
      else case await_bytes len deadline (ts_clock s) (ts_buffer s) (ts_events s) of
             (WaitReady, clock, buffer, events) \<Rightarrow>
               (Inr (take len buffer), s\<lparr>ts_clock := clock, ts_buffer := drop len buffer, ts_events := events\<rparr>)
           | (WaitEof, clock, buffer, events) \<Rightarrow>
               (Inl (if buffer = [] then closed_reason else R_closed), s\<lparr>ts_clock := clock, ts_buffer := [], ts_events := events\<rparr>)
           | (WaitTimeout, clock, buffer, events) \<Rightarrow>
               (Inl R_timeout, s\<lparr>ts_clock := clock, ts_buffer := buffer, ts_events := events\<rparr>)
           | (WaitOsError, clock, buffer, events) \<Rightarrow>
               (Inl closed_reason, s\<lparr>ts_clock := clock, ts_buffer := buffer, ts_events := events\<rparr>))"

definition tcp_write :: "tcp_stream \<Rightarrow> bytes \<Rightarrow> tcp_stream" where
  "tcp_write s data = s\<lparr>ts_written := ts_written s @ data\<rparr>"

definition tcp_close :: "tcp_stream \<Rightarrow> tcp_stream" where
  "tcp_close s = s\<lparr>ts_closed := True\<rparr>"

definition tcp_ops :: "tcp_stream stream_ops" where
  "tcp_ops = \<lparr>so_read = tcp_read_exactly, so_write = tcp_write, so_time = ts_clock\<rparr>"

text \<open>
  What the operating system does with a connection attempt: creating the socket may fail, and
  the connect may succeed with a stream, fail, or take longer than the timeout.
\<close>

datatype connect_outcome = SocketFailed os_errno | ConnectTimedOut | ConnectFailed os_errno | ConnectedTo tcp_stream

definition open_tcp_stream :: "connect_outcome \<Rightarrow> fetch_reason + tcp_stream" where
  "open_tcp_stream attempt =
     (case attempt of
        SocketFailed error \<Rightarrow> Inl (connect_error_reason error)
      | ConnectTimedOut \<Rightarrow> Inl R_connect_timeout
      | ConnectFailed error \<Rightarrow> Inl (connect_error_reason error)
      | ConnectedTo s \<Rightarrow> Inr s)"

definition fetch_metadata ::
    "(bytes \<Rightarrow> bytes) \<Rightarrow> nat \<Rightarrow> bytes \<Rightarrow> real \<Rightarrow> connect_outcome \<Rightarrow> bytes \<Rightarrow> fetch_timeouts \<Rightarrow> (fetch_error + bytes) \<times> tcp_stream option" where
  "fetch_metadata sha1 fuel peer_id now attempt info_hash timeouts =
     (case open_tcp_stream attempt of
        Inl reason \<Rightarrow> (Inl (FetchError reason), None)
      | Inr s \<Rightarrow>
          (case run_session tcp_ops fuel peer_id info_hash timeouts (now + ft_session timeouts) True s of
             (Inl e, s1) \<Rightarrow> (Inl e, Some (tcp_close s1))
           | (Inr metadata, s1) \<Rightarrow>
               (case verify_metadata sha1 info_hash metadata of
                  Inl e \<Rightarrow> (Inl e, Some (tcp_close s1))
                | Inr _ \<Rightarrow> (if 0 < length metadata then Inr metadata else Inl Uncaught, Some (tcp_close s1)))))"

end
