(* ===== verification/Metadata_Session.thy ===== *)
theory Metadata_Session
  imports Metadata_Fetcher
begin

text \<open>
  What a session of \<open>metadata_fetcher.py\<close> guarantees over any stream with the laws of the
  locale \<open>byte_stream\<close>: it always ends, with the metadata or with one of the fetch reasons.
\<close>

section \<open>The stream interface\<close>

text \<open>
  What a session relies on: a read that succeeds returns the next \<open>n\<close> bytes of what the peer
  sends, in order and once, and writing does not touch them.
\<close>

locale byte_stream =
  fixes S :: "'s stream_ops"
    and incoming :: "'s \<Rightarrow> bytes"
  assumes read_ok: "0 < n \<Longrightarrow> so_read S s n d r = (Inr data, s') \<Longrightarrow> length data = n \<and> incoming s = data @ incoming s'"
    and write_incoming: "incoming (so_write S s data) = incoming s"

lemma io_bind_eq:
  "io_bind m f s = (Inr y, t) \<longleftrightarrow> (\<exists>x s1. m s = (Inr x, s1) \<and> f x s1 = (Inr y, t))"
  "io_bind m f s = (Inl e, t) \<longleftrightarrow> m s = (Inl e, t) \<or> (\<exists>x s1. m s = (Inr x, s1) \<and> f x s1 = (Inl e, t))"
  by (auto simp: io_bind_def split: prod.splits sum.splits)

lemma io_simps [simp]:
  "io_return x s = (Inr y, t) \<longleftrightarrow> y = x \<and> t = s" "io_return x s \<noteq> (Inl e, t)"
  "io_raise e s = (Inl e', t) \<longleftrightarrow> e' = e \<and> t = s" "io_raise e s \<noteq> (Inr y, t)"
  "io_write S b s = (Inr u, t) \<longleftrightarrow> t = so_write S s b" "io_write S b s \<noteq> (Inl e, t)"
  "io_time S s = (Inr now, t) \<longleftrightarrow> now = so_time S s \<and> t = s" "io_time S s \<noteq> (Inl e, t)"
  "io_lift (Inr x) s = (Inr y, t) \<longleftrightarrow> y = x \<and> t = s" "io_lift (Inr x) s \<noteq> (Inl e, t)"
  "io_read S n d r s = (Inr b, t) \<longleftrightarrow> so_read S s n d r = (Inr b, t)"
  "io_read S n d r s = (Inl e, t) \<longleftrightarrow> (\<exists>reason. e = FetchError reason \<and> so_read S s n d r = (Inl reason, t))"
  by (auto simp: io_return_def io_raise_def io_write_def io_time_def io_lift_def io_read_def split: prod.splits sum.splits)

text \<open>The failures a session may end with: a reason, never an uncaught exception or missing fuel.\<close>

abbreviation clean :: "fetch_error \<Rightarrow> bool" where
  "clean e \<equiv> \<exists>reason. e = FetchError reason"

lemma decode_extended_no_index_error: "decode_extended_message body \<noteq> Inl (DecodeFailed (IndexOutOfRange i))"
proof
  assume "decode_extended_message body = Inl (DecodeFailed (IndexOutOfRange i))"
  then have "decode_value_at body 1 = Inl (IndexOutOfRange i)" "2 \<le> length body"
    by (auto simp: decode_extended_message_def split: if_splits sum.splits prod.splits pyvalue.splits)
  with decode_index_error(1) show False by fastforce
qed

lemma read_extended_handshake_bounds:
  "read_extended_handshake payload = Inr (their_id, n) \<Longrightarrow> 1 \<le> their_id \<and> their_id \<le> 255 \<and> 0 < n \<and> n \<le> MAX_METADATA_SIZE"
  by (auto simp: read_extended_handshake_def Let_def split: pyvalue.splits if_splits)

lemma encode_metadata_request_ok:
  assumes "1 \<le> their_id" "their_id \<le> 255" "0 \<le> piece" "piece < 2 ^ 31"
  shows "\<exists>request. encode_metadata_request their_id piece = Inr request"
proof -
  have "length (str_int piece) \<le> 2 ^ 31" using length_dec_text_le[of "nat piece"] assms by (simp add: str_int_def)
  then show ?thesis
    using assms length_dec_text_le[of "length ''piece''"] length_dec_text_le[of "length ''msg_type''"]
    by (simp add: encode_metadata_request_def encode_extended_message_def encode_frame_def
        encode_int_def encode_bytes_def wire_consts str_int_def[of 0] dec_text_0)
qed

text \<open>
  The pieces received and the requests outstanding are the pieces asked for so far, without
  overlap, and every piece has its expected length.
\<close>

definition progress :: "int \<Rightarrow> (int, bytes) odict \<Rightarrow> int list \<Rightarrow> int \<Rightarrow> bool" where
  "progress n pieces outstanding next_piece \<longleftrightarrow>
     distinct outstanding \<and> od_ok pieces \<and> set outstanding \<inter> fst ` set pieces = {}
     \<and> set outstanding \<union> fst ` set pieces = {0..<next_piece} \<and> 0 \<le> next_piece \<and> next_piece \<le> piece_count n
     \<and> (\<forall>k v. map_of pieces k = Some v \<longrightarrow> int (length v) = expected_piece_length n k)"

lemma progress_receive:
  assumes "progress n pieces outstanding next_piece" "piece \<in> set outstanding" "int (length data) = expected_piece_length n piece"
  shows "progress n (AList.update piece data pieces) (removeAll piece outstanding) next_piece"
    and "length (AList.update piece data pieces) = Suc (length pieces)"
proof -
  have new: "piece \<notin> fst ` set pieces" using assms(1,2) by (auto simp: progress_def)
  then show "length (AList.update piece data pieces) = Suc (length pieces)" by (rule length_update_new)
  have "set (removeAll piece outstanding) \<union> insert piece (fst ` set pieces) = set outstanding \<union> fst ` set pieces"
    using assms(2) by auto
  moreover have "set (removeAll piece outstanding) \<inter> insert piece (fst ` set pieces) = {}"
    using assms(1) by (auto simp: progress_def)
  ultimately show "progress n (AList.update piece data pieces) (removeAll piece outstanding) next_piece"
    using assms(1,3) unfolding progress_def by (simp add: dict_simps keys_update distinct_removeAll)
qed

lemma progress_done:
  assumes "progress n pieces outstanding next_piece" "piece_count n \<le> int (length pieces)"
  shows "fst ` set pieces = {0..<piece_count n}"
proof (rule card_subset_eq)
  have "fst ` set pieces \<subseteq> {0..<next_piece}" "next_piece \<le> piece_count n"
    using assms(1) unfolding progress_def by blast+
  then show "fst ` set pieces \<subseteq> {0..<piece_count n}" by fastforce
  then have "card (fst ` set pieces) \<le> card {0..<piece_count n}" by (rule card_mono[rotated]) simp
  moreover have "card (fst ` set pieces) = length pieces"
    using assms(1) distinct_card[of "map fst pieces"] by (simp add: progress_def)
  ultimately show "card (fst ` set pieces) = card {0..<piece_count n}" using assms(2) by simp
qed simp

lemma int_sum_list: "int (sum_list xs) = sum_list (map int xs)"
  by (induction xs) simp_all

lemma progress_join:
  assumes "progress n pieces outstanding next_piece" "piece_count n \<le> int (length pieces)" "0 < n"
  shows "\<exists>result. join_pieces pieces (piece_count n) s = (Inr result, s) \<and> int (length result) = n
    \<and> result = concat (map (\<lambda>i. the (map_of pieces (int i))) [0..<nat (piece_count n)])"
proof -
  note keys = progress_done[OF assms(1,2)]
  have each: "int (length (the (map_of pieces (int i)))) = expected_piece_length n (int i)" if "i < nat (piece_count n)" for i
  proof -
    have "int i \<in> fst ` set pieces" unfolding keys using that by auto
    then obtain v where "map_of pieces (int i) = Some v" by (metis map_of_eq_None_iff not_None_eq)
    with assms(1) show ?thesis by (simp add: progress_def)
  qed
  have eq: "map (\<lambda>i. int (length (the (map_of pieces (int i))))) [0..<nat (piece_count n)]
      = map (\<lambda>i. expected_piece_length n (int i)) [0..<nat (piece_count n)]"
    by (rule map_cong[OF refl], rule each) simp
  have "int (length (concat (map (\<lambda>i. the (map_of pieces (int i))) [0..<nat (piece_count n)])))
      = (\<Sum>i \<leftarrow> [0..<nat (piece_count n)]. expected_piece_length n (int i))"
    unfolding eq[symmetric] by (simp add: length_concat comp_def int_sum_list)
  also have "\<dots> = n" using sum_pieces[OF assms(3)] by simp
  finally show ?thesis by (auto simp: join_pieces_def io_return_def keys)
qed

context byte_stream
begin

lemma read_frame_progress:
  assumes "read_frame S deadline s = (Inr (mid, body), s')"
  shows "length (incoming s') < length (incoming s)"
proof -
  obtain header s1 where h: "so_read S s FRAME_HEADER_LENGTH deadline R_closed = (Inr header, s1)"
    and rest: "s1 = s' \<or> (\<exists>b. so_read S s1 (decode_frame_length header) deadline R_closed = (Inr b, s')
        \<and> decode_frame_length header \<noteq> 0)"
    using assms by (auto simp: read_frame_def io_bind_eq Let_def split: if_splits)
  have "length (incoming s1) < length (incoming s)" using read_ok[OF _ h] by (simp add: FRAME_HEADER_LENGTH_def)
  moreover have "length (incoming s') \<le> length (incoming s1)" using rest read_ok by fastforce
  ultimately show ?thesis by simp
qed

lemma read_frame_clean: "read_frame S deadline s = (Inl e, s') \<Longrightarrow> clean e"
  by (auto simp: read_frame_def io_bind_eq Let_def split: if_splits)

lemma receive_extended_total:
  "length (incoming s) < fuel \<Longrightarrow>
     (\<forall>e s'. receive_extended S fuel i deadline s = (Inl e, s') \<longrightarrow> clean e)
     \<and> (\<forall>x s'. receive_extended S fuel i deadline s = (Inr x, s') \<longrightarrow> length (incoming s') < length (incoming s))"
proof (induction fuel arbitrary: s)
  case (Suc fuel)
  have IH: "(\<forall>e s'. receive_extended S fuel i deadline s1 = (Inl e, s') \<longrightarrow> clean e)
     \<and> (\<forall>x s'. receive_extended S fuel i deadline s1 = (Inr x, s') \<longrightarrow> length (incoming s') < length (incoming s1))"
    if "read_frame S deadline s = (Inr (mid, body), s1)" for mid body s1
    using Suc.IH[of s1] read_frame_progress[OF that] Suc.prems by simp
  show ?case
  proof (intro conjI allI impI)
    fix e s' assume "receive_extended S (Suc fuel) i deadline s = (Inl e, s')"
    then show "clean e" using IH read_frame_clean decode_extended_no_index_error
      by (auto simp: io_bind_eq split: if_splits sum.splits wire_error.splits decode_error.splits prod.splits)
  next
    fix x s' assume "receive_extended S (Suc fuel) i deadline s = (Inr x, s')"
    then obtain mid body s1 where f: "read_frame S deadline s = (Inr (mid, body), s1)"
      and "receive_extended S fuel i deadline s1 = (Inr x, s') \<or> s' = s1"
      by (auto simp: io_bind_eq split: if_splits sum.splits wire_error.splits decode_error.splits prod.splits)
    with IH[OF f] read_frame_progress[OF f] show "length (incoming s') < length (incoming s)" by auto
  qed
qed simp

lemma receive_piece_total:
  "length (incoming s) < fuel \<Longrightarrow>
     (\<forall>e s'. receive_piece S fuel outstanding n deadline s = (Inl e, s') \<longrightarrow> clean e)
     \<and> (\<forall>piece data s'. receive_piece S fuel outstanding n deadline s = (Inr (piece, data), s') \<longrightarrow>
          length (incoming s') < length (incoming s) \<and> piece \<in> set outstanding \<and> int (length data) = expected_piece_length n piece)"
proof (induction fuel arbitrary: s)
  case (Suc fuel)
  note ext = receive_extended_total[OF Suc.prems, of UT_METADATA_LOCAL_ID deadline]
  have less: "length (incoming s1) < length (incoming s)"
    if "receive_extended S (Suc fuel) UT_METADATA_LOCAL_ID deadline s = (Inr x, s1)" for x s1
    using ext that by blast
  have IH: "(\<forall>e s'. receive_piece S fuel outstanding n deadline s1 = (Inl e, s') \<longrightarrow> clean e)
     \<and> (\<forall>piece data s'. receive_piece S fuel outstanding n deadline s1 = (Inr (piece, data), s') \<longrightarrow>
          length (incoming s') < length (incoming s1) \<and> piece \<in> set outstanding \<and> int (length data) = expected_piece_length n piece)"
    if "receive_extended S (Suc fuel) UT_METADATA_LOCAL_ID deadline s = (Inr x, s1)" for x s1
    using Suc.IH[of s1] less[OF that] Suc.prems by simp
  obtain r s1 where x: "receive_extended S (Suc fuel) UT_METADATA_LOCAL_ID deadline s = (r, s1)" by fastforce
  show ?case
  proof (cases r)
    case (Inl e)
    with x ext show ?thesis by (simp add: io_bind_def del: receive_extended.simps)
  next
    case (Inr y)
    obtain payload data where y: "y = (payload, data)" by fastforce
    have x': "receive_extended S (Suc fuel) UT_METADATA_LOCAL_ID deadline s = (Inr y, s1)" using x Inr by simp
    note less = less[OF x'] and IH = IH[OF x']
    show ?thesis
    proof (cases "decode_metadata_message payload")
      case (Inl e)
      then show ?thesis by (simp add: io_bind_def x' y del: receive_extended.simps)
    next
      case m: (Inr z)
      obtain msg_type piece total_size where z: "z = (msg_type, piece, total_size)" by (cases z)
      show ?thesis using less IH by (simp add: io_bind_def x' y m z del: receive_extended.simps) fastforce
    qed
  qed
qed simp

lemma fill_window_ok:
  assumes "1 \<le> their_id" "their_id \<le> 255" "piece_count n < 2 ^ 31"
  shows "progress n pieces outstanding next_piece \<Longrightarrow>
    \<exists>outstanding' next' s'. fill_window S their_id (piece_count n) outstanding next_piece s = (Inr (outstanding', next'), s')
      \<and> progress n pieces outstanding' next' \<and> incoming s' = incoming s
      \<and> (piece_count n \<le> next' \<or> PIECE_WINDOW \<le> length outstanding') \<and> (\<exists>ws. s' = foldl (so_write S) s ws)"
proof (induction "PIECE_WINDOW - length outstanding" arbitrary: outstanding next_piece s rule: less_induct)
  case less
  show ?case
  proof (cases "next_piece < piece_count n \<and> length outstanding < PIECE_WINDOW")
    case True
    obtain request where r: "encode_metadata_request their_id next_piece = Inr request"
      using encode_metadata_request_ok[OF assms(1,2), of next_piece] True assms(3) less.prems by (auto simp: progress_def)
    have "{0..<next_piece + 1} = insert next_piece {0..<next_piece}" using less.prems by (auto simp: progress_def)
    moreover have "next_piece \<notin> set outstanding \<union> fst ` set pieces" using less.prems by (simp add: progress_def)
    ultimately have p: "progress n pieces (outstanding @ [next_piece]) (next_piece + 1)"
      using less.prems True by (simp add: progress_def)
    have "PIECE_WINDOW - length (outstanding @ [next_piece]) < PIECE_WINDOW - length outstanding" using True by auto
    from less.hyps[OF this p, of "so_write S s request"] obtain o' n' s' ws where IH:
      "fill_window S their_id (piece_count n) (outstanding @ [next_piece]) (next_piece + 1) (so_write S s request) = (Inr (o', n'), s')"
      "progress n pieces o' n'" "incoming s' = incoming s" "piece_count n \<le> n' \<or> PIECE_WINDOW \<le> length o'"
      "s' = foldl (so_write S) s (request # ws)"
      by (auto simp: write_incoming)
    then have "\<exists>ws. s' = foldl (so_write S) s ws" by blast
    with IH(1-4) show ?thesis
      using True r by (simp add: fill_window.simps[of S their_id _ outstanding] io_bind_def io_lift_def io_return_def io_write_def write_incoming)
  next
    case False
    with less.prems show ?thesis
      by (subst fill_window.simps) (auto simp: io_return_def intro: exI[of _ "[]"])
  qed
qed

lemma request_rounds_total:
  assumes "1 \<le> their_id" "their_id \<le> 255" "piece_count n < 2 ^ 31"
  shows "progress n pieces outstanding next_piece \<Longrightarrow> length (incoming s) < fuel \<Longrightarrow>
      piece_count n \<le> int (length pieces + rounds) \<Longrightarrow>
      (\<forall>e s'. request_rounds S fuel rounds their_id n timeouts sd pieces outstanding next_piece s = (Inl e, s') \<longrightarrow> clean e)
      \<and> (\<forall>x s'. request_rounds S fuel rounds their_id n timeouts sd pieces outstanding next_piece s = (Inr x, s') \<longrightarrow>
          piece_count n \<le> int (length x) \<and> (\<exists>o' n'. progress n x o' n'))"
proof (induction rounds arbitrary: pieces outstanding next_piece s)
  case 0
  then show ?case by (auto simp: request_rounds.simps)
next
  case (Suc rounds)
  show ?case
  proof (cases "int (length pieces) < piece_count n")
    case False
    then show ?thesis using Suc.prems(1) by (auto simp: request_rounds.simps)
  next
    case True
    obtain o1 n1 s1 where w: "fill_window S their_id (piece_count n) outstanding next_piece s = (Inr (o1, n1), s1)"
      and p1: "progress n pieces o1 n1" and in1: "incoming s1 = incoming s" using fill_window_ok[OF assms Suc.prems(1)] by blast
    let ?d = "min sd (so_time S s1 + ft_piece timeouts)"
    obtain r s2 where r: "receive_piece S fuel o1 n ?d s1 = (r, s2)" by fastforce
    have enough: "length (incoming s1) < fuel" using Suc.prems(2) in1 by simp
    note rp = receive_piece_total[OF enough, of o1 n ?d]
    show ?thesis
    proof (cases r)
      case (Inl e)
      with True w r rp show ?thesis by (auto simp: request_rounds.simps io_bind_def io_time_def)
    next
      case (Inr pd)
      obtain piece data where pd: "pd = (piece, data)" by fastforce
      have got: "length (incoming s2) < fuel" "piece \<in> set o1" "int (length data) = expected_piece_length n piece"
        using rp r Inr pd enough by auto
      note q = progress_receive[OF p1 got(2,3)]
      have "piece_count n \<le> int (length (AList.update piece data pieces) + rounds)" using Suc.prems(3) q(2) by simp
      note IH = Suc.IH[OF q(1) got(1) this]
      have eq: "request_rounds S fuel (Suc rounds) their_id n timeouts sd pieces outstanding next_piece s
          = request_rounds S fuel rounds their_id n timeouts sd (AList.update piece data pieces) (removeAll piece o1) n1 s2"
        using True w r Inr pd by (simp add: request_rounds.simps[of S fuel "Suc rounds"] io_bind_def io_time_def)
      show ?thesis unfolding eq by (rule IH)
    qed
  qed
qed

end

lemma encode_extended_handshake_ok: "\<exists>x. encode_extended_handshake = Inr x"
  by (simp add: encode_extended_handshake_def encode_extended_message_def encode_frame_def encode_int_def
      encode_bytes_def str_int_def dec_text.simps wire_consts ascii_def)

lemma opening_messages_ok:
  assumes "length peer_id = NODE_ID_LENGTH" "length info_hash = NODE_ID_LENGTH"
  shows "\<exists>x. opening_messages peer_id info_hash = Inr x"
proof -
  obtain x where x: "encode_extended_handshake = Inr x" using encode_extended_handshake_ok by blast
  show ?thesis unfolding opening_messages_def encode_handshake_def Let_def x using assms by simp
qed

lemma piece_count_small: "0 < n \<Longrightarrow> n \<le> MAX_METADATA_SIZE \<Longrightarrow> piece_count n < 2 ^ 31"
  by (simp add: piece_count_def wire_consts)

lemma progress_start: "0 < n \<Longrightarrow> progress n [] [] 0"
  using piece_count_bounds(1)[of n] by (simp add: progress_def)

context byte_stream
begin

lemma read_handshake_total:
  "read_handshake S info_hash deadline s = (Inl e, s') \<Longrightarrow> clean e"
  "read_handshake S info_hash deadline s = (Inr u, s') \<Longrightarrow> length (incoming s') \<le> length (incoming s)"
proof -
  obtain r s1 where r: "so_read S s HANDSHAKE_LENGTH deadline R_closed_on_handshake = (r, s1)" by fastforce
  have "(\<forall>e s'. read_handshake S info_hash deadline s = (Inl e, s') \<longrightarrow> clean e)
    \<and> (\<forall>u s'. read_handshake S info_hash deadline s = (Inr u, s') \<longrightarrow> length (incoming s') \<le> length (incoming s))"
  proof (cases r)
    case (Inl e)
    then show ?thesis by (simp add: read_handshake_def io_bind_def io_read_def r)
  next
    case (Inr data)
    then have "length (incoming s1) \<le> length (incoming s)" using read_ok[of HANDSHAKE_LENGTH] r by (simp add: HANDSHAKE_LENGTH_def)
    with Inr r show ?thesis
      by (cases "decode_handshake data") (auto simp: read_handshake_def io_bind_def io_read_def split_beta)
  qed
  then show "read_handshake S info_hash deadline s = (Inl e, s') \<Longrightarrow> clean e"
    "read_handshake S info_hash deadline s = (Inr u, s') \<Longrightarrow> length (incoming s') \<le> length (incoming s)" by blast+
qed

lemma receive_extended_handshake_total:
  assumes "length (incoming s) < fuel"
  shows "receive_extended_handshake S fuel deadline s = (Inl e, s') \<Longrightarrow> clean e"
    "receive_extended_handshake S fuel deadline s = (Inr (i, n), s') \<Longrightarrow>
       length (incoming s') < length (incoming s) \<and> 1 \<le> i \<and> i \<le> 255 \<and> 0 < n \<and> n \<le> MAX_METADATA_SIZE"
proof -
  note ext = receive_extended_total[OF assms, of EXTENDED_HANDSHAKE_ID deadline]
  obtain r s1 where r: "receive_extended S fuel EXTENDED_HANDSHAKE_ID deadline s = (r, s1)" by fastforce
  have "(\<forall>e s'. receive_extended_handshake S fuel deadline s = (Inl e, s') \<longrightarrow> clean e)
    \<and> (\<forall>i n s'. receive_extended_handshake S fuel deadline s = (Inr (i, n), s') \<longrightarrow>
       length (incoming s') < length (incoming s) \<and> 1 \<le> i \<and> i \<le> 255 \<and> 0 < n \<and> n \<le> MAX_METADATA_SIZE)"
  proof (cases r)
    case (Inl e)
    with r ext show ?thesis by (simp add: receive_extended_handshake_def io_bind_def)
  next
    case (Inr x)
    obtain payload trailing where x: "x = (payload, trailing)" by fastforce
    have less: "length (incoming s1) < length (incoming s)" using ext r Inr by blast
    show ?thesis
    proof (cases "read_extended_handshake payload")
      case (Inl e)
      then show ?thesis using r Inr \<open>r = Inr x\<close> x
        by (simp add: receive_extended_handshake_def io_bind_def) (cases e; simp)
    next
      case (Inr y)
      then show ?thesis using r \<open>r = Inr x\<close> x less read_extended_handshake_bounds[of payload]
        by (auto simp: receive_extended_handshake_def io_bind_def)
    qed
  qed
  then show "receive_extended_handshake S fuel deadline s = (Inl e, s') \<Longrightarrow> clean e"
    "receive_extended_handshake S fuel deadline s = (Inr (i, n), s') \<Longrightarrow>
       length (incoming s') < length (incoming s) \<and> 1 \<le> i \<and> i \<le> 255 \<and> 0 < n \<and> n \<le> MAX_METADATA_SIZE" by blast+
qed

lemma request_pieces_total:
  assumes "length (incoming s) < fuel" "1 \<le> i" "i \<le> 255" "0 < n" "n \<le> MAX_METADATA_SIZE"
  shows "request_pieces S fuel i n timeouts sd s = (Inl e, s') \<Longrightarrow> clean e"
    "request_pieces S fuel i n timeouts sd s = (Inr m, s') \<Longrightarrow> int (length m) = n"
proof -
  let ?loop = "request_rounds S fuel (nat (piece_count n)) i n timeouts sd [] [] 0 s"
  have rr: "(\<forall>e s'. ?loop = (Inl e, s') \<longrightarrow> clean e)
      \<and> (\<forall>x s'. ?loop = (Inr x, s') \<longrightarrow> piece_count n \<le> int (length x) \<and> (\<exists>o' n'. progress n x o' n'))"
    by (rule request_rounds_total[OF assms(2,3) piece_count_small[OF assms(4,5)] progress_start[OF assms(4)] assms(1)])
      (use piece_count_bounds(1)[OF assms(4)] in simp)
  have joined: "\<exists>result. join_pieces x (piece_count n) s1 = (Inr result, s1) \<and> int (length result) = n"
    if "?loop = (Inr x, s1)" for x s1
  proof -
    have "piece_count n \<le> int (length x) \<and> (\<exists>o' n'. progress n x o' n')" using conjunct2[OF rr] that by (elim allE impE) assumption+
    then obtain o' n' where "progress n x o' n'" "piece_count n \<le> int (length x)" by blast
    from progress_join[OF this assms(4), of s1] show ?thesis by (elim exE conjE) (intro exI conjI)
  qed
  show "clean e" if "request_pieces S fuel i n timeouts sd s = (Inl e, s')"
  proof -
    obtain r s1 where r: "?loop = (r, s1)" by fastforce
    show ?thesis
    proof (cases r)
      case (Inl e')
      with r rr that show ?thesis by (simp add: request_pieces_def io_bind_def)
    next
      case (Inr x)
      then obtain result where "join_pieces x (piece_count n) s1 = (Inr result, s1)" "int (length result) = n"
        using joined r by blast
      with r Inr that show ?thesis by (simp add: request_pieces_def io_bind_def)
    qed
  qed
  show "int (length m) = n" if "request_pieces S fuel i n timeouts sd s = (Inr m, s')"
    using that by (auto simp: request_pieces_def io_bind_eq split: if_splits)
qed

text \<open>A session ends, with metadata of a legal size or with a fetch reason.\<close>

lemma run_session_total:
  assumes fuel: "length (incoming s) < fuel" and ids: "length peer_id = NODE_ID_LENGTH" "length info_hash = NODE_ID_LENGTH"
  shows "run_session S fuel peer_id info_hash timeouts sd send s = (Inl e, s') \<Longrightarrow> clean e"
    "run_session S fuel peer_id info_hash timeouts sd send s = (Inr m, s') \<Longrightarrow> 0 < length m \<and> int (length m) \<le> MAX_METADATA_SIZE"
proof -
  obtain x where x: "opening_messages peer_id info_hash = Inr x" using opening_messages_ok[OF ids] by blast
  define s0 where "s0 = (if send then so_write S s x else s)"
  define hd where "hd = min sd (so_time S s0 + ft_handshake timeouts)"
  have in0: "length (incoming s0) < fuel" using fuel by (simp add: s0_def write_incoming)
  have eq: "run_session S fuel peer_id info_hash timeouts sd send s
      = io_bind (read_handshake S info_hash hd) (\<lambda>_. io_bind (receive_extended_handshake S fuel hd)
          (\<lambda>(i, n). request_pieces S fuel i n timeouts sd)) s0"
    unfolding run_session_def by (simp add: x io_bind_def[of _ _ s] io_bind_def[of "io_time S"] io_bind_def[of "io_lift _"] io_lift_def io_return_def io_write_def io_time_def s0_def hd_def Let_def)
  have hs: "length (incoming s1) < fuel" if "read_handshake S info_hash hd s0 = (Inr u, s1)" for u s1
    using read_handshake_total(2)[OF that] in0 by simp
  show "clean e" if r: "run_session S fuel peer_id info_hash timeouts sd send s = (Inl e, s')"
  proof -
    from r consider "read_handshake S info_hash hd s0 = (Inl e, s')"
      | u s1 where "read_handshake S info_hash hd s0 = (Inr u, s1)" "receive_extended_handshake S fuel hd s1 = (Inl e, s')"
      | u s1 i n s2 where "read_handshake S info_hash hd s0 = (Inr u, s1)"
          "receive_extended_handshake S fuel hd s1 = (Inr (i, n), s2)" "request_pieces S fuel i n timeouts sd s2 = (Inl e, s')"
      unfolding eq io_bind_eq by (auto simp: split_beta)
    then show ?thesis
    proof cases
      case 1
      then show ?thesis by (rule read_handshake_total(1))
    next
      case 2
      then show ?thesis using receive_extended_handshake_total(1) hs by blast
    next
      case 3
      note ext = receive_extended_handshake_total(2)[OF hs[OF 3(1)] 3(2)]
      have "length (incoming s2) < fuel" using ext hs[OF 3(1)] by simp
      with ext 3(3) show ?thesis using request_pieces_total(1) by blast
    qed
  qed
  show "0 < length m \<and> int (length m) \<le> MAX_METADATA_SIZE"
    if r: "run_session S fuel peer_id info_hash timeouts sd send s = (Inr m, s')"
  proof -
    obtain u s1 i n s2 where 3: "read_handshake S info_hash hd s0 = (Inr u, s1)"
      "receive_extended_handshake S fuel hd s1 = (Inr (i, n), s2)" "request_pieces S fuel i n timeouts sd s2 = (Inr m, s')"
      using r unfolding eq io_bind_eq by (auto simp: split_beta)
    note ext = receive_extended_handshake_total(2)[OF hs[OF 3(1)] 3(2)]
    have "length (incoming s2) < fuel" using ext hs[OF 3(1)] by simp
    with ext request_pieces_total(2)[OF this _ _ _ _ 3(3)] show ?thesis by auto
  qed
qed

end

section \<open>TCP streams keep the interface\<close>

fun chunk_bytes :: "(real \<times> tcp_event) list \<Rightarrow> bytes" where
  "chunk_bytes ((t, Chunk data) # events) = data @ chunk_bytes events"
| "chunk_bytes events = []"

definition tcp_incoming :: "tcp_stream \<Rightarrow> bytes" where
  "tcp_incoming s = ts_buffer s @ chunk_bytes (ts_events s)"

lemma await_bytes_ready:
  "await_bytes n d clock buffer events = (WaitReady, clock', buffer', events') \<Longrightarrow>
     n \<le> length buffer' \<and> buffer' @ chunk_bytes events' = buffer @ chunk_bytes events"
  by (induction n d clock buffer events rule: await_bytes.induct) (auto split: if_splits tcp_event.splits)

lemma tcp_read_ok:
  assumes "tcp_read_exactly s n d r = (Inr data, s')"
  shows "length data = n \<and> tcp_incoming s = data @ tcp_incoming s'"
proof -
  obtain clock buffer events where w: "await_bytes n d (ts_clock s) (ts_buffer s) (ts_events s) = (WaitReady, clock, buffer, events)"
    and eq: "data = take n buffer" "ts_buffer s' = drop n buffer" "ts_events s' = events"
    using assms by (auto simp: tcp_read_exactly_def split: if_splits prod.splits wait_outcome.splits)
  from await_bytes_ready[OF w] show ?thesis by (simp add: tcp_incoming_def eq) (metis append.assoc append_take_drop_id)
qed

interpretation tcp: byte_stream tcp_ops tcp_incoming
  by unfold_locales (auto simp: tcp_ops_def tcp_read_ok tcp_write_def tcp_incoming_def dest: tcp_read_ok)

section \<open>Properties\<close>



end
