(* ===== verification/Honest_Peer.thy ===== *)
theory Honest_Peer
  imports Metadata_Session
begin

text \<open>
  Completeness of a session of \<open>metadata_fetcher.py\<close>: over a stream with the laws of the locale
  \<open>prompt_stream\<close>, a session with an honest peer returns the metadata. The TCP stream has
  these laws for the bytes that have arrived.
\<close>

section \<open>An honest peer\<close>

text \<open>
  An honest peer, made of the module's own encoders: its handshake, an extension handshake
  that announces the size, and the pieces in order.
\<close>

definition honest_piece :: "bytes \<Rightarrow> nat \<Rightarrow> wire_error + bytes" where
  "honest_piece M i = encode_extended_message UT_METADATA_LOCAL_ID
     [(KBytes (ascii ''msg_type''), PyInt MSG_TYPE_DATA), (KBytes (ascii ''piece''), PyInt (int i)),
      (KBytes (ascii ''total_size''), PyInt (int (length M)))] (take 16384 (drop (i * 16384) M))"

definition honest_extended_handshake :: "bytes \<Rightarrow> wire_error + bytes" where
  "honest_extended_handshake M = encode_extended_message EXTENDED_HANDSHAKE_ID
     [(KBytes (ascii ''m''), PyDict [(KBytes (ascii ''ut_metadata''), PyInt 3)]),
      (KBytes (ascii ''metadata_size''), PyInt (int (length M)))] []"

fun join_parts :: "('e + bytes) list \<Rightarrow> 'e + bytes" where
  "join_parts [] = Inr []"
| "join_parts (Inl e # parts) = Inl e"
| "join_parts (Inr x # parts) = (case join_parts parts of Inl e \<Rightarrow> Inl e | Inr y \<Rightarrow> Inr (x @ y))"

definition honest_peer :: "bytes \<Rightarrow> bytes \<Rightarrow> bytes \<Rightarrow> wire_error + bytes" where
  "honest_peer remote_id info_hash M =
     join_parts (encode_handshake info_hash remote_id # honest_extended_handshake M
       # map (honest_piece M) [0..<nat (piece_count (int (length M)))])"

lemma length_dec_text_digits: "n < 10 ^ Suc k \<Longrightarrow> length (dec_text n) \<le> Suc k"
proof (induction k arbitrary: n)
  case 0
  then show ?case by (subst dec_text.simps) simp
next
  case (Suc k)
  then have "n div 10 < 10 ^ Suc k" by (simp add: less_mult_imp_div_less mult.commute)
  from Suc.IH[OF this] show ?case by (subst dec_text.simps) simp
qed

lemma key_order: "ascii ''msg_type'' \<le> ascii ''piece''" "ascii ''piece'' \<le> ascii ''total_size''" "ascii ''m'' \<le> ascii ''metadata_size''"
  by (simp_all add: ascii_def)

text \<open>A frame as the reader sees it: the length, the message id, the body.\<close>

definition frame_of :: "bytes \<Rightarrow> bytes" where
  "frame_of body = be_bytes 4 (Suc (length body)) @ of_int MESSAGE_EXTENDED # body"

lemma extended_frame:
  assumes p: "plain (PyDict payload)" and e: "encode_extended_message i payload trailing = Inr frame" and i: "0 \<le> i" "i \<le> 255"
  obtains body d where "frame = frame_of body" "decode_extended_message body = Inr (i, d, trailing)"
    "\<And>k. py_get d k = canonical (py_get payload k)"
proof -
  obtain x m where x: "encode_bencode (PyDict payload) = Inr x" and m: "canonical (PyDict payload) = PyDict m"
    "\<And>k. py_get m k = canonical (py_get payload k)" by (rule wire_fields[OF p]) blast
  have "frame = frame_of ([of_int i] @ x @ trailing)"
    using e i x by (simp add: encode_extended_message_def encode_frame_def frame_of_def split: if_splits del: encode_bencode.simps)
  with extended_message_decoded[OF x i m(1), of trailing] m(2) that show thesis by blast
qed

lemma short_message:
  assumes "\<exists>x. encode_bencode (PyDict payload) = Inr x \<and> length x \<le> 200" "length trailing \<le> 16384" "0 \<le> i" "i \<le> 255"
  shows "\<exists>frame. encode_extended_message i payload trailing = Inr frame \<and> length frame < 20000"
proof -
  obtain x where "encode_bencode (PyDict payload) = Inr x" "length x \<le> 200" using assms(1) by blast
  with assms(2-4) show ?thesis
    by (simp add: encode_extended_message_def encode_frame_def wire_consts del: encode_bencode.simps)
qed

lemma honest_piece_ok:
  assumes "i < nat (piece_count (int (length M)))" "length M \<le> 4194304"
  obtains frame body d where "honest_piece M i = Inr frame" "frame = frame_of body" "length body < 20000"
    "decode_extended_message body = Inr (UT_METADATA_LOCAL_ID, d, take 16384 (drop (i * 16384) M))"
    "decode_metadata_message d = Inr (MSG_TYPE_DATA, int i, Some (int (length M)))"
proof -
  define payload where "payload = [(KBytes (ascii ''msg_type''), PyInt MSG_TYPE_DATA), (KBytes (ascii ''piece''), PyInt (int i)),
      (KBytes (ascii ''total_size''), PyInt (int (length M)))]"
  have plain: "plain (PyDict payload)" by (simp add: payload_def)
  have "i < 1000" using assms by (simp add: piece_count_def wire_consts)
  then have "length (dec_text i) \<le> 4" "length (dec_text (length M)) \<le> 8"
    using length_dec_text_digits[of i 3] length_dec_text_digits[of "length M" 7] assms(2) by simp_all
  then have "\<exists>x. encode_bencode (PyDict payload) = Inr x \<and> length x \<le> 200"
    using length_dec_text_digits[of "length ''msg_type''" 0] length_dec_text_digits[of "length ''piece''" 0]
      length_dec_text_digits[of "length ''total_size''" 1] length_dec_text_digits[of 1 0]
    by (simp add: payload_def encode_int_def encode_bytes_def wire_consts str_int_def key_order)
  from short_message[OF this, of "take 16384 (drop (i * 16384) M)" UT_METADATA_LOCAL_ID]
  obtain frame where f: "honest_piece M i = Inr frame" "length frame < 20000"
    by (auto simp: honest_piece_def payload_def wire_consts)
  then have e: "encode_extended_message UT_METADATA_LOCAL_ID payload (take 16384 (drop (i * 16384) M)) = Inr frame"
    by (simp add: honest_piece_def payload_def)
  obtain body d where b: "frame = frame_of body" "decode_extended_message body = Inr (UT_METADATA_LOCAL_ID, d, take 16384 (drop (i * 16384) M))"
    "\<And>k. py_get d k = canonical (py_get payload k)"
    by (rule extended_frame[OF plain e]) (auto simp: wire_consts)
  moreover have "decode_metadata_message d = Inr (MSG_TYPE_DATA, int i, Some (int (length M)))"
    by (simp add: decode_metadata_message_def b(3) payload_def wire_consts)
  moreover have "length body < 20000" using f(2) b(1) by (simp add: frame_of_def)
  ultimately show thesis using that f(1) by blast
qed

lemma honest_extended_handshake_ok:
  assumes "0 < length M" "length M \<le> 4194304"
  obtains frame body d where "honest_extended_handshake M = Inr frame" "frame = frame_of body" "length body < 20000"
    "decode_extended_message body = Inr (EXTENDED_HANDSHAKE_ID, d, [])" "read_extended_handshake d = Inr (3, int (length M))"
proof -
  define payload where "payload = [(KBytes (ascii ''m''), PyDict [(KBytes (ascii ''ut_metadata''), PyInt 3)]),
      (KBytes (ascii ''metadata_size''), PyInt (int (length M)))]"
  have plain: "plain (PyDict payload)" by (simp add: payload_def)
  have "length (dec_text (length M)) \<le> 8" using length_dec_text_digits[of "length M" 7] assms(2) by simp
  then have "\<exists>x. encode_bencode (PyDict payload) = Inr x \<and> length x \<le> 200"
    using length_dec_text_digits[of "length ''m''" 0] length_dec_text_digits[of "length ''ut_metadata''" 1]
      length_dec_text_digits[of "length ''metadata_size''" 1] length_dec_text_digits[of 3 0]
    by (simp add: payload_def encode_int_def encode_bytes_def wire_consts str_int_def key_order)
  from short_message[OF this, of "[]" EXTENDED_HANDSHAKE_ID]
  obtain frame where f: "honest_extended_handshake M = Inr frame" "length frame < 20000"
    by (auto simp: honest_extended_handshake_def payload_def wire_consts)
  then have e: "encode_extended_message EXTENDED_HANDSHAKE_ID payload [] = Inr frame"
    by (simp add: honest_extended_handshake_def payload_def)
  obtain body d where b: "frame = frame_of body" "decode_extended_message body = Inr (EXTENDED_HANDSHAKE_ID, d, [])"
    "\<And>k. py_get d k = canonical (py_get payload k)"
    by (rule extended_frame[OF plain e]) (auto simp: wire_consts)
  moreover have "read_extended_handshake d = Inr (3, int (length M))"
    using assms by (simp add: read_extended_handshake_def b(3) payload_def wire_consts Let_def)
  moreover have "length body < 20000" using f(2) b(1) by (simp add: frame_of_def)
  ultimately show thesis using that f(1) by blast
qed

lemma concat_slices: "concat (map (\<lambda>i. take w (drop (i * w) xs)) [0..<k]) = take (k * w) xs"
  by (induction k) (simp_all add: take_add add.commute[of w])

lemma concat_pieces:
  fixes M :: bytes
  assumes "0 < length M"
  shows "concat (map (\<lambda>i. take 16384 (drop (i * 16384) M)) [0..<nat (piece_count (int (length M)))]) = M"
proof -
  have "length M \<le> nat (piece_count (int (length M))) * 16384"
    using piece_count_bounds(1,3)[of "int (length M)"] assms by (simp add: METADATA_PIECE_SIZE_def)
  then show ?thesis by (simp add: concat_slices)
qed

lemma map_of_indexed: "i < k \<Longrightarrow> map_of (map (\<lambda>i. (int i, f i)) [0..<k]) (int i) = Some (f i)"
  by (rule map_of_is_SomeI) (auto simp: comp_def distinct_map inj_on_def)

section \<open>Streams that deliver at once\<close>

text \<open>A stream whose bytes are already there: a read before its deadline succeeds, and takes no time.\<close>

locale prompt_stream = byte_stream +
  fixes ready :: "'a \<Rightarrow> bool"
  assumes prompt: "ready s \<Longrightarrow> 0 < n \<Longrightarrow> n \<le> length (incoming s) \<Longrightarrow> so_time S s < d \<Longrightarrow>
      \<exists>s'. so_read S s n d r = (Inr (take n (incoming s)), s') \<and> ready s' \<and> incoming s' = drop n (incoming s)
        \<and> so_time S s' = so_time S s"
    and write_prompt: "ready s \<Longrightarrow> ready (so_write S s data) \<and> so_time S (so_write S s data) = so_time S s"
begin

definition at_bytes :: "'a \<Rightarrow> bytes \<Rightarrow> real \<Rightarrow> bool" where
  "at_bytes s b t \<longleftrightarrow> ready s \<and> incoming s = b \<and> so_time S s = t"

lemma read_at:
  assumes "at_bytes s (x @ rest) t" "x \<noteq> []" "t < d" "n = length x"
  shows "\<exists>s'. io_read S n d r s = (Inr x, s') \<and> at_bytes s' rest t"
  using prompt[of s n d r] assms by (auto simp: at_bytes_def io_read_def)

lemma write_at: "at_bytes s b t \<Longrightarrow> at_bytes (so_write S s data) b t"
  using write_prompt[of s data] by (simp add: at_bytes_def write_incoming)

lemma read_frame_at:
  assumes a: "at_bytes s (frame_of body @ rest) t" and d: "t < d" and small: "length body < 20000"
  shows "\<exists>s'. read_frame S d s = (Inr (MESSAGE_EXTENDED, body), s') \<and> at_bytes s' rest t"
proof -
  let ?h = "be_bytes 4 (Suc (length body))" and ?b = "of_int MESSAGE_EXTENDED # body :: bytes"
  have "at_bytes s (?h @ ?b @ rest) t" using a by (simp add: frame_of_def)
  moreover have "?h \<noteq> []" by (metis length_be_bytes list.size(3) zero_neq_numeral)
  ultimately obtain s1 where h: "io_read S FRAME_HEADER_LENGTH d R_closed s = (Inr ?h, s1)" "at_bytes s1 (?b @ rest) t"
    using read_at[of s ?h "?b @ rest" t d FRAME_HEADER_LENGTH R_closed] d by (auto simp: FRAME_HEADER_LENGTH_def)
  obtain s2 where b: "io_read S (Suc (length body)) d R_closed s1 = (Inr ?b, s2)" "at_bytes s2 rest t"
    using read_at[OF h(2) _ d, of "Suc (length body)" R_closed] by auto
  have "be_value ?h = Suc (length body)" using small by (simp add: be_value_be_bytes)
  then show ?thesis using h b small
    by (simp add: read_frame_def io_bind_def decode_frame_length_def Let_def MAX_FRAME_LENGTH_def io_return_def MESSAGE_EXTENDED_def io_read_def)
qed

lemma receive_extended_at:
  assumes "at_bytes s (frame_of body @ rest) t" "t < d" "length body < 20000" "decode_extended_message body = Inr (i, p, trailing)"
  shows "\<exists>s'. receive_extended S (Suc fuel) i d s = (Inr (p, trailing), s') \<and> at_bytes s' rest t"
  using read_frame_at[OF assms(1-3)] assms(4) by (auto simp: io_bind_def io_return_def)

lemma receive_piece_at:
  assumes "at_bytes s (frame_of body @ rest) t" "t < d" "length body < 20000"
    "decode_extended_message body = Inr (UT_METADATA_LOCAL_ID, p, data)"
    "decode_metadata_message p = Inr (MSG_TYPE_DATA, piece, Some n)" "piece \<in> set outstanding"
    "int (length data) = expected_piece_length n piece"
  shows "\<exists>s'. receive_piece S (Suc fuel) outstanding n d s = (Inr (piece, data), s') \<and> at_bytes s' rest t"
  using receive_extended_at[OF assms(1-4), of fuel] assms(5-7)
  by (auto simp: io_bind_def io_return_def MSG_TYPE_DATA_def MSG_TYPE_REJECT_def simp del: receive_extended.simps)

lemma writes_at: "at_bytes s b t \<Longrightarrow> at_bytes (foldl (so_write S) s ws) b t"
  by (induction ws arbitrary: s) (auto intro: write_at)

text \<open>The pieces \<open>k\<close>, \<open>k + 1\<close>, \dots of the metadata arrive in order.\<close>

lemma request_rounds_at:
  fixes M :: bytes
  defines "n \<equiv> int (length M)" and "chunk \<equiv> \<lambda>i. take 16384 (drop (i * 16384) M)"
  assumes ids: "1 \<le> their_id" "their_id \<le> 255" and size: "0 < length M" "length M \<le> 4194304"
    and times: "t < sd" "0 < ft_piece timeouts"
  shows "k \<le> nat (piece_count n) \<Longrightarrow> rounds = nat (piece_count n) - k \<Longrightarrow>
    progress n (map (\<lambda>i. (int i, chunk i)) [0..<k]) outstanding next_piece \<Longrightarrow>
    join_parts (map (honest_piece M) [k..<nat (piece_count n)]) = Inr b \<Longrightarrow> at_bytes s b t \<Longrightarrow>
    \<exists>s'. request_rounds S (Suc fuel) rounds their_id n timeouts sd (map (\<lambda>i. (int i, chunk i)) [0..<k]) outstanding next_piece s
      = (Inr (map (\<lambda>i. (int i, chunk i)) [0..<nat (piece_count n)]), s')"
proof (induction rounds arbitrary: k outstanding next_piece b s)
  case 0
  then have "k = nat (piece_count n)" by simp
  then show ?case by (simp add: request_rounds.simps io_return_def)
next
  case (Suc rounds)
  let ?pieces = "map (\<lambda>i. (int i, chunk i)) [0..<k]"
  have k: "k < nat (piece_count n)" and r: "rounds = nat (piece_count n) - Suc k" using Suc.prems(2) by auto
  have n: "0 < n" "n \<le> MAX_METADATA_SIZE" using size by (simp_all add: n_def MAX_METADATA_SIZE_def)
  obtain o1 n1 s1 ws where w: "fill_window S their_id (piece_count n) outstanding next_piece s = (Inr (o1, n1), s1)"
    and p1: "progress n ?pieces o1 n1" and full: "piece_count n \<le> n1 \<or> PIECE_WINDOW \<le> length o1" and s1: "s1 = foldl (so_write S) s ws"
    using fill_window_ok[OF ids piece_count_small[OF n] Suc.prems(3)] by blast
  have img: "int ` {0..<k} = {0..<int k}" using image_int_atLeastLessThan[of 0 k] by simp
  have keys: "set o1 \<union> {0..<int k} = {0..<n1}" "set o1 \<inter> {0..<int k} = {}"
    using p1 by (simp_all add: progress_def image_image img)
  have "int k < n1"
  proof (rule ccontr)
    assume "\<not> int k < n1"
    then have "{0..<n1} \<subseteq> {0..<int k}" by auto
    then have "set o1 \<subseteq> {0..<int k}" using keys(1) by blast
    then have "set o1 \<inter> {0..<int k} = set o1" by (rule Int_absorb2)
    then have "set o1 = {}" using keys(2) by simp
    then have "o1 = []" by simp
    with full \<open>\<not> int k < n1\<close> k show False by (simp add: PIECE_WINDOW_def)
  qed
  then have out: "int k \<in> set o1" using keys(1) by auto
  obtain frame body d where f: "honest_piece M k = Inr frame" "frame = frame_of body" "length body < 20000"
    "decode_extended_message body = Inr (UT_METADATA_LOCAL_ID, d, chunk k)"
    "decode_metadata_message d = Inr (MSG_TYPE_DATA, int k, Some n)"
    unfolding chunk_def n_def by (rule honest_piece_ok[OF k[unfolded n_def] size(2)])
  have "[k..<nat (piece_count n)] = k # [Suc k..<nat (piece_count n)]" using k by (simp add: upt_conv_Cons)
  then obtain b2 where b2: "join_parts (map (honest_piece M) [Suc k..<nat (piece_count n)]) = Inr b2" "b = frame_of body @ b2"
    using Suc.prems(4) f(1,2) by (auto split: sum.splits)
  have "at_bytes s1 (frame_of body @ b2) t" using writes_at[OF Suc.prems(5)] s1 b2(2) by simp
  moreover have "t < min sd (so_time S s1 + ft_piece timeouts)"
    using calculation times by (simp add: at_bytes_def)
  moreover have len: "int (length (chunk k)) = expected_piece_length n (int k)"
    using k piece_count_bounds(2)[OF n(1)] by (simp add: chunk_def n_def expected_piece_length_def METADATA_PIECE_SIZE_def)
  ultimately obtain s2 where s2: "receive_piece S (Suc fuel) o1 n (min sd (so_time S s1 + ft_piece timeouts)) s1 = (Inr (int k, chunk k), s2)"
    "at_bytes s2 b2 t" using receive_piece_at[OF _ _ f(3,4,5) out] by blast
  note q = progress_receive[OF p1 out len]
  have upd: "AList.update (int k) (chunk k) ?pieces = map (\<lambda>i. (int i, chunk i)) [0..<Suc k]"
    by (subst update_new) auto
  have "\<exists>s'. request_rounds S (Suc fuel) rounds their_id n timeouts sd (map (\<lambda>i. (int i, chunk i)) [0..<Suc k]) (removeAll (int k) o1) n1 s2
      = (Inr (map (\<lambda>i. (int i, chunk i)) [0..<nat (piece_count n)]), s')"
    by (rule Suc.IH[OF _ r _ b2(1) s2(2)]) (use k q(1) upd in simp_all)
  moreover have "int (length ?pieces) < piece_count n" using k by simp
  then have "request_rounds S (Suc fuel) (Suc rounds) their_id n timeouts sd ?pieces outstanding next_piece s
      = request_rounds S (Suc fuel) rounds their_id n timeouts sd (map (\<lambda>i. (int i, chunk i)) [0..<Suc k]) (removeAll (int k) o1) n1 s2"
    using w s2(1) upd by (simp add: request_rounds.simps[of S "Suc fuel" "Suc rounds"] io_bind_def io_time_def del: receive_piece.simps)
  ultimately show ?case by simp
qed

lemma run_session_at:
  fixes M :: bytes
  assumes peer: "honest_peer remote_id info_hash M = Inr b" and a: "at_bytes s b t"
    and ids: "length peer_id = NODE_ID_LENGTH" "length info_hash = NODE_ID_LENGTH"
    and size: "0 < length M" "length M \<le> 4194304"
    and times: "t < sd" "0 < ft_piece timeouts" "0 < ft_handshake timeouts"
  shows "\<exists>s'. run_session S (Suc fuel) peer_id info_hash timeouts sd True s = (Inr M, s')"
proof -
  obtain x where x: "opening_messages peer_id info_hash = Inr x" using opening_messages_ok[OF ids] by blast
  let ?s0 = "so_write S s x" and ?hd = "min sd (t + ft_handshake timeouts)" and ?n = "int (length M)"
  have a0: "at_bytes ?s0 b t" by (rule write_at[OF a])
  obtain frame body d where e: "honest_extended_handshake M = Inr frame" "frame = frame_of body" "length body < 20000"
    "decode_extended_message body = Inr (EXTENDED_HANDSHAKE_ID, d, [])" "read_extended_handshake d = Inr (3, ?n)"
    by (rule honest_extended_handshake_ok[OF size])
  obtain h b2 where h: "encode_handshake info_hash remote_id = Inr h"
    and b2: "join_parts (map (honest_piece M) [0..<nat (piece_count ?n)]) = Inr b2" and b: "b = h @ frame_of body @ b2"
    using peer e(1,2) by (cases "encode_handshake info_hash remote_id") (auto simp: honest_peer_def split: sum.splits)
  note hs = handshake_decoded[OF h]
  have "h \<noteq> []" using hs by (auto simp: HANDSHAKE_LENGTH_def)
  then obtain s1 where r1: "io_read S HANDSHAKE_LENGTH ?hd R_closed_on_handshake ?s0 = (Inr h, s1)" "at_bytes s1 (frame_of body @ b2) t"
    using read_at[of ?s0 h "frame_of body @ b2" t ?hd HANDSHAKE_LENGTH] a0 b hs times by auto
  then have h1: "read_handshake S info_hash ?hd ?s0 = (Inr (), s1)"
    using hs by (simp add: read_handshake_def io_bind_def io_return_def io_read_def)
  obtain s2 where r2: "receive_extended S (Suc fuel) EXTENDED_HANDSHAKE_ID ?hd s1 = (Inr (d, []), s2)" "at_bytes s2 b2 t"
    using receive_extended_at[OF r1(2) _ e(3,4), of ?hd fuel] times by auto
  then have h2: "receive_extended_handshake S (Suc fuel) ?hd s1 = (Inr (3, ?n), s2)"
    using e(5) by (simp add: receive_extended_handshake_def io_bind_def io_return_def del: receive_extended.simps)
  let ?pieces = "map (\<lambda>i. (int i, take 16384 (drop (i * 16384) M))) [0..<nat (piece_count ?n)]"
  obtain s3 where "request_rounds S (Suc fuel) (nat (piece_count ?n)) 3 ?n timeouts sd [] [] 0 s2 = (Inr ?pieces, s3)"
    using request_rounds_at[of 3 M t sd timeouts 0 "nat (piece_count ?n)" "[]" 0 b2 s2 fuel] size times r2(2) b2 progress_start[of ?n] by auto
  moreover have "join_pieces ?pieces (piece_count ?n) s3 = (Inr M, s3)"
  proof -
    have "map (\<lambda>i. the (map_of ?pieces (int i))) [0..<nat (piece_count ?n)]
        = map (\<lambda>i. take 16384 (drop (i * 16384) M)) [0..<nat (piece_count ?n)]"
      by (rule map_cong[OF refl]) (simp only: set_upt atLeastLessThan_iff map_of_indexed option.sel)
    then have "concat (map (\<lambda>i. the (map_of ?pieces (int i))) [0..<nat (piece_count ?n)]) = M"
      by (simp only: concat_pieces[OF size(1)])
    then show ?thesis by (auto simp: join_pieces_def io_return_def image_image)
  qed
  ultimately have h3: "request_pieces S (Suc fuel) 3 ?n timeouts sd s2 = (Inr M, s3)"
    by (simp add: request_pieces_def io_bind_def io_return_def)
  show ?thesis
    using h1 h2 h3 x a0 by (simp add: run_session_def io_bind_def io_lift_def io_return_def io_write_def io_time_def at_bytes_def Let_def)
qed

end

section \<open>The TCP stream delivers at once what has arrived\<close>

definition tcp_ready :: "tcp_stream \<Rightarrow> bool" where
  "tcp_ready s \<longleftrightarrow> (\<forall>p \<in> set (ts_events s). fst p \<le> ts_clock s \<and> (\<exists>data. snd p = Chunk data))"

lemma await_bytes_prompt:
  "\<forall>p \<in> set events. fst p \<le> clock \<and> (\<exists>data. snd p = Chunk data) \<Longrightarrow> n \<le> length (buffer @ chunk_bytes events) \<Longrightarrow> clock < d \<Longrightarrow>
     \<exists>buffer' events'. await_bytes n d clock buffer events = (WaitReady, clock, buffer', events') \<and> set events' \<subseteq> set events"
proof (induction events arbitrary: buffer)
  case (Cons p events)
  obtain t data where p: "p = (t, Chunk data)" "t \<le> clock" using Cons.prems(1) by (cases p) auto
  then have m: "max clock t = clock" "\<not> t > d" using Cons.prems(3) by auto
  show ?case
  proof (cases "n \<le> length buffer")
    case False
    have "\<exists>buffer' events'. await_bytes n d clock (buffer @ data) events = (WaitReady, clock, buffer', events') \<and> set events' \<subseteq> set events"
      by (rule Cons.IH) (use Cons.prems p in auto)
    with False m p(1) show ?thesis by auto
  qed (simp add: p(1))
qed simp

interpretation prompt_tcp: prompt_stream tcp_ops tcp_incoming tcp_ready
proof unfold_locales
  fix s n d r
  assume ready: "tcp_ready s" and n: "0 < n" "n \<le> length (tcp_incoming s)" and d: "so_time tcp_ops s < d"
  obtain buffer' events' where w: "await_bytes n d (ts_clock s) (ts_buffer s) (ts_events s) = (WaitReady, ts_clock s, buffer', events')"
    and sub: "set events' \<subseteq> set (ts_events s)"
    using await_bytes_prompt[of "ts_events s" "ts_clock s" n "ts_buffer s" d] ready n d
    by (auto simp: tcp_ready_def tcp_incoming_def tcp_ops_def)
  note b = await_bytes_ready[OF w]
  let ?s = "s\<lparr>ts_clock := ts_clock s, ts_buffer := drop n buffer', ts_events := events'\<rparr>"
  have "tcp_read_exactly s n d r = (Inr (take n buffer'), ?s)" using w d by (simp add: tcp_read_exactly_def tcp_ops_def)
  moreover have "take n buffer' = take n (tcp_incoming s)" "drop n buffer' @ chunk_bytes events' = drop n (tcp_incoming s)"
    using b by (simp_all add: tcp_incoming_def flip: conjunct2[OF b])
  moreover have "tcp_ready ?s" using ready sub by (auto simp: tcp_ready_def)
  ultimately show "\<exists>s'. so_read tcp_ops s n d r = (Inr (take n (tcp_incoming s)), s') \<and> tcp_ready s'
      \<and> tcp_incoming s' = drop n (tcp_incoming s) \<and> so_time tcp_ops s' = so_time tcp_ops s"
    by (auto simp: tcp_ops_def tcp_incoming_def)
qed (simp_all add: tcp_ops_def tcp_write_def tcp_ready_def)

text \<open>
  C10: A fetch from an honest peer succeeds: when the peer's handshake, its extension handshake
  and its pieces, as the module's own encoders write them, have arrived, the fetch returns
  exactly the metadata, for every metadata of 1 byte to 4 MB.
\<close>

theorem fetch_from_honest_peer:
  assumes "honest_peer remote_id info_hash M = Inr stream" and "tcp_ready s" and "tcp_incoming s = stream"
    and "length peer_id = NODE_ID_LENGTH" and "length info_hash = NODE_ID_LENGTH"
    and "0 < length M" and "length M \<le> 4194304" and "sha1 M = info_hash"
    and "ts_clock s < now + ft_session timeouts" and "0 < ft_piece timeouts" and "0 < ft_handshake timeouts" and "0 < fuel"
  shows "fst (fetch_metadata sha1 fuel peer_id now (ConnectedTo s) info_hash timeouts) = Inr M"
proof -
  obtain f where f: "fuel = Suc f" using assms(12) by (cases fuel) auto
  have "prompt_tcp.at_bytes s stream (ts_clock s)" using assms(2,3) unfolding prompt_tcp.at_bytes_def by (simp add: tcp_ops_def)
  from prompt_tcp.run_session_at[OF assms(1) this assms(4-7,9-11), of f]
  obtain s' where "run_session tcp_ops fuel peer_id info_hash timeouts (now + ft_session timeouts) True s = (Inr M, s')"
    by (auto simp: f)
  with assms(6,8) show ?thesis by (simp add: fetch_metadata_def open_tcp_stream_def verify_metadata_def)
qed

theorem fetch_from_honest_peer_witness:
  "\<exists>stream. honest_peer (replicate 20 2) (replicate 20 7) [1, 2, 3] = Inr stream
     \<and> fst (fetch_metadata (\<lambda>_. replicate 20 7) 1 (replicate 20 1) 0
          (ConnectedTo \<lparr>ts_clock = 0, ts_buffer = stream, ts_events = [], ts_written = [], ts_closed = False\<rparr>)
          (replicate 20 7) DEFAULT_TIMEOUTS) = Inr [1, 2, 3]"
proof -
  let ?M = "[1, 2, 3] :: bytes"
  obtain h where h: "encode_handshake (replicate 20 7) (replicate 20 2) = Inr h"
    by (simp add: encode_handshake_def NODE_ID_LENGTH_def Let_def)
  obtain e where e: "honest_extended_handshake ?M = Inr e" by (rule honest_extended_handshake_ok[of ?M]) auto
  have c: "piece_count (int (length ?M)) = 1" by (simp add: piece_count_def METADATA_PIECE_SIZE_def)
  obtain p where p: "honest_piece ?M 0 = Inr p" by (rule honest_piece_ok[of 0 ?M]) (auto simp: piece_count_def METADATA_PIECE_SIZE_def)
  have peer: "honest_peer (replicate 20 2) (replicate 20 7) ?M = Inr (h @ e @ p)"
    unfolding honest_peer_def c by (simp add: h e p)
  have "fst (fetch_metadata (\<lambda>_. replicate 20 7) 1 (replicate 20 1) 0
          (ConnectedTo \<lparr>ts_clock = 0, ts_buffer = h @ e @ p, ts_events = [], ts_written = [], ts_closed = False\<rparr>)
          (replicate 20 7) DEFAULT_TIMEOUTS) = Inr ?M"
    by (rule fetch_from_honest_peer[OF peer]) (simp_all add: tcp_ready_def tcp_incoming_def NODE_ID_LENGTH_def DEFAULT_TIMEOUTS_def)
  with peer show ?thesis by blast
qed

end
