(* ===== verification/Stream_Encryption.thy ===== *)
theory Stream_Encryption
  imports Metadata_Session
begin

text \<open>
  Message stream encryption, outgoing side, of \<open>stream_encryption.py\<close>: RC4 on 8-bit words, the
  encrypted stream as a wrapper around any stream, and the negotiation. SHA-1, the random
  bytes and the padding length are parameters; \<open>DH_PRIME\<close> and the exponentiation are the
  source's. Main results: the key schedule and the cipher keep the state a permutation,
  deciphering what was enciphered with the same state gives the data back, the negotiation
  always ends, and an encrypted stream is a byte stream of the deciphered bytes.
\<close>

definition DH_PRIME :: nat where
  "DH_PRIME = 0xFFFFFFFFFFFFFFFFC90FDAA22168C234C4C6628B80DC1CD129024E088A67CC74020BBEA63B139B22514A08798E3404DDEF9519B3CD3A431B302B0A6DF25F14374FE1356D6D51C245E485B576625E7EC6F44C42E9A63A36210000000000090563"

definition DH_GENERATOR :: nat where "DH_GENERATOR = 2"
definition DH_KEY_LENGTH :: nat where "DH_KEY_LENGTH = 96"
definition PRIVATE_KEY_BYTES :: nat where "PRIVATE_KEY_BYTES = 20"
definition VERIFICATION_CONSTANT :: bytes where "VERIFICATION_CONSTANT = replicate 8 0"
definition CRYPTO_PLAINTEXT :: nat where "CRYPTO_PLAINTEXT = 1"
definition CRYPTO_RC4 :: nat where "CRYPTO_RC4 = 2"
definition MAX_PAD_LENGTH :: nat where "MAX_PAD_LENGTH = 512"
definition OUR_PAD_MAX :: nat where "OUR_PAD_MAX = 64"
definition RC4_DISCARD :: nat where "RC4_DISCARD = 1024"

section \<open>RC4\<close>

record rc4 =
  rc_state :: "byte list"
  rc_i :: byte
  rc_j :: byte

text \<open>\<open>state[i], state[j] = state[j], state[i]\<close>\<close>

definition rc4_swap :: "byte list \<Rightarrow> byte \<Rightarrow> byte \<Rightarrow> byte list" where
  "rc4_swap state i j = state[unat i := state ! unat j, unat j := state ! unat i]"

text \<open>The key schedule: one round for every \<open>i\<close> of \<open>range(256)\<close>.\<close>

fun key_schedule :: "bytes \<Rightarrow> nat list \<Rightarrow> byte list \<Rightarrow> byte \<Rightarrow> byte list" where
  "key_schedule key [] state j = state"
| "key_schedule key (i # is) state j =
     (let j1 = j + state ! i + key ! (i mod length key)
      in key_schedule key is (rc4_swap state (of_nat i) j1) j1)"

definition rc4_init :: "bytes \<Rightarrow> rc4" where
  "rc4_init key = \<lparr>rc_state = key_schedule key [0..<256] (map of_nat [0..<256]) 0, rc_i = 0, rc_j = 0\<rparr>"

fun rc4_crypt :: "rc4 \<Rightarrow> bytes \<Rightarrow> bytes \<times> rc4" where
  "rc4_crypt c [] = ([], c)"
| "rc4_crypt c (b # data) =
     (let i = rc_i c + 1;
          j = rc_j c + rc_state c ! unat i;
          state = rc4_swap (rc_state c) i j;
          k = state ! unat (state ! unat i + state ! unat j);
          (out, c1) = rc4_crypt \<lparr>rc_state = state, rc_i = i, rc_j = j\<rparr> data
      in ((b XOR k) # out, c1))"

definition mse_cipher :: "bytes \<Rightarrow> rc4" where
  "mse_cipher key = snd (rc4_crypt (rc4_init key) (replicate RC4_DISCARD 0))"

section \<open>The encrypted stream\<close>

text \<open>The wrapper holds the inner stream and the two ciphers, both or neither.\<close>

record 's encrypted_stream =
  es_inner :: 's
  es_encryptor :: "rc4 option"
  es_decryptor :: "rc4 option"

definition encrypted_read ::
    "'s stream_ops \<Rightarrow> 's encrypted_stream \<Rightarrow> nat \<Rightarrow> real \<Rightarrow> fetch_reason \<Rightarrow> (fetch_reason + bytes) \<times> 's encrypted_stream" where
  "encrypted_read S e len deadline closed_reason =
     (case so_read S (es_inner e) len deadline closed_reason of
        (Inl reason, s1) \<Rightarrow> (Inl reason, e\<lparr>es_inner := s1\<rparr>)
      | (Inr data, s1) \<Rightarrow>
          (case es_decryptor e of
             None \<Rightarrow> (Inr data, e\<lparr>es_inner := s1\<rparr>)
           | Some c \<Rightarrow> let (out, c1) = rc4_crypt c data in (Inr out, e\<lparr>es_inner := s1, es_decryptor := Some c1\<rparr>)))"

definition encrypted_write :: "'s stream_ops \<Rightarrow> 's encrypted_stream \<Rightarrow> bytes \<Rightarrow> 's encrypted_stream" where
  "encrypted_write S e data =
     (case es_encryptor e of
        None \<Rightarrow> e\<lparr>es_inner := so_write S (es_inner e) data\<rparr>
      | Some c \<Rightarrow> let (out, c1) = rc4_crypt c data
                 in e\<lparr>es_inner := so_write S (es_inner e) out, es_encryptor := Some c1\<rparr>)"

definition encrypted_ops :: "'s stream_ops \<Rightarrow> 's encrypted_stream stream_ops" where
  "encrypted_ops S =
     \<lparr>so_read = encrypted_read S, so_write = encrypted_write S, so_time = (\<lambda>e. so_time S (es_inner e))\<rparr>"

section \<open>Negotiation\<close>

text \<open>Modular exponentiation by squaring, \<open>pow(base, exponent, modulus)\<close>.\<close>

fun pow_mod :: "nat \<Rightarrow> nat \<Rightarrow> nat \<Rightarrow> nat" where
  "pow_mod base exponent modulus =
     (if exponent = 0 then 1 mod modulus
      else let half = pow_mod (base * base mod modulus) (exponent div 2) modulus
           in if odd exponent then base * half mod modulus else half)"

declare pow_mod.simps [simp del]

text \<open>The scan for the verification constant: at most \<open>MAX_PAD_LENGTH\<close> bytes of padding are skipped.\<close>

function scan_marker :: "'s stream_ops \<Rightarrow> real \<Rightarrow> bytes \<Rightarrow> bytes \<Rightarrow> nat \<Rightarrow> ('s, unit) io" where
  "scan_marker S deadline marker window scanned =
     (if window = marker then io_return ()
      else if scanned \<ge> MAX_PAD_LENGTH then io_raise (FetchError R_encryption_failed)
      else io_bind (io_read S 1 deadline R_closed) (\<lambda>b.
             scan_marker S deadline marker (drop 1 window @ b) (scanned + 1)))"
  by pat_completeness auto
termination scan_marker
  by (relation "measure (\<lambda>(S, deadline, marker, window, scanned). MAX_PAD_LENGTH - scanned)") auto

declare scan_marker.simps [simp del]

definition negotiate_encryption ::
    "(bytes \<Rightarrow> bytes) \<Rightarrow> bytes \<Rightarrow> bytes \<Rightarrow> 's stream_ops \<Rightarrow> bytes \<Rightarrow> bytes \<Rightarrow> real \<Rightarrow> ('s, 's encrypted_stream) io" where
  "negotiate_encryption sha1 private_bytes padding S info_hash initial_payload deadline =
     (let private = be_value private_bytes;
          public = be_bytes DH_KEY_LENGTH (pow_mod DH_GENERATOR private DH_PRIME)
      in io_bind (io_write S (public @ padding)) (\<lambda>_.
         io_bind (io_read S DH_KEY_LENGTH deadline R_closed_on_handshake) (\<lambda>remote_bytes.
         let secret = be_bytes DH_KEY_LENGTH (pow_mod (be_value remote_bytes) private DH_PRIME);
             encryptor = mse_cipher (sha1 (ascii ''keyA'' @ secret @ info_hash));
             decryptor = mse_cipher (sha1 (ascii ''keyB'' @ secret @ info_hash));
             obfuscated = map2 (XOR) (sha1 (ascii ''req2'' @ info_hash)) (sha1 (ascii ''req3'' @ secret));
             header = VERIFICATION_CONSTANT @ be_bytes 4 (CRYPTO_RC4 OR CRYPTO_PLAINTEXT) @ be_bytes 2 0
                        @ be_bytes 2 (length initial_payload);
             (out1, encryptor1) = rc4_crypt encryptor header;
             (out2, encryptor2) = rc4_crypt encryptor1 initial_payload
         in io_bind (io_write S (sha1 (ascii ''req1'' @ secret) @ obfuscated @ out1 @ out2)) (\<lambda>_.
            let marker = fst (rc4_crypt decryptor VERIFICATION_CONSTANT)
            in io_bind (io_read S (length marker) deadline R_closed) (\<lambda>window.
               io_bind (scan_marker S deadline marker window 0) (\<lambda>_.
               let decryptor1 = snd (rc4_crypt decryptor VERIFICATION_CONSTANT)
               in io_bind (io_read S 6 deadline R_closed) (\<lambda>answer.
                  let (plain, decryptor2) = rc4_crypt decryptor1 answer;
                      select = be_value (take 4 plain);
                      pad_length = be_value (drop 4 plain)
                  in if select \<notin> {CRYPTO_PLAINTEXT, CRYPTO_RC4} \<or> pad_length > MAX_PAD_LENGTH
                     then io_raise (FetchError R_encryption_failed)
                     else io_bind (if pad_length \<noteq> 0
                                   then io_bind (io_read S pad_length deadline R_closed) (\<lambda>pad.
                                          io_return (snd (rc4_crypt decryptor2 pad)))
                                   else io_return decryptor2)
                       (\<lambda>decryptor3 s. (Inr (if select = CRYPTO_RC4
                            then \<lparr>es_inner = s, es_encryptor = Some encryptor2, es_decryptor = Some decryptor3\<rparr>
                            else \<lparr>es_inner = s, es_encryptor = None, es_decryptor = None\<rparr>), s)))))))))"

text \<open>
  The session runs on the negotiated stream without sending the handshakes again: they were the
  initial payload. The TCP stream is closed in the end, whatever happens.
\<close>

definition fetch_metadata_encrypted ::
    "(bytes \<Rightarrow> bytes) \<Rightarrow> nat \<Rightarrow> bytes \<Rightarrow> bytes \<Rightarrow> bytes \<Rightarrow> real \<Rightarrow> connect_outcome \<Rightarrow> bytes \<Rightarrow> fetch_timeouts
       \<Rightarrow> (fetch_error + bytes) \<times> tcp_stream option" where
  "fetch_metadata_encrypted sha1 fuel peer_id private_bytes padding now attempt info_hash timeouts =
     (let session_deadline = now + ft_session timeouts
      in case open_tcp_stream attempt of
           Inl reason \<Rightarrow> (Inl (FetchError reason), None)
         | Inr s \<Rightarrow>
             let handshake_deadline = min session_deadline (ts_clock s + ft_handshake timeouts)
             in (case opening_messages peer_id info_hash of
                   Inl _ \<Rightarrow> (Inl Uncaught, Some (tcp_close s))
                 | Inr opening \<Rightarrow>
                     (case negotiate_encryption sha1 private_bytes padding tcp_ops info_hash opening handshake_deadline s of
                        (Inl e, s1) \<Rightarrow> (Inl e, Some (tcp_close s1))
                      | (Inr encrypted, s1) \<Rightarrow>
                          (case run_session (encrypted_ops tcp_ops) fuel peer_id info_hash timeouts session_deadline False encrypted of
                             (Inl e, e1) \<Rightarrow> (Inl e, Some (tcp_close (es_inner e1)))
                           | (Inr metadata, e1) \<Rightarrow>
                               (case verify_metadata sha1 info_hash metadata of
                                  Inl e \<Rightarrow> (Inl e, Some (tcp_close (es_inner e1)))
                                | Inr _ \<Rightarrow> (if 0 < length metadata then Inr metadata else Inl Uncaught,
                                            Some (tcp_close (es_inner e1))))))))"

section \<open>Lemmas on RC4\<close>

lemma pow_mod_power: "pow_mod base exponent modulus = base ^ exponent mod modulus"
proof (induction base exponent modulus rule: pow_mod.induct)
  case (1 base exponent modulus)
  show ?case
  proof (cases "exponent = 0")
    case False
    have half: "pow_mod (base * base mod modulus) (exponent div 2) modulus = (base * base) ^ (exponent div 2) mod modulus"
      using 1[OF False] by (simp add: power_mod)
    have sq: "(base * base) ^ (exponent div 2) = base ^ (2 * (exponent div 2))" by (simp add: power_mult power2_eq_square)
    show ?thesis
    proof (cases "odd exponent")
      case True
      then have "base ^ exponent = base * base ^ (2 * (exponent div 2))" by (metis odd_two_times_div_two_succ power_Suc Suc_eq_plus1)
      with True False show ?thesis by (simp add: pow_mod.simps[of base exponent] half sq mod_mult_right_eq)
    next
      case even: False
      then have "2 * (exponent div 2) = exponent" by (simp add: even_two_times_div_two)
      with even False show ?thesis by (simp add: pow_mod.simps[of base exponent] half sq)
    qed
  qed (simp add: pow_mod.simps)
qed

definition rc4_permutation :: "byte list \<Rightarrow> bool" where
  "rc4_permutation state \<longleftrightarrow> mset state = mset (map of_nat [0..<256])"

lemma rc4_permutation_length: "rc4_permutation state \<Longrightarrow> length state = 256"
  by (metis rc4_permutation_def diff_zero length_map length_upt size_mset)

lemma swap_permutation: "rc4_permutation state \<Longrightarrow> rc4_permutation (rc4_swap state i j)"
  using rc4_permutation_length[of state] unat_byte[of i] unat_byte[of j] mset_swap[of "unat j" state "unat i"]
  by (simp add: rc4_permutation_def rc4_swap_def)

lemma key_schedule_permutation: "rc4_permutation state \<Longrightarrow> rc4_permutation (key_schedule key is state j)"
  by (induction key "is" state j rule: key_schedule.induct) (auto simp: Let_def swap_permutation)

lemma rc4_init_permutation: "rc4_permutation (rc_state (rc4_init key))"
proof -
  have "rc4_permutation (map of_nat [0..<256])" unfolding rc4_permutation_def by (rule refl)
  from key_schedule_permutation[OF this] show ?thesis by (simp only: rc4_init_def rc4.select_convs)
qed

lemma rc4_crypt_permutation: "rc4_permutation (rc_state c) \<Longrightarrow> rc4_permutation (rc_state (snd (rc4_crypt c data)))"
  by (induction c data rule: rc4_crypt.induct) (auto simp: Let_def swap_permutation split: prod.splits)

lemma rc4_crypt_twice: "rc4_crypt c data = (out, c') \<Longrightarrow> rc4_crypt c out = (data, c')"
proof (induction c data arbitrary: out rule: rc4_crypt.induct)
  case (2 c b data)
  then show ?case by (auto simp: Let_def xor.assoc split: prod.splits)
qed simp

lemma length_rc4_crypt [simp]: "length (fst (rc4_crypt c data)) = length data"
  by (induction c data rule: rc4_crypt.induct) (auto simp: Let_def split: prod.splits)

lemma rc4_crypt_append:
  "rc4_crypt c (xs @ ys) =
     (fst (rc4_crypt c xs) @ fst (rc4_crypt (snd (rc4_crypt c xs)) ys), snd (rc4_crypt (snd (rc4_crypt c xs)) ys))"
  by (induction c xs rule: rc4_crypt.induct) (auto simp: Let_def split: prod.splits)

lemma rc4_crypt_index: "rc_i (snd (rc4_crypt c data)) = rc_i c + of_nat (length data)"
  by (induction c data rule: rc4_crypt.induct) (auto simp: Let_def split: prod.splits)

section \<open>The encrypted stream keeps the interface\<close>

definition deciphered :: "('s \<Rightarrow> bytes) \<Rightarrow> 's encrypted_stream \<Rightarrow> bytes" where
  "deciphered incoming e =
     (case es_decryptor e of None \<Rightarrow> incoming (es_inner e) | Some c \<Rightarrow> fst (rc4_crypt c (incoming (es_inner e))))"

locale inner_stream = byte_stream

sublocale inner_stream \<subseteq> secured: byte_stream "encrypted_ops S" "deciphered incoming"
proof
  fix n s d r data s'
  assume n: "0 < n" and r: "so_read (encrypted_ops S) s n d r = (Inr data, s')"
  obtain raw s1 where raw: "so_read S (es_inner s) n d r = (Inr raw, s1)"
    and s': "case es_decryptor s of None \<Rightarrow> data = raw \<and> s' = s\<lparr>es_inner := s1\<rparr>
      | Some c \<Rightarrow> data = fst (rc4_crypt c raw) \<and> s' = s\<lparr>es_inner := s1, es_decryptor := Some (snd (rc4_crypt c raw))\<rparr>"
    using r by (auto simp: encrypted_ops_def encrypted_read_def split: prod.splits sum.splits option.splits)
  show "length data = n \<and> deciphered incoming s = data @ deciphered incoming s'"
    using read_ok[OF n raw] s' by (auto simp: deciphered_def rc4_crypt_append split: option.splits)
next
  fix s data
  show "deciphered incoming (so_write (encrypted_ops S) s data) = deciphered incoming s"
    by (simp add: encrypted_ops_def encrypted_write_def deciphered_def write_incoming split: option.splits prod.splits)
qed

interpretation encrypted_tcp: inner_stream tcp_ops tcp_incoming
  by unfold_locales

section \<open>The negotiation ends\<close>

context inner_stream
begin

text \<open>A step that ends with a value that satisfies \<open>Q\<close>, after using up bytes only, or with a fetch reason.\<close>

definition safely :: "('a, 'b) io \<Rightarrow> ('b \<Rightarrow> 'a \<Rightarrow> bool) \<Rightarrow> bool" where
  "safely m Q \<longleftrightarrow> (\<forall>s s'. (\<forall>e. m s = (Inl e, s') \<longrightarrow> clean e)
     \<and> (\<forall>x. m s = (Inr x, s') \<longrightarrow> length (incoming s') \<le> length (incoming s) \<and> Q x s'))"

lemma safely_bind:
  assumes m: "safely m P" and f: "\<And>x. safely (f x) Q"
  shows "safely (io_bind m f) Q"
  unfolding safely_def
proof (intro allI conjI impI)
  fix s s' e assume "io_bind m f s = (Inl e, s')"
  then show "clean e" using m f unfolding safely_def io_bind_eq by blast
next
  fix s s' x assume "io_bind m f s = (Inr x, s')"
  then obtain y s1 where "m s = (Inr y, s1)" "f y s1 = (Inr x, s')" unfolding io_bind_eq by blast
  then have "length (incoming s1) \<le> length (incoming s)" "length (incoming s') \<le> length (incoming s1)" "Q x s'"
    using m f[of y] unfolding safely_def by blast+
  then show "length (incoming s') \<le> length (incoming s)" "Q x s'" by simp_all
qed

lemma safely_read: "0 < n \<Longrightarrow> safely (io_read S n d r) (\<lambda>_ _. True)"
  unfolding safely_def using read_ok by fastforce

lemma safely_write: "safely (io_write S b) (\<lambda>_ _. True)"
  by (simp add: safely_def write_incoming)

lemma safely_return: "safely (io_return x) (\<lambda>_ _. True)"
  by (simp add: safely_def)

lemma safely_raise: "safely (io_raise (FetchError reason)) Q"
  by (simp add: safely_def)

lemma safely_if: "(c \<Longrightarrow> safely m Q) \<Longrightarrow> (\<not> c \<Longrightarrow> safely m' Q) \<Longrightarrow> safely (if c then m else m') Q"
  by simp

lemma scan_marker_safely: "safely (scan_marker S deadline marker window scanned) (\<lambda>_ _. True)"
proof (induction "MAX_PAD_LENGTH - scanned" arbitrary: window scanned rule: less_induct)
  case less
  show ?case
    by (subst scan_marker.simps)
      (auto intro!: safely_if safely_return safely_raise safely_bind[OF safely_read] less)
qed

lemma negotiate_safely:
  "safely (negotiate_encryption sha1 private_bytes padding S info_hash initial_payload deadline)
     (\<lambda>e s. es_inner e = s \<and> (es_encryptor e = None \<longleftrightarrow> es_decryptor e = None))"
proof -
  have last: "safely (\<lambda>s. (Inr (if select = CRYPTO_RC4
        then \<lparr>es_inner = s, es_encryptor = Some c1, es_decryptor = Some c2\<rparr>
        else \<lparr>es_inner = s, es_encryptor = None, es_decryptor = None\<rparr>), s))
      (\<lambda>e s. es_inner e = s \<and> (es_encryptor e = None \<longleftrightarrow> es_decryptor e = None))" for select c1 c2
    by (auto simp: safely_def)
  show ?thesis
    unfolding negotiate_encryption_def Let_def split_beta
    by (rule safely_bind[OF safely_write] safely_bind[OF safely_read] safely_bind[OF scan_marker_safely] safely_if safely_raise last
        safely_bind[where P = "\<lambda>_ _. True"] safely_read safely_return
        | simp add: DH_KEY_LENGTH_def VERIFICATION_CONSTANT_def)+
qed

end

section \<open>Properties\<close>





end
