(* ===== verification/Utp_Transport.thy ===== *)
theory Utp_Transport
  imports Metadata_Fetcher
begin

text \<open>
  The uTP client of \<open>utp_transport.py\<close>: the packet codec, connections and the socket that
  multiplexes them. Sequence numbers and connection ids are 16-bit words, timestamps 32-bit
  words, so the masks of the source are the wrap-around of the word operations. A connection
  object lives in the socket's table under its address and receive id; a method takes and
  returns it beside the socket, and \<open>put_back\<close> stores it where the object is. Event loop
  callbacks are flags (\<open>uc_ack_scheduled\<close>, \<open>uc_resend_timer\<close>) and the methods the loop calls;
  the future \<open>connected\<close> is an optional result. Clock readings are arguments.
\<close>

definition ST_DATA :: nat where "ST_DATA = 0"
definition ST_FIN :: nat where "ST_FIN = 1"
definition ST_STATE :: nat where "ST_STATE = 2"
definition ST_RESET :: nat where "ST_RESET = 3"
definition ST_SYN :: nat where "ST_SYN = 4"
definition UTP_VERSION :: nat where "UTP_VERSION = 1"
definition HEADER_SIZE :: nat where "HEADER_SIZE = 20"
definition MAX_PAYLOAD :: nat where "MAX_PAYLOAD = 1200"
definition RECEIVE_WINDOW :: nat where "RECEIVE_WINDOW = 1048576"
definition MAX_OUT_OF_ORDER :: nat where "MAX_OUT_OF_ORDER = 1024"
definition INITIAL_RESEND_SECONDS :: real where "INITIAL_RESEND_SECONDS = 1"
definition MAX_RESENDS :: nat where "MAX_RESENDS = 4"

lemmas utp_consts = ST_DATA_def ST_FIN_def ST_STATE_def ST_RESET_def ST_SYN_def UTP_VERSION_def HEADER_SIZE_def

section \<open>Packets\<close>

record utp_packet =
  up_packet_type :: nat
  up_connection_id :: "16 word"
  up_timestamp :: "32 word"
  up_timestamp_difference :: "32 word"
  up_window :: "32 word"
  up_seq_nr :: "16 word"
  up_ack_nr :: "16 word"
  up_payload :: bytes

text \<open>\<open>HEADER.pack\<close> of \<open>!BBHIIIHH\<close>.\<close>

definition encode_utp_packet ::
    "nat \<Rightarrow> 16 word \<Rightarrow> 32 word \<Rightarrow> 32 word \<Rightarrow> 32 word \<Rightarrow> 16 word \<Rightarrow> 16 word \<Rightarrow> bytes \<Rightarrow> bytes" where
  "encode_utp_packet packet_type connection_id timestamp timestamp_difference window seq_nr ack_nr payload =
     [of_nat (packet_type * 16 + UTP_VERSION), 0] @ be_bytes 2 (unat connection_id) @ be_bytes 4 (unat timestamp)
       @ be_bytes 4 (unat timestamp_difference) @ be_bytes 4 (unat window) @ be_bytes 2 (unat seq_nr)
       @ be_bytes 2 (unat ack_nr) @ payload"

text \<open>The loop over the extension headers: where the payload starts.\<close>

function skip_extensions :: "bytes \<Rightarrow> byte \<Rightarrow> nat \<Rightarrow> nat option" where
  "skip_extensions data extension offset =
     (if extension = 0 then Some offset
      else if offset + 2 > length data \<or> offset + 2 + unat (data ! (offset + 1)) > length data then None
      else skip_extensions data (data ! offset) (offset + 2 + unat (data ! (offset + 1))))"
  by pat_completeness auto
termination skip_extensions
  by (relation "measure (\<lambda>(data, extension, offset). length data - offset)") auto

declare skip_extensions.simps [simp del]

definition decode_utp_packet :: "bytes \<Rightarrow> utp_packet option" where
  "decode_utp_packet data =
     (if length data < HEADER_SIZE then None
      else let type_version = unat (data ! 0)
           in if type_version mod 16 \<noteq> UTP_VERSION \<or> type_version div 16 > ST_SYN then None
              else case skip_extensions data (data ! 1) HEADER_SIZE of
                     None \<Rightarrow> None
                   | Some offset \<Rightarrow> Some
                       \<lparr>up_packet_type = type_version div 16,
                        up_connection_id = of_nat (be_value (byte_slice data 2 4)),
                        up_timestamp = of_nat (be_value (byte_slice data 4 8)),
                        up_timestamp_difference = of_nat (be_value (byte_slice data 8 12)),
                        up_window = of_nat (be_value (byte_slice data 12 16)),
                        up_seq_nr = of_nat (be_value (byte_slice data 16 18)),
                        up_ack_nr = of_nat (be_value (byte_slice data 18 20)),
                        up_payload = drop offset data\<rparr>)"

definition sequence_after :: "16 word \<Rightarrow> 16 word \<Rightarrow> bool" where
  "sequence_after later earlier \<longleftrightarrow> later \<noteq> earlier \<and> unat (later - earlier) < 32768"

section \<open>Connections and the socket\<close>

text \<open>An entry of \<open>unacked\<close>: the packet, when it was last sent, and how often it was sent again.\<close>

record utp_connection =
  uc_address :: address
  uc_recv_id :: "16 word"
  uc_send_id :: "16 word"
  uc_seq_nr :: "16 word"
  uc_ack_nr :: "16 word"
  uc_connected_state :: bool
  uc_closed :: bool
  uc_error :: "fetch_reason option"
  uc_reply_micro :: "32 word"
  uc_buffer :: bytes
  uc_received_any :: bool
  uc_out_of_order :: "(16 word, bytes) odict"
  uc_eof_seq :: "16 word option"
  uc_unacked :: "(16 word, bytes \<times> real \<times> nat) odict"
  uc_connected :: "bool option"
  uc_readable :: bool
  uc_ack_scheduled :: bool
  uc_resend_timer :: bool

definition new_utp_connection :: "address \<Rightarrow> 16 word \<Rightarrow> utp_connection" where
  "new_utp_connection address recv_id =
     \<lparr>uc_address = address, uc_recv_id = recv_id, uc_send_id = recv_id + 1, uc_seq_nr = 1, uc_ack_nr = 0,
      uc_connected_state = False, uc_closed = False, uc_error = None, uc_reply_micro = 0, uc_buffer = [],
      uc_received_any = False, uc_out_of_order = [], uc_eof_seq = None, uc_unacked = [], uc_connected = None,
      uc_readable = False, uc_ack_scheduled = False, uc_resend_timer = False\<rparr>"

type_synonym connection_key = "string \<times> int \<times> 16 word"

text \<open>\<open>us_transport\<close>: the transport is there and not closing; \<open>us_sent\<close>: what was handed to it.\<close>

record utp_socket =
  us_transport :: bool
  us_connections :: "(connection_key, utp_connection) odict"
  us_packets_sent :: nat
  us_sent :: "(bytes \<times> address) list"

definition connection_key_of :: "utp_connection \<Rightarrow> connection_key" where
  "connection_key_of c = (fst (uc_address c), snd (uc_address c), uc_recv_id c)"

definition socket_send :: "utp_socket \<Rightarrow> bytes \<Rightarrow> address \<Rightarrow> utp_socket" where
  "socket_send u packet address =
     (if us_transport u
      then u\<lparr>us_sent := us_sent u @ [(packet, address)], us_packets_sent := us_packets_sent u + 1\<rparr>
      else u)"

definition socket_forget :: "utp_socket \<Rightarrow> utp_connection \<Rightarrow> utp_socket" where
  "socket_forget u c = u\<lparr>us_connections := AList.delete (connection_key_of c) (us_connections u)\<rparr>"

text \<open>The connection object as the socket's table sees it; a forgotten one is in no table.\<close>

definition put_back :: "utp_socket \<times> utp_connection \<Rightarrow> utp_socket" where
  "put_back uc =
     (let (u, c) = uc
      in if connection_key_of c \<in> fst ` set (us_connections u)
         then u\<lparr>us_connections := AList.update (connection_key_of c) c (us_connections u)\<rparr> else u)"

section \<open>Sending\<close>

definition send_packet ::
    "32 word \<Rightarrow> utp_socket \<Rightarrow> utp_connection \<Rightarrow> nat \<Rightarrow> 16 word \<Rightarrow> bytes \<Rightarrow> bytes \<times> utp_socket" where
  "send_packet micro u c packet_type seq_nr payload =
     (let connection_id = (if packet_type = ST_SYN then uc_recv_id c else uc_send_id c);
          window = RECEIVE_WINDOW - length (uc_buffer c);
          packet = encode_utp_packet packet_type connection_id micro (uc_reply_micro c) (of_nat window) seq_nr (uc_ack_nr c) payload
      in (packet, socket_send u packet (uc_address c)))"

definition arm_resend :: "utp_connection \<Rightarrow> utp_connection" where
  "arm_resend c = (if \<not> uc_resend_timer c \<and> \<not> uc_closed c then c\<lparr>uc_resend_timer := True\<rparr> else c)"

definition send_syn :: "32 word \<Rightarrow> real \<Rightarrow> utp_socket \<Rightarrow> utp_connection \<Rightarrow> utp_socket \<times> utp_connection" where
  "send_syn micro now u c =
     (let (packet, u1) = send_packet micro u c ST_SYN (uc_seq_nr c) []
      in (u1, arm_resend (c\<lparr>uc_unacked := AList.update (uc_seq_nr c) (packet, now, 0) (uc_unacked c),
                            uc_seq_nr := uc_seq_nr c + 1\<rparr>)))"

fun write_chunks :: "32 word \<Rightarrow> real \<Rightarrow> utp_socket \<Rightarrow> utp_connection \<Rightarrow> bytes list \<Rightarrow> utp_socket \<times> utp_connection" where
  "write_chunks micro now u c [] = (u, c)"
| "write_chunks micro now u c (chunk # rest) =
     (let (packet, u1) = send_packet micro u c ST_DATA (uc_seq_nr c) chunk
      in write_chunks micro now u1
           (c\<lparr>uc_unacked := AList.update (uc_seq_nr c) (packet, now, 0) (uc_unacked c), uc_seq_nr := uc_seq_nr c + 1\<rparr>)
           rest)"

text \<open>\<open>data[start:start + MAX_PAYLOAD]\<close> for \<open>start\<close> in \<open>range(0, len(data), MAX_PAYLOAD)\<close>\<close>

definition payload_chunks :: "bytes \<Rightarrow> bytes list" where
  "payload_chunks data = map (\<lambda>start. byte_slice data start (start + MAX_PAYLOAD)) (range_step (length data) MAX_PAYLOAD)"

definition utp_write :: "32 word \<Rightarrow> real \<Rightarrow> utp_socket \<Rightarrow> utp_connection \<Rightarrow> bytes \<Rightarrow> utp_socket \<times> utp_connection" where
  "utp_write micro now u c data =
     (if uc_closed c then (u, c)
      else let (u1, c1) = write_chunks micro now u c (payload_chunks data) in (u1, arm_resend c1))"

definition utp_close :: "32 word \<Rightarrow> utp_socket \<Rightarrow> utp_connection \<Rightarrow> bool \<Rightarrow> utp_socket \<times> utp_connection" where
  "utp_close micro u c send_reset =
     (if uc_closed c then (u, c)
      else let u1 = (if send_reset \<and> uc_connected_state c
                     then snd (send_packet micro (snd (send_packet micro u c ST_STATE (uc_seq_nr c) [])) c ST_RESET (uc_seq_nr c) [])
                     else u);
               c1 = c\<lparr>uc_closed := True, uc_resend_timer := False\<rparr>
           in (socket_forget u1 c1, c1))"

definition utp_fail :: "utp_socket \<Rightarrow> utp_connection \<Rightarrow> fetch_reason \<Rightarrow> utp_socket \<times> utp_connection" where
  "utp_fail u c reason =
     (let c1 = c\<lparr>uc_error := (case uc_error c of None \<Rightarrow> Some reason | Some r \<Rightarrow> Some r),
                 uc_connected := (case uc_connected c of None \<Rightarrow> Some False | Some b \<Rightarrow> Some b),
                 uc_readable := True\<rparr>
      in utp_close 0 u c1 False)"

section \<open>Receiving\<close>

definition acknowledge :: "utp_connection \<Rightarrow> 16 word \<Rightarrow> utp_connection" where
  "acknowledge c ack_nr = c\<lparr>uc_unacked := filter (\<lambda>p. sequence_after (fst p) ack_nr) (uc_unacked c)\<rparr>"

definition deliver :: "utp_connection \<Rightarrow> 16 word \<Rightarrow> bytes \<Rightarrow> utp_connection" where
  "deliver c seq_nr payload =
     c\<lparr>uc_ack_nr := seq_nr, uc_buffer := uc_buffer c @ payload,
       uc_received_any := (if payload \<noteq> [] then True else uc_received_any c), uc_readable := True\<rparr>"

text \<open>The loop that delivers what was received ahead of its turn.\<close>

function deliver_following :: "utp_connection \<Rightarrow> utp_connection" where
  "deliver_following c =
     (case map_of (uc_out_of_order c) (uc_ack_nr c + 1) of
        None \<Rightarrow> c
      | Some payload \<Rightarrow>
          deliver_following
            (deliver (c\<lparr>uc_out_of_order := AList.delete (uc_ack_nr c + 1) (uc_out_of_order c)\<rparr>) (uc_ack_nr c + 1) payload))"
  by pat_completeness auto
termination deliver_following
proof (relation "measure (\<lambda>c. length (uc_out_of_order c))")
  fix c :: utp_connection and payload
  assume "map_of (uc_out_of_order c) (uc_ack_nr c + 1) = Some payload"
  then have "(uc_ack_nr c + 1, payload) \<in> set (uc_out_of_order c)" by (rule map_of_SomeD)
  then have "length (AList.delete (uc_ack_nr c + 1) (uc_out_of_order c)) < length (uc_out_of_order c)"
    unfolding AList.delete_eq by (intro length_filter_less) auto
  then show "(deliver (c\<lparr>uc_out_of_order := AList.delete (uc_ack_nr c + 1) (uc_out_of_order c)\<rparr>) (uc_ack_nr c + 1) payload, c)
      \<in> measure (\<lambda>c. length (uc_out_of_order c))" by (simp add: deliver_def)
qed simp

declare deliver_following.simps [simp del]

definition schedule_ack :: "utp_connection \<Rightarrow> utp_connection" where
  "schedule_ack c = (if uc_ack_scheduled c then c else c\<lparr>uc_ack_scheduled := True\<rparr>)"

definition data_received :: "utp_connection \<Rightarrow> 16 word \<Rightarrow> bytes \<Rightarrow> utp_connection" where
  "data_received c seq_nr payload =
     schedule_ack
       (if seq_nr = uc_ack_nr c + 1 then deliver_following (deliver c seq_nr payload)
        else if sequence_after seq_nr (uc_ack_nr c) \<and> length (uc_out_of_order c) < MAX_OUT_OF_ORDER
        then c\<lparr>uc_out_of_order := AList.update seq_nr payload (uc_out_of_order c)\<rparr>
        else c)"

definition packet_received :: "32 word \<Rightarrow> utp_socket \<Rightarrow> utp_connection \<Rightarrow> utp_packet \<Rightarrow> utp_socket \<times> utp_connection" where
  "packet_received micro u c packet =
     (if uc_closed c then (u, c)
      else let c1 = c\<lparr>uc_reply_micro := micro - up_timestamp packet\<rparr>
           in if up_packet_type packet = ST_RESET then utp_fail u c1 R_closed
              else if \<not> uc_connected_state c1
              then if up_packet_type packet \<noteq> ST_STATE then (u, c1)
                   else let c2 = acknowledge (c1\<lparr>uc_ack_nr := up_seq_nr packet - 1, uc_connected_state := True\<rparr>) (up_ack_nr packet)
                        in (u, c2\<lparr>uc_connected := (case uc_connected c2 of None \<Rightarrow> Some True | Some b \<Rightarrow> Some b)\<rparr>)
              else let c2 = acknowledge c1 (up_ack_nr packet)
                   in if up_packet_type packet = ST_DATA then (u, data_received c2 (up_seq_nr packet) (up_payload packet))
                      else if up_packet_type packet = ST_FIN
                      then (u, data_received (c2\<lparr>uc_eof_seq := Some (up_seq_nr packet)\<rparr>) (up_seq_nr packet) [])
                      else (u, c2))"

definition send_ack :: "32 word \<Rightarrow> utp_socket \<Rightarrow> utp_connection \<Rightarrow> utp_socket \<times> utp_connection" where
  "send_ack micro u c =
     (let c1 = c\<lparr>uc_ack_scheduled := False\<rparr>
      in (if uc_closed c1 then u else snd (send_packet micro u c1 ST_STATE (uc_seq_nr c1) []), c1))"

text \<open>
  The resend loop over the unacknowledged packets: those not due stay, a packet sent too often
  ends the loop with a failure (\<open>None\<close>), the others are sent again.
\<close>

fun resend_due ::
    "real \<Rightarrow> utp_socket \<Rightarrow> address \<Rightarrow> (16 word, bytes \<times> real \<times> nat) odict
       \<Rightarrow> utp_socket \<times> (16 word, bytes \<times> real \<times> nat) odict \<times> bool" where
  "resend_due now u address [] = (u, [], True)"
| "resend_due now u address ((seq, packet, sent, tries) # entries) =
     (if now - sent < INITIAL_RESEND_SECONDS * 2 ^ tries
      then let (u1, entries1, ok) = resend_due now u address entries in (u1, (seq, packet, sent, tries) # entries1, ok)
      else if tries \<ge> MAX_RESENDS then (u, (seq, packet, sent, tries) # entries, False)
      else let (u1, entries1, ok) = resend_due now (socket_send u packet address) address entries
           in (u1, (seq, packet, now, tries + 1) # entries1, ok))"

definition check_resend :: "real \<Rightarrow> utp_socket \<Rightarrow> utp_connection \<Rightarrow> utp_socket \<times> utp_connection" where
  "check_resend now u c =
     (let c1 = c\<lparr>uc_resend_timer := False\<rparr>
      in if uc_closed c1 then (u, c1)
         else let (u1, entries, ok) = resend_due now u (uc_address c1) (uc_unacked c1);
                  c2 = c1\<lparr>uc_unacked := entries\<rparr>
              in if \<not> ok then utp_fail u1 c2 (if \<not> uc_connected_state c2 then R_connect_timeout else R_timeout)
                 else if uc_unacked c2 \<noteq> [] then (u1, arm_resend c2) else (u1, c2))"

text \<open>
  One pass of the loop of \<open>read_exactly\<close>: the bytes, an error, or a wait for \<open>readable\<close>. A wait
  that times out is an error of the next pass.
\<close>

datatype utp_read = UtpData bytes | UtpRaise fetch_reason | UtpWait

definition utp_read_pass :: "real \<Rightarrow> utp_connection \<Rightarrow> nat \<Rightarrow> real \<Rightarrow> fetch_reason \<Rightarrow> utp_read \<times> utp_connection" where
  "utp_read_pass now c len deadline closed_reason =
     (if len \<le> length (uc_buffer c)
      then (UtpData (take len (uc_buffer c)), c\<lparr>uc_buffer := drop len (uc_buffer c)\<rparr>)
      else if uc_error c \<noteq> None \<or> (case uc_eof_seq c of None \<Rightarrow> False | Some seq \<Rightarrow> uc_ack_nr c = seq)
      then (UtpRaise (if uc_error c = Some R_timeout then R_timeout
                      else if \<not> uc_received_any c then closed_reason else R_closed), c)
      else if deadline - now \<le> 0 then (UtpRaise R_timeout, c)
      else (UtpWait, c\<lparr>uc_readable := False\<rparr>))"

section \<open>The socket\<close>

definition new_utp_socket :: utp_socket where
  "new_utp_socket = \<lparr>us_transport = False, us_connections = [], us_packets_sent = 0, us_sent = []\<rparr>"

definition connection_made :: "utp_socket \<Rightarrow> utp_socket" where
  "connection_made u = u\<lparr>us_transport := True\<rparr>"

definition datagram_received :: "32 word \<Rightarrow> utp_socket \<Rightarrow> bytes \<Rightarrow> address \<Rightarrow> utp_socket" where
  "datagram_received micro u data address =
     (case decode_utp_packet data of
        None \<Rightarrow> u
      | Some packet \<Rightarrow>
          (case map_of (us_connections u) (fst address, snd address, up_connection_id packet) of
             None \<Rightarrow> u
           | Some c \<Rightarrow> put_back (packet_received micro u c packet)))"

text \<open>
  The search for a free receive id of \<open>connect\<close>: it would run forever if all \<open>2^16\<close> ids of the
  address were taken, so \<open>None\<close> after \<open>2^16\<close> tries stands for that.
\<close>

fun free_recv_id :: "nat \<Rightarrow> utp_socket \<Rightarrow> address \<Rightarrow> 16 word \<Rightarrow> 16 word option" where
  "free_recv_id 0 u address recv_id = None"
| "free_recv_id (Suc fuel) u address recv_id =
     (if (fst address, snd address, recv_id) \<in> fst ` set (us_connections u)
      then free_recv_id fuel u address (recv_id + 1) else Some recv_id)"

text \<open>\<open>connect\<close> up to its \<open>await\<close>, and what it does when the wait ends.\<close>

definition utp_connect :: "bytes \<Rightarrow> 32 word \<Rightarrow> real \<Rightarrow> utp_socket \<Rightarrow> address \<Rightarrow> (utp_socket \<times> utp_connection) option" where
  "utp_connect random_bytes micro now u address =
     (case free_recv_id (2 ^ 16) u address (of_nat (be_value random_bytes)) of
        None \<Rightarrow> None
      | Some recv_id \<Rightarrow>
          let c = new_utp_connection address recv_id;
              u1 = u\<lparr>us_connections := AList.update (connection_key_of c) c (us_connections u)\<rparr>;
              (u2, c2) = send_syn micro now u1 c
          in Some (put_back (u2, c2), c2))"

definition utp_connect_result :: "utp_socket \<Rightarrow> utp_connection \<Rightarrow> (fetch_reason + unit) \<times> utp_socket \<times> utp_connection" where
  "utp_connect_result u c =
     (case uc_connected c of
        None \<Rightarrow> let (u1, c1) = utp_close 0 u c False in (Inl R_connect_timeout, u1, c1)
      | Some True \<Rightarrow> (Inr (), u, c)
      | Some False \<Rightarrow>
          (Inl (case uc_error c of
                  Some R_closed \<Rightarrow> R_closed | Some R_connect_timeout \<Rightarrow> R_connect_timeout | _ \<Rightarrow> R_connect), u, c))"

definition socket_close :: "32 word \<Rightarrow> utp_socket \<Rightarrow> utp_socket" where
  "socket_close micro u =
     (let u1 = foldl (\<lambda>u c. fst (utp_close micro u c True)) u (map snd (us_connections u)) in u1\<lparr>us_transport := False\<rparr>)"

end
