(* ===== verification/Utp_Properties.thy ===== *)
theory Utp_Properties
  imports Utp_Transport
begin

text \<open>
  What the uTP client of \<open>utp_transport.py\<close> guarantees: packets round-trip, the bytes of the peer
  are delivered in order and once, unacknowledged packets are watched, and connection ids are
  distinct.
\<close>

declare map_of_eq_Some_iff [simp del] Some_eq_map_of_iff [simp del]

section \<open>Packets\<close>

lemma word16_bytes: "of_nat (be_value (be_bytes 2 (unat w))) = (w :: 16 word)"
  using unsigned_less[of w, where ?'a = nat] by (simp add: be_value_be_bytes)

lemma word32_bytes: "of_nat (be_value (be_bytes 4 (unat w))) = (w :: 32 word)"
  using unsigned_less[of w, where ?'a = nat] by (simp add: be_value_be_bytes)

text \<open>
  C32: A packet that was encoded decodes to the packet it was made of, for every type, id,
  timestamp, window, sequence number and payload.
\<close>

theorem utp_packet_roundtrip:
  assumes "packet_type \<le> ST_SYN"
  shows "decode_utp_packet (encode_utp_packet packet_type cid ts diff window seq_nr ack_nr payload)
    = Some \<lparr>up_packet_type = packet_type, up_connection_id = cid, up_timestamp = ts, up_timestamp_difference = diff,
        up_window = window, up_seq_nr = seq_nr, up_ack_nr = ack_nr, up_payload = payload\<rparr>"
proof -
  define h where "h = [of_nat (packet_type * 16 + UTP_VERSION), 0 :: byte]"
  define a where "a = be_bytes 2 (unat cid)"
  define b where "b = be_bytes 4 (unat ts)"
  define c where "c = be_bytes 4 (unat diff)"
  define d where "d = be_bytes 4 (unat window)"
  define e where "e = be_bytes 2 (unat seq_nr)"
  define f where "f = be_bytes 2 (unat ack_nr)"
  let ?x = "h @ a @ b @ c @ d @ e @ f @ payload"
  have x: "encode_utp_packet packet_type cid ts diff window seq_nr ack_nr payload = ?x"
    by (simp add: encode_utp_packet_def h_def a_def b_def c_def d_def e_def f_def)
  have len: "length h = 2" "length a = 2" "length b = 4" "length c = 4" "length d = 4" "length e = 2" "length f = 2"
    by (simp_all add: h_def a_def b_def c_def d_def e_def f_def)
  have "unat (of_nat (packet_type * 16 + 1) :: byte) = packet_type * 16 + 1"
    by (rule unat_of_nat8) (use assms in \<open>simp add: ST_SYN_def\<close>)
  then have "unat (?x ! 0) = packet_type * 16 + 1" "?x ! 1 = 0" by (simp_all add: h_def UTP_VERSION_def)
  moreover have "byte_slice ?x 2 4 = a" "byte_slice ?x 4 8 = b" "byte_slice ?x 8 12 = c" "byte_slice ?x 12 16 = d"
    "byte_slice ?x 16 18 = e" "byte_slice ?x 18 20 = f"
    by (simp_all add: byte_slice_def len)
  moreover have "skip_extensions ?x 0 HEADER_SIZE = Some HEADER_SIZE" by (simp add: skip_extensions.simps)
  moreover have "drop HEADER_SIZE ?x = payload" "HEADER_SIZE \<le> length ?x" by (simp_all add: HEADER_SIZE_def len)
  moreover have "(packet_type * 16 + 1) mod 16 = UTP_VERSION" "(packet_type * 16 + 1) div 16 = packet_type"
    unfolding UTP_VERSION_def by presburger+
  ultimately show ?thesis unfolding x decode_utp_packet_def Let_def
    using assms by (simp add: a_def b_def c_def d_def e_def f_def word16_bytes word32_bytes del: drop_append byte_slice_def)
qed

theorem utp_packet_roundtrip_witness:
  "decode_utp_packet (encode_utp_packet ST_DATA 65535 1 2 3 0 65534 [7, 8])
    = Some \<lparr>up_packet_type = ST_DATA, up_connection_id = 65535, up_timestamp = 1, up_timestamp_difference = 2,
        up_window = 3, up_seq_nr = 0, up_ack_nr = 65534, up_payload = [7, 8]\<rparr>"
  by (rule utp_packet_roundtrip) (simp add: utp_consts)

section \<open>Sequence numbers\<close>

lemma word16_offset_eq:
  assumes "(of_nat j :: 16 word) = of_nat k" "j < k + 65536" "k < j + 65536"
  shows "j = k"
proof -
  have m: "j mod 65536 = k mod 65536" using assms(1) by (simp add: word_of_nat_eq_iff take_bit_eq_mod)
  show ?thesis
  proof (cases "j \<le> k")
    case True
    then have "65536 dvd k - j" using m mod_eq_dvd_iff_nat[of j k 65536] by simp
    with assms(3) True show ?thesis using nat_dvd_not_less[of "k - j" 65536] by linarith
  next
    case False
    then have "65536 dvd j - k" using m mod_eq_dvd_iff_nat[of k j 65536] by simp
    with assms(2) False show ?thesis using nat_dvd_not_less[of "j - k" 65536] by linarith
  qed
qed

lemma unat_small16: "n < 65536 \<Longrightarrow> unat (of_nat n :: 16 word) = n"
  by (simp add: unat_of_nat)

text \<open>\<open>sequence_after\<close> compares sequence numbers less than \<open>2^15\<close> apart, across the wrap-around.\<close>

lemma sequence_after_offset:
  assumes "k < n + 32767" "n \<le> k + 32769"
  shows "sequence_after (first + of_nat k) (first + of_nat n - 1) \<longleftrightarrow> n \<le> k"
proof (cases "n \<le> k")
  case True
  have eq: "first + of_nat k - (first + of_nat n - 1) = (of_nat (k - n + 1) :: 16 word)" using True by (simp add: of_nat_diff)
  have "unat (of_nat (k - n + 1) :: 16 word) = k - n + 1" using assms(1) True by (intro unat_small16) simp
  then show ?thesis using True assms unfolding sequence_after_def eq by (auto simp: eq[symmetric])
next
  case False
  have eq: "first + of_nat k - (first + of_nat n - 1) = - (of_nat (n - 1 - k) :: 16 word)" using False by (simp add: of_nat_diff)
  show ?thesis
  proof (cases "n - 1 - k = 0")
    case True
    with False have "n = Suc k" by simp
    then have "first + of_nat k = first + of_nat n - (1 :: 16 word)" by simp
    then show ?thesis using False by (simp add: sequence_after_def)
  next
    case nz: False
    have "- (of_nat (n - 1 - k) :: 16 word) = of_nat 65536 - of_nat (n - 1 - k)" by simp
    also have "\<dots> = of_nat (65536 - (n - 1 - k))" using assms by (intro of_nat_diff[symmetric]) simp
    finally have "unat (- (of_nat (n - 1 - k)) :: 16 word) = 65536 - (n - 1 - k)" using nz by (simp only: unat_small16)
    then have "\<not> unat (- (of_nat (n - 1 - k)) :: 16 word) < 32768" using assms(2) by linarith
    then show ?thesis using False unfolding sequence_after_def eq by blast
  qed
qed

section \<open>Delivery in order\<close>

text \<open>
  The peer numbers its packets from \<open>first\<close> on; packet \<open>k\<close> carries \<open>ps k\<close>. After \<open>n\<close> packets were
  delivered and \<open>taken\<close> was read, what was read and what is buffered are the first \<open>n\<close>
  payloads, and what waits out of order are packets ahead of \<open>n\<close>.
\<close>

definition waiting_ok :: "16 word \<Rightarrow> (nat \<Rightarrow> bytes) \<Rightarrow> nat \<Rightarrow> nat \<Rightarrow> (16 word, bytes) odict \<Rightarrow> bool" where
  "waiting_ok first ps lo hi d \<longleftrightarrow> od_ok d \<and> length d \<le> MAX_OUT_OF_ORDER
     \<and> (\<forall>s p. map_of d s = Some p \<longrightarrow> (\<exists>k. lo \<le> k \<and> k < hi \<and> s = first + of_nat k \<and> p = ps k))"

definition stream_ok :: "16 word \<Rightarrow> (nat \<Rightarrow> bytes) \<Rightarrow> nat \<Rightarrow> bytes \<Rightarrow> utp_connection \<Rightarrow> bool" where
  "stream_ok first ps n taken c \<longleftrightarrow>
     uc_ack_nr c = first + of_nat n - 1 \<and> taken @ uc_buffer c = concat (map ps [0..<n])
     \<and> waiting_ok first ps (n + 1) (n + 32767) (uc_out_of_order c)"

lemma waiting_mono: "waiting_ok first ps lo hi d \<Longrightarrow> lo' \<le> lo \<Longrightarrow> hi \<le> hi' \<Longrightarrow> waiting_ok first ps lo' hi' d"
  unfolding waiting_ok_def by (meson le_trans less_le_trans)

lemma waiting_next:
  assumes "waiting_ok first ps n hi d" "map_of d (first + of_nat n) = None"
  shows "waiting_ok first ps (n + 1) hi d"
  unfolding waiting_ok_def
proof (intro conjI allI impI)
  show "od_ok d" "length d \<le> MAX_OUT_OF_ORDER" using assms(1) by (simp_all add: waiting_ok_def)
  fix s p assume m: "map_of d s = Some p"
  then obtain k where k: "n \<le> k" "k < hi" "s = first + of_nat k" "p = ps k" using assms(1) unfolding waiting_ok_def by blast
  with m assms(2) have "k \<noteq> n" by auto
  with k show "\<exists>k. n + 1 \<le> k \<and> k < hi \<and> s = first + of_nat k \<and> p = ps k" by (intro exI[of _ k]) auto
qed

lemma waiting_delete: "waiting_ok first ps lo hi d \<Longrightarrow> waiting_ok first ps lo hi (AList.delete s d)"
  using length_delete_le[of s d] unfolding waiting_ok_def by (auto simp: dict_simps intro: order_trans)

text \<open>The loop delivers packets until the next one is missing.\<close>

lemma deliver_following_ok:
  "uc_ack_nr c = first + of_nat n - 1 \<Longrightarrow> taken @ uc_buffer c = concat (map ps [0..<n]) \<Longrightarrow>
     waiting_ok first ps n (n + 32766) (uc_out_of_order c) \<Longrightarrow>
     \<exists>m. m \<le> length (uc_out_of_order c) \<and> stream_ok first ps (n + m) taken (deliver_following c)"
proof (induction c arbitrary: n rule: deliver_following.induct)
  case (1 c)
  have nx: "uc_ack_nr c + 1 = first + of_nat n" using "1.prems"(1) by simp
  show ?case
  proof (cases "map_of (uc_out_of_order c) (uc_ack_nr c + 1)")
    case None
    have "waiting_ok first ps (n + 1) (n + 32767) (uc_out_of_order c)"
      by (rule waiting_next) (use waiting_mono[OF "1.prems"(3), of n "n + 32767"] None nx in auto)
    then have "stream_ok first ps n taken c" using "1.prems" by (simp add: stream_ok_def)
    then show ?thesis using None by (intro exI[of _ 0]) (simp add: deliver_following.simps)
  next
    case (Some payload)
    let ?d = "AList.delete (uc_ack_nr c + 1) (uc_out_of_order c)"
    let ?c = "deliver (c\<lparr>uc_out_of_order := ?d\<rparr>) (uc_ack_nr c + 1) payload"
    obtain k where k: "n \<le> k" "k < n + 32766" "first + of_nat n = first + of_nat k" "payload = ps k"
      using "1.prems"(3) Some nx unfolding waiting_ok_def by metis
    have "k = n" using word16_offset_eq[of k n] k by simp
    then have buf: "taken @ uc_buffer ?c = concat (map ps [0..<n + 1])" using "1.prems"(2) k by (simp add: deliver_def flip: append_assoc)
    have "waiting_ok first ps (n + 1) (n + 32766) ?d"
      by (rule waiting_next[OF waiting_delete[OF "1.prems"(3)]]) (simp add: dict_simps nx)
    then have wait: "waiting_ok first ps (n + 1) (n + 1 + 32766) (uc_out_of_order ?c)"
      using waiting_mono[of first ps "n + 1" "n + 32766" ?d "n + 1" "n + 1 + 32766"] by (simp add: deliver_def)
    have ack: "uc_ack_nr ?c = first + of_nat (n + 1) - 1" using nx by (simp add: deliver_def)
    from "1.IH"[OF Some ack buf wait] obtain m where m: "m \<le> length (uc_out_of_order ?c)"
      "stream_ok first ps (n + 1 + m) taken (deliver_following ?c)" by blast
    have "od_ok (uc_out_of_order c)" using "1.prems"(3) by (simp add: waiting_ok_def)
    then have "Suc (length ?d) = length (uc_out_of_order c)"
      using length_delete_old[of "uc_out_of_order c" "uc_ack_nr c + 1"] map_of_SomeD[OF Some] by (force simp: image_iff)
    then have "n + 1 + m = n + Suc m" "Suc m \<le> length (uc_out_of_order c)" using m(1) by (simp_all add: deliver_def)
    then show ?thesis using m(2) Some by (intro exI[of _ "Suc m"]) (simp add: deliver_following.simps[of c])
  qed
qed

lemma waiting_insert:
  assumes "waiting_ok first ps lo hi d" "length d < MAX_OUT_OF_ORDER" "lo \<le> k" "k < hi"
  shows "waiting_ok first ps lo hi (AList.update (first + of_nat k) (ps k) d)"
  using assms length_update_le[of "first + of_nat k" "ps k" d] unfolding waiting_ok_def by (auto simp: dict_simps)

lemma stream_ok_cong:
  "uc_ack_nr c' = uc_ack_nr c \<Longrightarrow> uc_buffer c' = uc_buffer c \<Longrightarrow> uc_out_of_order c' = uc_out_of_order c \<Longrightarrow>
     stream_ok first ps n taken c' = stream_ok first ps n taken c"
  by (simp add: stream_ok_def)

lemma schedule_ack_simps [simp]:
  "uc_ack_nr (schedule_ack c) = uc_ack_nr c" "uc_buffer (schedule_ack c) = uc_buffer c"
  "uc_out_of_order (schedule_ack c) = uc_out_of_order c"
  by (simp_all add: schedule_ack_def)

lemma data_received_ok:
  assumes ok: "stream_ok first ps n taken c" and win: "k < n + 32767" "n \<le> k + 32769"
  shows "\<exists>m. m \<le> Suc MAX_OUT_OF_ORDER \<and> stream_ok first ps (n + m) taken (data_received c (first + of_nat k) (ps k)) \<and> (k = n \<longrightarrow> 0 < m)"
proof -
  have ack: "uc_ack_nr c = first + of_nat n - 1" and buf: "taken @ uc_buffer c = concat (map ps [0..<n])"
    and wait: "waiting_ok first ps (n + 1) (n + 32767) (uc_out_of_order c)" using ok by (simp_all add: stream_ok_def)
  show ?thesis
  proof (cases "k = n")
    case True
    let ?c = "deliver c (first + of_nat n) (ps n)"
    have "\<exists>m. m \<le> length (uc_out_of_order ?c) \<and> stream_ok first ps (n + 1 + m) taken (deliver_following ?c)"
      by (rule deliver_following_ok)
        (use buf wait in \<open>simp_all add: deliver_def add.commute[of n 32767] flip: append_assoc\<close>)
    then obtain m where m: "m \<le> length (uc_out_of_order c)" "stream_ok first ps (n + Suc m) taken (deliver_following ?c)"
      by (auto simp: deliver_def)
    have "m \<le> MAX_OUT_OF_ORDER" using m(1) wait by (simp add: waiting_ok_def)
    with m(2) True ack show ?thesis
      by (intro exI[of _ "Suc m"]) (simp add: data_received_def stream_ok_cong[of "schedule_ack _"])
  next
    case False
    have "first + of_nat k \<noteq> uc_ack_nr c + 1" using word16_offset_eq[of k n] False win ack by auto
    moreover have "sequence_after (first + of_nat k) (uc_ack_nr c) \<longleftrightarrow> n \<le> k"
      unfolding ack by (rule sequence_after_offset[OF win])
    moreover have "stream_ok first ps n taken (c\<lparr>uc_out_of_order := AList.update (first + of_nat k) (ps k) (uc_out_of_order c)\<rparr>)"
      if "n \<le> k" "length (uc_out_of_order c) < MAX_OUT_OF_ORDER"
      using waiting_insert[OF wait that(2)] that(1) False win ack buf by (simp add: stream_ok_def)
    ultimately have "stream_ok first ps n taken (data_received c (first + of_nat k) (ps k))"
      using ok by (simp add: data_received_def stream_ok_cong[of "schedule_ack _"])
    with False show ?thesis by (intro exI[of _ 0]) simp
  qed
qed

text \<open>
  What happens to an open connection: data packets of the peer arrive in any order and any
  number of times, a packet at most \<open>2^15\<close> numbers away from the next expected one,
  acknowledgements arrive, and the session reads. The state is the number of packets
  delivered, the bytes read so far and the connection.
\<close>

inductive utp_step :: "16 word \<Rightarrow> (nat \<Rightarrow> bytes) \<Rightarrow> nat \<times> bytes \<times> utp_connection \<Rightarrow> nat \<times> bytes \<times> utp_connection \<Rightarrow> bool"
  for first ps where
  step_data: "\<not> uc_closed c \<Longrightarrow> uc_connected_state c \<Longrightarrow> up_packet_type p = ST_DATA \<Longrightarrow> up_seq_nr p = first + of_nat k \<Longrightarrow>
     up_payload p = ps k \<Longrightarrow> k < n + 32767 \<Longrightarrow> n \<le> k + 32769 \<Longrightarrow> c' = snd (packet_received micro u c p) \<Longrightarrow>
     utp_step first ps (n, taken, c) (n + unat (uc_ack_nr c' - uc_ack_nr c), taken, c')"
| step_state: "\<not> uc_closed c \<Longrightarrow> uc_connected_state c \<Longrightarrow> up_packet_type p = ST_STATE \<Longrightarrow>
     utp_step first ps (n, taken, c) (n, taken, snd (packet_received micro u c p))"
| step_read: "utp_read_pass now c len deadline closed_reason = (UtpData data, c') \<Longrightarrow>
     utp_step first ps (n, taken, c) (n, taken @ data, c')"

definition utp_start :: "16 word \<Rightarrow> nat \<times> bytes \<times> utp_connection \<Rightarrow> bool" where
  "utp_start first x \<longleftrightarrow> (\<exists>c. x = (0, [], c) \<and> uc_ack_nr c = first - 1 \<and> uc_buffer c = [] \<and> uc_out_of_order c = [])"

lemma acknowledge_simps [simp]:
  "uc_ack_nr (acknowledge c a) = uc_ack_nr c" "uc_buffer (acknowledge c a) = uc_buffer c"
  "uc_out_of_order (acknowledge c a) = uc_out_of_order c"
  by (simp_all add: acknowledge_def)

lemma ack_advance:
  assumes "stream_ok first ps n taken c" "stream_ok first ps (n + m) taken' c'" "m \<le> Suc MAX_OUT_OF_ORDER"
  shows "unat (uc_ack_nr c' - uc_ack_nr c) = m"
proof -
  have "uc_ack_nr c' - uc_ack_nr c = of_nat m" using assms(1,2) by (simp add: stream_ok_def)
  with assms(3) show ?thesis by (simp add: unat_small16 MAX_OUT_OF_ORDER_def)
qed

lemma packet_received_data:
  assumes "\<not> uc_closed c" "uc_connected_state c" "up_packet_type p = ST_DATA"
  shows "snd (packet_received micro u c p)
    = data_received (acknowledge (c\<lparr>uc_reply_micro := micro - up_timestamp p\<rparr>) (up_ack_nr p)) (up_seq_nr p) (up_payload p)"
  using assms by (simp add: packet_received_def Let_def utp_consts)

lemma utp_step_ok:
  assumes "utp_step first ps x y" "case x of (n, taken, c) \<Rightarrow> stream_ok first ps n taken c"
  shows "case y of (n, taken, c) \<Rightarrow> stream_ok first ps n taken c"
  using assms
proof cases
  case (step_data c p k n c' micro u taken)
  let ?c = "acknowledge (c\<lparr>uc_reply_micro := micro - up_timestamp p\<rparr>) (up_ack_nr p)"
  have ok: "stream_ok first ps n taken c" "stream_ok first ps n taken ?c" using assms(2) step_data(1) by (simp_all add: stream_ok_def)
  have c': "c' = data_received ?c (first + of_nat k) (ps k)" using step_data packet_received_data by simp
  obtain m where m: "m \<le> Suc MAX_OUT_OF_ORDER" "stream_ok first ps (n + m) taken c'"
    using data_received_ok[OF ok(2) step_data(8,9)] c' by blast
  with ack_advance[OF ok(1) m(2,1)] step_data(2) show ?thesis by simp
next
  case (step_state c p n taken micro u)
  then show ?thesis using assms(2) by (simp add: packet_received_def Let_def utp_consts stream_ok_def)
next
  case (step_read now c len deadline closed_reason data c' n taken)
  then show ?thesis using assms(2) by (auto simp: utp_read_pass_def stream_ok_def split: if_splits)
qed

interpretation utp_receiver: invariant_system "utp_start first" "utp_step first ps" "\<lambda>(n, taken, c). stream_ok first ps n taken c"
  for first ps
proof unfold_locales
  show "utp_start first s \<Longrightarrow> case s of (n, taken, c) \<Rightarrow> stream_ok first ps n taken c" for s
    by (auto simp: utp_start_def stream_ok_def waiting_ok_def)
qed (rule utp_step_ok)

text \<open>
  C9: uTP delivers the peer's bytes in order, each once: however the data packets are
  reordered or repeated, what the session has read and what is buffered are the payloads of
  the first \<open>n\<close> packets, \<open>n\<close> being the number acknowledged; nothing waits that is next in
  line, and at most \<open>MAX_OUT_OF_ORDER\<close> packets wait.
\<close>

theorem utp_delivers_in_order:
  assumes "utp_start first s" and "(utp_step first ps)\<^sup>*\<^sup>* s (n, taken, c)"
  shows "taken @ uc_buffer c = concat (map ps [0..<n]) \<and> uc_ack_nr c = first + of_nat n - 1
    \<and> uc_ack_nr c + 1 \<notin> fst ` set (uc_out_of_order c) \<and> length (uc_out_of_order c) \<le> MAX_OUT_OF_ORDER"
proof -
  have ok: "stream_ok first ps n taken c" using utp_receiver.reachable_inv[OF assms] by simp
  then have wait: "waiting_ok first ps (n + 1) (n + 32767) (uc_out_of_order c)" and ack: "uc_ack_nr c + 1 = first + of_nat n"
    by (simp_all add: stream_ok_def)
  have "map_of (uc_out_of_order c) (first + of_nat n) = None"
  proof (rule ccontr)
    assume "map_of (uc_out_of_order c) (first + of_nat n) \<noteq> None"
    then obtain k where "n + 1 \<le> k" "k < n + 32767" "first + of_nat n = first + of_nat k"
      using wait unfolding waiting_ok_def by blast
    then show False using word16_offset_eq[of k n] by simp
  qed
  then show ?thesis using ok wait unfolding ack by (simp add: stream_ok_def waiting_ok_def map_of_eq_None_iff)
qed

lemma deliver_following_step:
  "map_of (uc_out_of_order c) (uc_ack_nr c + 1) = None \<Longrightarrow> deliver_following c = c"
  "map_of (uc_out_of_order c) (uc_ack_nr c + 1) = Some payload \<Longrightarrow> deliver_following c = deliver_following
     (deliver (c\<lparr>uc_out_of_order := AList.delete (uc_ack_nr c + 1) (uc_out_of_order c)\<rparr>) (uc_ack_nr c + 1) payload)"
  by (simp_all add: deliver_following.simps[of c])

definition sample_connection :: utp_connection where
  "sample_connection = (new_utp_connection (''4.4.4.4'', 6881) 5)\<lparr>uc_ack_nr := 65534, uc_connected_state := True\<rparr>"

definition sample_packet :: "16 word \<Rightarrow> bytes \<Rightarrow> utp_packet" where
  "sample_packet seq payload = \<lparr>up_packet_type = ST_DATA, up_connection_id = 6, up_timestamp = 0, up_timestamp_difference = 0,
     up_window = 0, up_seq_nr = seq, up_ack_nr = 1, up_payload = payload\<rparr>"

text \<open>Packet 1 (number 0, after the wrap-around) arrives before packet 0 (number 65535).\<close>

theorem utp_delivers_in_order_witness:
  "\<exists>c n. (utp_step 65535 (\<lambda>k. [of_nat k]))\<^sup>*\<^sup>* (0, [], sample_connection) (n, [], c)
     \<and> uc_buffer c = [0, 1] \<and> uc_ack_nr c = 65535 + of_nat n - 1"
proof -
  define c1 where "c1 = snd (packet_received 0 new_utp_socket sample_connection (sample_packet 0 [1]))"
  define c2 where "c2 = snd (packet_received 0 new_utp_socket c1 (sample_packet 65535 [0]))"
  have c1: "c1 = data_received (acknowledge sample_connection 1) 0 [1]"
    unfolding c1_def by (subst packet_received_data) (simp_all add: sample_connection_def sample_packet_def new_utp_connection_def)
  have f1: "uc_ack_nr c1 = 65534" "uc_out_of_order c1 = [(0, [1])]" "uc_buffer c1 = []" "\<not> uc_closed c1" "uc_connected_state c1"
    by (simp_all add: c1 data_received_def sample_connection_def new_utp_connection_def acknowledge_def sequence_after_def
        MAX_OUT_OF_ORDER_def schedule_ack_def)
  have c2: "c2 = data_received (acknowledge (c1\<lparr>uc_reply_micro := 0\<rparr>) 1) 65535 [0]"
    unfolding c2_def by (subst packet_received_data) (simp_all add: sample_packet_def f1)
  define d where "d = deliver (acknowledge (c1\<lparr>uc_reply_micro := 0\<rparr>) 1) 65535 [0]"
  define e where "e = deliver (d\<lparr>uc_out_of_order := []\<rparr>) 0 [1]"
  have fd: "uc_ack_nr d + 1 = 0" "uc_out_of_order d = [(0, [1])]" "uc_buffer d = [0]" by (simp_all add: d_def deliver_def f1)
  have "deliver_following d = deliver_following e" by (subst deliver_following_step(2)[of _ "[1]"]) (simp_all add: fd e_def)
  also have "\<dots> = e" by (rule deliver_following_step(1)) (simp add: e_def deliver_def)
  finally have "c2 = schedule_ack e" by (simp add: c2 data_received_def f1 flip: d_def)
  then have f2: "uc_buffer c2 = [0, 1]" by (simp add: e_def deliver_def fd)
  have "utp_step 65535 (\<lambda>k. [of_nat k]) (0, [], sample_connection) (0 + unat (uc_ack_nr c1 - uc_ack_nr sample_connection), [], c1)"
    by (rule step_data[where k = 1 and micro = 0 and u = new_utp_socket and p = "sample_packet 0 [1]"])
      (simp_all add: c1_def sample_packet_def sample_connection_def new_utp_connection_def)
  also have "0 + unat (uc_ack_nr c1 - uc_ack_nr sample_connection) = 0" by (simp add: f1 sample_connection_def)
  finally have s1: "utp_step 65535 (\<lambda>k. [of_nat k]) (0, [], sample_connection) (0, [], c1)" .
  have s2: "utp_step 65535 (\<lambda>k. [of_nat k]) (0, [], c1) (0 + unat (uc_ack_nr c2 - uc_ack_nr c1), [], c2)"
    by (rule step_data[where k = 0 and micro = 0 and u = new_utp_socket and p = "sample_packet 65535 [0]"])
      (simp_all add: c2_def sample_packet_def f1)
  have run: "(utp_step 65535 (\<lambda>k. [of_nat k]))\<^sup>*\<^sup>* (0, [], sample_connection) (0 + unat (uc_ack_nr c2 - uc_ack_nr c1), [], c2)"
    by (rule converse_rtranclp_into_rtranclp, rule s1, rule r_into_rtranclp, rule s2)
  have "utp_start 65535 (0, [], sample_connection)" by (simp add: utp_start_def sample_connection_def new_utp_connection_def)
  from utp_delivers_in_order[OF this run] run f2 show ?thesis by blast
qed

section \<open>Resending\<close>

lemma resend_due_step:
  "resend_due now u address ((seq, packet, sent, tries) # entries) =
     (if now - sent < INITIAL_RESEND_SECONDS * 2 ^ tries
      then (fst (resend_due now u address entries), (seq, packet, sent, tries) # fst (snd (resend_due now u address entries)),
            snd (snd (resend_due now u address entries)))
      else if tries \<ge> MAX_RESENDS then (u, (seq, packet, sent, tries) # entries, False)
      else (fst (resend_due now (socket_send u packet address) address entries),
            (seq, packet, now, tries + 1) # fst (snd (resend_due now (socket_send u packet address) address entries)),
            snd (snd (resend_due now (socket_send u packet address) address entries))))"
  by (simp split: prod.splits)

lemmas resend_due_cases = resend_due.simps(1) resend_due_step

declare resend_due.simps(2) [simp del]

lemma resend_due_in_time:
  "snd (snd (resend_due now u address entries)) \<Longrightarrow> (seq, packet, sent, tries) \<in> set (fst (snd (resend_due now u address entries))) \<Longrightarrow>
     now - sent < INITIAL_RESEND_SECONDS * 2 ^ tries"
  by (induction now u address entries rule: resend_due.induct)
    (auto simp: resend_due_step INITIAL_RESEND_SECONDS_def split: if_splits)

lemma resend_due_tries:
  "\<forall>e \<in> set entries. snd (snd (snd e)) \<le> MAX_RESENDS \<Longrightarrow> e \<in> set (fst (snd (resend_due now u address entries))) \<Longrightarrow>
     snd (snd (snd e)) \<le> MAX_RESENDS"
  by (induction now u address entries rule: resend_due.induct) (auto simp: resend_due_step split: if_splits)

lemma resend_due_keys: "map fst (fst (snd (resend_due now u address entries))) = map fst entries"
  by (induction now u address entries rule: resend_due.induct) (auto simp: resend_due_step)

lemma resend_due_connections: "us_connections (fst (resend_due now u address entries)) = us_connections u"
  by (induction now u address entries rule: resend_due.induct) (auto simp: resend_due_step socket_send_def)

text \<open>The connection invariant of the resend timer: a packet that waits for its acknowledgement is watched.\<close>

definition watched :: "utp_connection \<Rightarrow> bool" where
  "watched c \<longleftrightarrow> (\<not> uc_closed c \<and> uc_unacked c \<noteq> [] \<longrightarrow> uc_resend_timer c)
     \<and> (\<forall>e \<in> set (uc_unacked c). snd (snd (snd e)) \<le> MAX_RESENDS)"

lemma watched_arm: "\<forall>e \<in> set (uc_unacked c). snd (snd (snd e)) \<le> MAX_RESENDS \<Longrightarrow> watched (arm_resend c)"
  by (auto simp: watched_def arm_resend_def)

lemma write_chunks_few:
  "\<forall>e \<in> set (uc_unacked c). snd (snd (snd e)) \<le> MAX_RESENDS \<Longrightarrow>
     \<forall>e \<in> set (uc_unacked (snd (write_chunks micro now u c chs))). snd (snd (snd e)) \<le> MAX_RESENDS"
proof (induction micro now u c chs rule: write_chunks.induct)
  case (2 micro now u c chunk rest)
  obtain packet u1 where p: "send_packet micro u c ST_DATA (uc_seq_nr c) chunk = (packet, u1)" by fastforce
  have "\<forall>e \<in> set (uc_unacked (c\<lparr>uc_unacked := AList.update (uc_seq_nr c) (packet, now, 0) (uc_unacked c), uc_seq_nr := uc_seq_nr c + 1\<rparr>)).
      snd (snd (snd e)) \<le> MAX_RESENDS" using "2.prems" by (auto dest!: set_updateD)
  from "2.IH"[OF p[symmetric] refl this] show ?case by (simp add: p)
qed simp



section \<open>Connection ids\<close>

lemma free_recv_id_result:
  "free_recv_id fuel u address recv_id = Some i \<Longrightarrow> (fst address, snd address, i) \<notin> fst ` set (us_connections u)"
  "free_recv_id fuel u address recv_id = None \<Longrightarrow> j < fuel \<Longrightarrow> (fst address, snd address, recv_id + of_nat j) \<in> fst ` set (us_connections u)"
proof -
  show "free_recv_id fuel u address recv_id = Some i \<Longrightarrow> (fst address, snd address, i) \<notin> fst ` set (us_connections u)"
    by (induction fuel u address recv_id rule: free_recv_id.induct) (auto split: if_splits)
  show "free_recv_id fuel u address recv_id = None \<Longrightarrow> j < fuel \<Longrightarrow> (fst address, snd address, recv_id + of_nat j) \<in> fst ` set (us_connections u)"
  proof (induction fuel u address recv_id arbitrary: j rule: free_recv_id.induct)
    case (2 fuel u address recv_id)
    show ?case
    proof (cases j)
      case 0
      with 2 show ?thesis by (auto split: if_splits)
    next
      case (Suc i)
      with 2 have "(fst address, snd address, recv_id + 1 + of_nat i) \<in> fst ` set (us_connections u)" by (auto split: if_splits)
      with Suc show ?thesis by (simp add: add.assoc)
    qed
  qed simp
qed

text \<open>
  C34: The search for a free connection id ends with one as long as the socket has fewer than
  \<open>2^16\<close> connections, so a new connection never takes the place of another one in the table.
\<close>

theorem utp_connect_finds_id:
  assumes "length (us_connections u) < 2 ^ 16"
  shows "\<exists>recv_id. free_recv_id (2 ^ 16) u address start = Some recv_id
    \<and> (fst address, snd address, recv_id) \<notin> fst ` set (us_connections u)"
proof (cases "free_recv_id (2 ^ 16) u address start")
  case None
  let ?f = "\<lambda>j. (fst address, snd address, start + (of_nat j :: 16 word))"
  have "inj_on ?f {0..<2 ^ 16}" using word16_offset_eq by (fastforce simp: inj_on_def)
  then have "card (?f ` {0..<2 ^ 16}) = 2 ^ 16" by (simp add: card_image)
  moreover have "?f ` {0..<2 ^ 16} \<subseteq> fst ` set (us_connections u)" using free_recv_id_result(2)[OF None] by auto
  then have "card (?f ` {0..<2 ^ 16}) \<le> card (fst ` set (us_connections u))" by (rule card_mono[rotated]) simp
  moreover have "card (fst ` set (us_connections u)) \<le> length (us_connections u)"
    by (metis card_image_le card_length finite_set le_trans)
  ultimately show ?thesis using assms by simp
qed (use free_recv_id_result(1) in blast)

theorem utp_connect_finds_id_witness:
  "\<exists>recv_id. free_recv_id (2 ^ 16) (new_utp_socket\<lparr>us_connections := [((''a'', 1, 7), sample_connection)]\<rparr>) (''a'', 1) 7 = Some recv_id
    \<and> recv_id \<noteq> 7"
  using utp_connect_finds_id[of "new_utp_socket\<lparr>us_connections := [((''a'', 1, 7), sample_connection)]\<rparr>" "(''a'', 1)" 7]
  by auto

end
