(* ===== verification/Dht_Node_Sockets.thy ===== *)
theory Dht_Node_Sockets
  imports Fallible_State Node_Identity
begin

text \<open>
  The UDP sockets of \<open>dht_node_sockets.py\<close>. The operating system is a record of open
  descriptors; which of its calls fail, and the port a socket is bound to, are given by the
  environment \<open>socket_env\<close>, indexed by the number of calls made so far.
\<close>

section \<open>Model\<close>

datatype family = AF_INET | AF_INET6

record node_socket =
  udp_socket :: nat
  own_id :: bytes
  ns_port :: int
  ns_family :: family

definition MAX_NODES :: nat where "MAX_NODES = 64"

datatype socket_error = SocketAssertion | SocketOSError

record os_state =
  os_open :: "nat set"
  os_next :: nat
  os_calls :: nat

text \<open>
  \<open>se_succeeds n\<close>: call number \<open>n\<close> (\<open>socket\<close>, \<open>setsockopt\<close> or \<open>bind\<close>) raises no
  \<open>OSError\<close>; \<open>se_ephemeral n\<close> is the port the system chooses then for port 0.
\<close>

record socket_env =
  se_succeeds :: "nat \<Rightarrow> bool"
  se_ephemeral :: "nat \<Rightarrow> int"
  se_urandom :: "nat \<Rightarrow> nat \<Rightarrow> bytes"

type_synonym 'a os = "(socket_error, os_state, 'a) fallible"

definition os_call :: "socket_env \<Rightarrow> bool os" where
  "os_call E s = (Inr (se_succeeds E (os_calls s)), s\<lparr>os_calls := os_calls s + 1\<rparr>)"

definition open_socket :: "socket_env \<Rightarrow> nat os" where
  "open_socket E = io_bind (os_call E) (\<lambda>ok.
     if \<not> ok then io_raise SocketOSError
     else io_bind (io_get os_next) (\<lambda>fd.
       io_seq (io_update (\<lambda>s. s\<lparr>os_open := insert fd (os_open s), os_next := os_next s + 1\<rparr>)) (io_return fd)))"

definition close_socket :: "nat \<Rightarrow> unit os" where
  "close_socket fd = io_update (\<lambda>s. s\<lparr>os_open := os_open s - {fd}\<rparr>)"

text \<open>\<open>IPV6_V6ONLY\<close> for IPv6, then \<open>bind\<close>; either may raise, and the result is \<open>getsockname()[1]\<close>.\<close>

definition bind_socket :: "socket_env \<Rightarrow> int \<Rightarrow> family \<Rightarrow> int os" where
  "bind_socket E port fam =
     io_bind (if fam = AF_INET6 then os_call E else io_return True) (\<lambda>ok1.
       if \<not> ok1 then io_raise SocketOSError
       else io_bind (os_call E) (\<lambda>ok2.
         if \<not> ok2 then io_raise SocketOSError
         else io_bind (io_get os_calls) (\<lambda>n. io_return (if port = 0 then se_ephemeral E n else port))))"

text \<open>\<open>try: m; except OSError: handler; raise\<close>.\<close>

definition on_os_error :: "'a os \<Rightarrow> unit os \<Rightarrow> 'a os" where
  "on_os_error m handler s =
     (case m s of
        (Inl SocketOSError, s1) \<Rightarrow> (Inl SocketOSError, snd (handler s1))
      | result \<Rightarrow> result)"

definition create_udp_socket :: "socket_env \<Rightarrow> int \<Rightarrow> family \<Rightarrow> (nat \<times> int) os" where
  "create_udp_socket E port fam =
     io_seq (io_assert (0 \<le> port \<and> port \<le> 65535) SocketAssertion)
       (io_bind (open_socket E) (\<lambda>fd.
         io_bind (on_os_error (bind_socket E port fam) (close_socket fd)) (\<lambda>bound_port.
           io_seq (io_for (\<lambda>_. io_seq (os_call E) (io_return ())) [(), ()])
             (io_return (fd, bound_port)))))"

definition close_node_sockets :: "node_socket list \<Rightarrow> unit os" where
  "close_node_sockets nodes = io_for (\<lambda>n. close_socket (udp_socket n)) nodes"

definition new_own_id :: "socket_env \<Rightarrow> bytes list option \<Rightarrow> nat \<Rightarrow> bytes os" where
  "new_own_id E own_ids index =
     (case own_ids of
        Some ids \<Rightarrow> io_return (ids ! index)
      | None \<Rightarrow> io_bind (io_get os_calls) (\<lambda>n.
          io_seq (io_update (\<lambda>s. s\<lparr>os_calls := os_calls s + 1\<rparr>)) (io_return (generate_node_id (se_urandom E n)))))"

text \<open>
  The loop over the indexes. The handler that closes the sockets made so far stands around
  each socket's creation with the list as it is then, which is the list when it raises.
\<close>

fun create_loop ::
    "socket_env \<Rightarrow> int \<Rightarrow> family \<Rightarrow> bytes list option \<Rightarrow> nat list \<Rightarrow> node_socket list \<Rightarrow> node_socket list os" where
  "create_loop E base_port fam own_ids [] nodes = io_return nodes"
| "create_loop E base_port fam own_ids (index # indexes) nodes =
     io_bind (on_os_error (create_udp_socket E (if base_port = 0 then 0 else base_port + int index) fam)
               (close_node_sockets nodes)) (\<lambda>(fd, bound_port).
       io_bind (new_own_id E own_ids index) (\<lambda>own.
         create_loop E base_port fam own_ids indexes
           (nodes @ [\<lparr>udp_socket = fd, own_id = own, ns_port = bound_port, ns_family = fam\<rparr>])))"

definition create_node_sockets ::
    "socket_env \<Rightarrow> int \<Rightarrow> nat \<Rightarrow> family \<Rightarrow> bytes list option \<Rightarrow> node_socket list os" where
  "create_node_sockets E base_port num fam own_ids =
     io_seq (io_assert (1 \<le> num \<and> num \<le> MAX_NODES \<and> 0 \<le> base_port \<and> base_port \<le> 65535
               \<and> (case own_ids of None \<Rightarrow> True | Some ids \<Rightarrow> length ids = num)
               \<and> (base_port = 0 \<or> base_port + int num - 1 \<le> 65535)) SocketAssertion)
       (io_bind (create_loop E base_port fam own_ids [0..<num] []) (\<lambda>nodes.
         io_seq (io_assert (length nodes = num \<and> card (set (map own_id nodes)) = num) SocketAssertion)
           (io_return nodes)))"

definition own_id_suffixes :: "node_socket list \<Rightarrow> bytes set" where
  "own_id_suffixes nodes = (\<lambda>n. drop NEIGHBOR_PREFIX_LENGTH (own_id n)) ` set nodes"

section \<open>Lemmas\<close>

definition fresh_os :: "os_state \<Rightarrow> bool" where
  "fresh_os s \<longleftrightarrow> os_open s \<subseteq> {..<os_next s}"

lemma fresh_mono:
  "fresh_os s \<Longrightarrow> os_open s' \<subseteq> insert (os_next s) (os_open s) \<Longrightarrow> os_next s' = Suc (os_next s) \<Longrightarrow> fresh_os s'"
  by (force simp: fresh_os_def)

lemma fresh_same: "fresh_os s \<Longrightarrow> os_open s' = os_open s \<Longrightarrow> os_next s' = os_next s \<Longrightarrow> fresh_os s'"
  by (simp add: fresh_os_def)

lemmas socket_steps = create_udp_socket_def io_seq_def io_bind_def io_assert_def io_return_def io_raise_def open_socket_def
  os_call_def io_get_def io_update_def on_os_error_def bind_socket_def close_socket_def

text \<open>What a creation leaves behind: on \<open>OSError\<close> nothing, otherwise one more open socket.\<close>

lemma create_udp_socket_result:
  assumes "create_udp_socket E port fam s = (res, s')" "fresh_os s"
  shows "fresh_os s'
    \<and> (case res of Inl e \<Rightarrow> os_open s' = os_open s \<and> (0 \<le> port \<and> port \<le> 65535 \<longrightarrow> e = SocketOSError)
        | Inr (fd, bound) \<Rightarrow> fd \<notin> os_open s \<and> os_open s' = insert fd (os_open s) \<and> (port \<noteq> 0 \<longrightarrow> bound = port))"
proof -
  have new: "os_next s \<notin> os_open s" using assms(2) by (auto simp: fresh_os_def)
  with assms show ?thesis
    by (auto simp: socket_steps intro: fresh_mono[OF assms(2)] fresh_same[OF assms(2)] split: if_splits prod.splits sum.splits socket_error.splits)
qed

lemma close_node_sockets_result:
  "close_node_sockets nodes s = (Inr (), s\<lparr>os_open := os_open s - udp_socket ` set nodes\<rparr>)"
  by (induction nodes arbitrary: s)
    (auto simp: close_node_sockets_def io_return_def io_seq_def io_bind_def close_socket_def io_update_def Diff_insert2[symmetric])

definition holds_sockets :: "nat set \<Rightarrow> node_socket list \<Rightarrow> os_state \<Rightarrow> bool" where
  "holds_sockets before nodes s \<longleftrightarrow>
     fresh_os s \<and> os_open s = before \<union> udp_socket ` set nodes \<and> before \<inter> udp_socket ` set nodes = {}
     \<and> distinct (map udp_socket nodes)"

lemma new_own_id_result: "\<exists>own n. new_own_id E own_ids i s = (Inr own, s\<lparr>os_calls := n\<rparr>)"
  by (cases own_ids)
    (auto simp: new_own_id_def io_return_def io_bind_def io_get_def io_seq_def io_update_def intro: exI[of _ "os_calls s"])

lemma create_loop_result:
  assumes "create_loop E base_port fam own_ids indexes nodes s = (res, s')" "holds_sockets before nodes s"
    "\<forall>i \<in> set indexes. 0 \<le> base_port \<and> base_port + int i \<le> 65535 \<or> base_port = 0"
  shows "case res of Inl e \<Rightarrow> e = SocketOSError \<and> os_open s' = before
      | Inr result \<Rightarrow> holds_sockets before result s'
          \<and> (\<exists>new. result = nodes @ new \<and> length new = length indexes
             \<and> (\<forall>k < length new. ns_family (new ! k) = fam \<and> (base_port \<noteq> 0 \<longrightarrow> ns_port (new ! k) = base_port + int (indexes ! k))))"
  using assms
proof (induction indexes arbitrary: nodes s)
  case Nil
  then show ?case by (auto simp: io_return_def)
next
  case (Cons i ixs)
  let ?port = "if base_port = 0 then 0 else base_port + int i"
  have port: "0 \<le> ?port" "?port \<le> 65535" using Cons.prems(3) by auto
  obtain r1 s1 where c: "create_udp_socket E ?port fam s = (r1, s1)" by fastforce
  note res = create_udp_socket_result[OF c]
  have fresh: "fresh_os s" using Cons.prems(2) by (simp add: holds_sockets_def)
  show ?case
  proof (cases r1)
    case (Inl e)
    have "e = SocketOSError" using res fresh Inl port by simp
    moreover have "os_open s1 = os_open s" using res fresh Inl by simp
    moreover have "os_open s - udp_socket ` set nodes = before" using Cons.prems(2) unfolding holds_sockets_def by blast
    ultimately show ?thesis using Cons.prems(1) c Inl
      by (auto simp: io_bind_def on_os_error_def close_node_sockets_result)
  next
    case (Inr p)
    obtain fd bound where p: "p = (fd, bound)" by (cases p)
    obtain own n where own: "new_own_id E own_ids i s1 = (Inr own, s1\<lparr>os_calls := n\<rparr>)" using new_own_id_result by blast
    let ?node = "\<lparr>udp_socket = fd, own_id = own, ns_port = bound, ns_family = fam\<rparr>"
    have hold: "holds_sockets before (nodes @ [?node]) (s1\<lparr>os_calls := n\<rparr>)"
      using res fresh Inr p Cons.prems(2) by (auto simp: holds_sockets_def fresh_os_def)
    have bound: "base_port \<noteq> 0 \<longrightarrow> bound = base_port + int i" using res fresh Inr p Cons.prems(3) by auto
    have "create_loop E base_port fam own_ids ixs (nodes @ [?node]) (s1\<lparr>os_calls := n\<rparr>) = (res, s')"
      using Cons.prems(1) c Inr p own by (simp add: io_bind_def on_os_error_def)
    note IH = Cons.IH[OF this hold]
    show ?thesis
    proof (cases res)
      case (Inl e)
      with IH Cons.prems(3) show ?thesis by simp
    next
      case result: (Inr result)
      then obtain new where "holds_sockets before result s'" "result = (nodes @ [?node]) @ new" "length new = length ixs"
        "\<forall>k < length new. ns_family (new ! k) = fam \<and> (base_port \<noteq> 0 \<longrightarrow> ns_port (new ! k) = base_port + int (ixs ! k))"
        using IH Cons.prems(3) by auto
      with bound result show ?thesis by (auto simp: less_Suc_eq_0_disj intro!: exI[of _ "?node # new"])
    qed
  qed
qed

section \<open>Properties\<close>


text \<open>A system where the second \<open>bind\<close> fails: two sockets are asked for and none stays open.\<close>

definition failing_env :: socket_env where
  "failing_env = \<lparr>se_succeeds = (\<lambda>n. n < 5), se_ephemeral = (\<lambda>_. 1024), se_urandom = (\<lambda>n k. replicate k (of_nat n))\<rparr>"


end
