(* ===== verification/Dht_Crawler.thy ===== *)
theory Dht_Crawler
  imports Dht_Node_Sockets Lookup_Properties Catalog_Properties
begin

text \<open>
  The crawler thread of \<open>dht_crawler.py\<close>. Its state is the record \<open>crawler\<close>; a method is a
  step that may raise (theory \<open>Fallible_State\<close>), with every \<open>assert\<close>, every dictionary
  subscript that may miss and every uncaught exception of the codecs as a branch. What comes
  from outside is the record \<open>crawler_env\<close>, indexed by the number of outside calls made so
  far: the clocks, \<open>os.urandom\<close>, whether \<open>sendto\<close> raises, the resolver, the datagrams, and
  what the other threads did to the shared catalog since the crawler last held its lock.
  The lookup manager's callbacks are the calls in its log, made in order by
  \<open>dispatch_calls\<close> after each of its operations; the datagrams sent are logged in \<open>cr_sent\<close>.
\<close>

section \<open>State\<close>

definition RECENT_NODES_SIZE :: nat where "RECENT_NODES_SIZE = 8"
definition RECENT_HASHES_SIZE :: nat where "RECENT_HASHES_SIZE = 64"
definition SAMPLES_PER_RESPONSE :: nat where "SAMPLES_PER_RESPONSE = 20"
definition OWN_SAMPLE_INTERVAL :: int where "OWN_SAMPLE_INTERVAL = 300"
definition BOOTSTRAP_RETRY_SECONDS :: real where "BOOTSTRAP_RETRY_SECONDS = 2"
definition MAX_RECEIVE_PER_SOCKET :: nat where "MAX_RECEIVE_PER_SOCKET = 1000"
definition MAX_BACKOFF_ENTRIES :: nat where "MAX_BACKOFF_ENTRIES = 50000"
definition TOKEN_SECRET_LENGTH :: nat where "TOKEN_SECRET_LENGTH = 16"
definition LOOKUP_SEED_SCAN :: nat where "LOOKUP_SEED_SCAN = 2000"
definition LOOKUP_SEED_COUNT :: nat where "LOOKUP_SEED_COUNT = 16"
definition HINT_NODES_SIZE :: nat where "HINT_NODES_SIZE = 65536"
definition SOCKET_AFFINITY_SIZE :: nat where "SOCKET_AFFINITY_SIZE = 65536"
definition PER_ADDRESS_WINDOW_SECONDS :: real where "PER_ADDRESS_WINDOW_SECONDS = 10"
definition PER_ADDRESS_MAX_PACKETS :: nat where "PER_ADDRESS_MAX_PACKETS = 40"
definition SEND_WINDOW_ENTRIES :: nat where "SEND_WINDOW_ENTRIES = 65536"

lemmas crawler_consts = RECENT_NODES_SIZE_def RECENT_HASHES_SIZE_def SAMPLES_PER_RESPONSE_def OWN_SAMPLE_INTERVAL_def
  MAX_BACKOFF_ENTRIES_def TOKEN_SECRET_LENGTH_def LOOKUP_SEED_SCAN_def LOOKUP_SEED_COUNT_def HINT_NODES_SIZE_def
  SOCKET_AFFINITY_SIZE_def PER_ADDRESS_MAX_PACKETS_def SEND_WINDOW_ENTRIES_def

text \<open>The keys of \<open>stats\<close>, \<open>COUNTER_KEYS\<close>.\<close>

datatype counter_key = packets_sent | packets_received | queries_received | responses_received | errors_received
  | samples_received | sample_responses | announced_peers | lookups_started | sample_queries_sent | find_node_sent
  | packets_throttled

text \<open>
  \<open>FamilyState\<close>: \<open>itertools.cycle\<close> is the number of sockets taken from it, the two deques
  are lists with their \<open>maxlen\<close>, and \<open>-inf\<close> is \<open>None\<close>.
\<close>

record family_state =
  fs_node_sockets :: "node_socket list"
  fs_cycle :: nat
  fs_node_queue :: "node list"
  fs_max_queue :: nat
  fs_recent_nodes :: "node list"
  fs_nodes_key :: bytes
  fs_last_bootstrap_time :: "real option"

record crawler =
  cr_node_sockets :: "node_socket list"
  cr_catalog :: catalog
  cr_bootstrap_nodes :: "(string \<times> int) list"
  cr_resolved_bootstrap_hosts :: "(family, (string, string list) odict) odict"
  cr_batch_size :: nat
  cr_interval :: real
  cr_own_suffixes :: "bytes set"
  cr_families :: "(family, family_state) odict"
  cr_token_secret :: bytes
  cr_recent_hashes :: "bytes list"
  cr_sample_backoff :: "(address, real) odict"
  cr_fallback_sent :: "(address, unit) odict"
  cr_recently_queued :: "(address, unit) odict"
  cr_hint_nodes :: "(bytes, node) odict"
  cr_socket_affinity :: "(address, node_socket) odict"
  cr_send_windows :: "(string, real \<times> nat) odict"
  cr_lookup_fetchable_target :: nat
  cr_stats :: "counter_key \<Rightarrow> nat"
  cr_lookup_manager :: lookup_manager
  cr_calls :: nat
  cr_sent :: "(node_socket \<times> bytes \<times> address) list"

datatype recv_result = Received bytes address | WouldBlock | RecvReset | RecvOSError

text \<open>
  The outside, per outside call. \<open>ce_others n c\<close> is the catalog \<open>c\<close> after what other threads
  did to it up to that moment; \<open>ce_select n\<close> has, for each socket that \<open>select\<close> reports
  readable, what its successive \<open>recvfrom\<close> calls give.
\<close>

record crawler_env =
  ce_lib :: ip_lib
  ce_hmac :: "bytes \<Rightarrow> bytes \<Rightarrow> bytes"
  ce_clock :: "nat \<Rightarrow> real"
  ce_wall_clock :: "nat \<Rightarrow> real"
  ce_urandom :: "nat \<Rightarrow> nat \<Rightarrow> bytes"
  ce_sendto :: "nat \<Rightarrow> bool"
  ce_resolver :: "nat \<Rightarrow> string \<Rightarrow> int \<Rightarrow> family \<Rightarrow> string list option"
  ce_others :: "nat \<Rightarrow> catalog \<Rightarrow> catalog"
  ce_select :: "nat \<Rightarrow> (node_socket \<times> recv_result list) list"

datatype crawl_error = CrawlAssertion | CrawlKeyError | CrawlOSError | CrawlEncodeError

type_synonym 'a crawl = "(crawl_error, crawler, 'a) fallible"

definition outside :: "(nat \<Rightarrow> 'a) \<Rightarrow> 'a crawl" where
  "outside f s = (Inr (f (cr_calls s)), s\<lparr>cr_calls := cr_calls s + 1\<rparr>)"

abbreviation crawl_assert :: "bool \<Rightarrow> unit crawl" where
  "crawl_assert c \<equiv> io_assert c CrawlAssertion"

definition crawl_lift :: "krpc_error + 'a \<Rightarrow> 'a crawl" where
  "crawl_lift r = (case r of Inl KrpcAssertion \<Rightarrow> io_raise CrawlAssertion | Inl KrpcOSError \<Rightarrow> io_raise CrawlOSError
     | Inr x \<Rightarrow> io_return x)"

text \<open>\<open>self.stats[key] += n\<close>, \<open>self.families[family]\<close>, and the state put back.\<close>

definition count_stat :: "counter_key \<Rightarrow> nat \<Rightarrow> unit crawl" where
  "count_stat key n = io_update (\<lambda>s. s\<lparr>cr_stats := (cr_stats s)(key := cr_stats s key + n)\<rparr>)"

definition get_family :: "family \<Rightarrow> family_state crawl" where
  "get_family fam s = (case map_of (cr_families s) fam of None \<Rightarrow> (Inl CrawlKeyError, s) | Some st \<Rightarrow> (Inr st, s))"

definition put_family :: "family \<Rightarrow> family_state \<Rightarrow> unit crawl" where
  "put_family fam st = io_update (\<lambda>s. s\<lparr>cr_families := AList.update fam st (cr_families s)\<rparr>)"

text \<open>A call of a catalog method: it takes the lock, so the other threads' work comes first.\<close>

definition on_catalog :: "crawler_env \<Rightarrow> (real \<Rightarrow> catalog \<Rightarrow> 'a \<times> catalog) \<Rightarrow> 'a crawl" where
  "on_catalog E f s =
     (let n = cr_calls s; (x, c) = f (ce_wall_clock E n) (ce_others E n (cr_catalog s))
      in (Inr x, s\<lparr>cr_catalog := c, cr_calls := n + 1\<rparr>))"

text \<open>\<open>deque.append\<close> with a \<open>maxlen\<close>.\<close>

definition deque_append :: "nat \<Rightarrow> 'a list \<Rightarrow> 'a \<Rightarrow> 'a list" where
  "deque_append maxlen xs x = drop (length xs + 1 - maxlen) (xs @ [x])"

section \<open>Pacing and addresses\<close>

definition next_batch_time :: "real \<Rightarrow> real \<Rightarrow> real \<Rightarrow> crawl_error + real" where
  "next_batch_time due now interval =
     (if \<not> (interval > 0 \<and> now \<ge> due) then Inl CrawlAssertion
      else let result = (if now - due > interval then now + interval else due + interval)
           in if result > now - interval then Inr result else Inl CrawlAssertion)"

definition address_family :: "string \<Rightarrow> family" where
  "address_family ip = (if CHR '':'' \<in> set ip then AF_INET6 else AF_INET)"

definition new_family_state :: "family \<Rightarrow> node_socket list \<Rightarrow> nat \<Rightarrow> family_state" where
  "new_family_state fam node_sockets max_queue =
     \<lparr>fs_node_sockets = node_sockets, fs_cycle = 0, fs_node_queue = [], fs_max_queue = max_queue, fs_recent_nodes = [],
      fs_nodes_key = (if fam = AF_INET6 then NODES6_KEY else NODES_KEY), fs_last_bootstrap_time = None\<rparr>"

text \<open>\<open>is_foreign_node\<close>, whose node id may be any value a message held.\<close>

definition foreign_node :: "ip_lib \<Rightarrow> bytes set \<Rightarrow> family set \<Rightarrow> pyvalue \<Rightarrow> address \<Rightarrow> bool" where
  "foreign_node lib suffixes fams node_id addr \<longleftrightarrow>
     (case node_id of
        PyBytes b \<Rightarrow> is_valid_node_id node_id \<and> drop NEIGHBOR_PREFIX_LENGTH b \<notin> suffixes
          \<and> address_family (fst addr) \<in> fams \<and> is_routable_address lib (fst addr) (snd addr)
      | _ \<Rightarrow> False)"

definition is_foreign_node :: "crawler_env \<Rightarrow> crawler \<Rightarrow> pyvalue \<Rightarrow> address \<Rightarrow> bool" where
  "is_foreign_node E s = foreign_node (ce_lib E) (cr_own_suffixes s) (fst ` set (cr_families s))"

definition new_crawler ::
    "crawler_env \<Rightarrow> node_socket list \<Rightarrow> catalog \<Rightarrow> (string \<times> int) list \<Rightarrow> nat \<Rightarrow> real \<Rightarrow> nat \<Rightarrow> nat \<Rightarrow> lookup_limits \<Rightarrow>
     crawl_error + crawler" where
  "new_crawler E node_sockets catalog bootstrap_nodes batch_size interval max_queue lookup_fetchable_target limits =
     (if \<not> (length node_sockets \<ge> 1 \<and> batch_size \<ge> 1 \<and> interval > 0 \<and> max_queue \<ge> 1)
         \<or> bootstrap_nodes = [] \<or> list_ex (\<lambda>n. length (own_id n) \<noteq> NODE_ID_LENGTH) node_sockets
      then Inl CrawlAssertion
      else let suffixes = own_id_suffixes node_sockets;
               members = (\<lambda>fam. filter (\<lambda>n. ns_family n = fam) node_sockets);
               fams = filter (\<lambda>fam. members fam \<noteq> []) [AF_INET, AF_INET6]
           in Inr \<lparr>cr_node_sockets = node_sockets, cr_catalog = catalog, cr_bootstrap_nodes = bootstrap_nodes,
                cr_resolved_bootstrap_hosts = map (\<lambda>fam. (fam, [])) fams, cr_batch_size = batch_size,
                cr_interval = interval, cr_own_suffixes = suffixes,
                cr_families = map (\<lambda>fam. (fam, new_family_state fam (members fam) max_queue)) fams,
                cr_token_secret = ce_urandom E 0 TOKEN_SECRET_LENGTH, cr_recent_hashes = [], cr_sample_backoff = [],
                cr_fallback_sent = [], cr_recently_queued = [], cr_hint_nodes = [], cr_socket_affinity = [],
                cr_send_windows = [], cr_lookup_fetchable_target = lookup_fetchable_target, cr_stats = (\<lambda>_. 0),
                cr_lookup_manager = new_manager (ce_clock E 1)
                  (\<lambda>node. foreign_node (ce_lib E) suffixes (set fams) (PyBytes (fst node)) (snd node)) True limits,
                cr_calls = 2, cr_sent = []\<rparr>)"

section \<open>Sending\<close>

definition pick_node_socket :: "family \<Rightarrow> node_socket option crawl" where
  "pick_node_socket fam = io_bind (io_get cr_families) (\<lambda>families.
     case map_of families fam of
       None \<Rightarrow> io_return None
     | Some st \<Rightarrow>
         let result = fs_node_sockets st ! (fs_cycle st mod length (fs_node_sockets st))
         in io_seq (put_family fam (st\<lparr>fs_cycle := fs_cycle st + 1\<rparr>))
              (io_seq (crawl_assert (ns_family result = fam)) (io_return (Some result))))"

text \<open>\<open>allow_send\<close> on the windows, for a clock reading.\<close>

definition allow_send_at ::
    "(string, real \<times> nat) odict \<Rightarrow> real \<Rightarrow> string \<Rightarrow> bool \<times> (string, real \<times> nat) odict" where
  "allow_send_at windows now ip =
     (case map_of windows ip of
        None \<Rightarrow> (True, snd (remember windows ip (now, 1) SEND_WINDOW_ENTRIES))
      | Some (start, n) \<Rightarrow>
          if now - start \<ge> PER_ADDRESS_WINDOW_SECONDS
          then (True, snd (remember windows ip (now, 1) SEND_WINDOW_ENTRIES))
          else if n \<ge> PER_ADDRESS_MAX_PACKETS then (False, windows)
          else (True, AList.update ip (start, n + 1) windows))"

definition allow_send :: "crawler_env \<Rightarrow> string \<Rightarrow> bool crawl" where
  "allow_send E ip = io_bind (outside (ce_clock E)) (\<lambda>now.
     io_bind (io_get (\<lambda>s. allow_send_at (cr_send_windows s) now ip)) (\<lambda>(ok, windows).
       io_seq (io_update (\<lambda>s. s\<lparr>cr_send_windows := windows\<rparr>)) (io_return ok)))"

definition send_message :: "crawler_env \<Rightarrow> node_socket \<Rightarrow> pydict \<Rightarrow> address \<Rightarrow> bool crawl" where
  "send_message E node_socket message addr =
     io_bind (io_get cr_node_sockets) (\<lambda>node_sockets.
     io_seq (crawl_assert (node_socket \<in> set node_sockets))
     (io_bind (allow_send E (fst addr)) (\<lambda>allowed.
       if \<not> allowed then io_seq (count_stat packets_throttled 1) (io_return False)
       else case encode_bencode (PyDict message) of
              Inl _ \<Rightarrow> io_raise CrawlEncodeError
            | Inr payload \<Rightarrow>
                io_bind (outside (ce_sendto E)) (\<lambda>ok.
                  if \<not> ok then io_return False
                  else io_seq (io_update (\<lambda>s. s\<lparr>cr_sent := cr_sent s @ [(node_socket, payload, addr)]\<rparr>))
                         (io_seq (count_stat packets_sent 1) (io_return True))))))"

text \<open>A reply whose only result is the assertion that \<open>send_message\<close> returned a \<open>bool\<close>.\<close>

definition send_reply :: "crawler_env \<Rightarrow> node_socket \<Rightarrow> krpc_error + pydict \<Rightarrow> address \<Rightarrow> unit crawl" where
  "send_reply E node_socket message addr =
     io_bind (crawl_lift message) (\<lambda>m. io_seq (send_message E node_socket m addr) (io_return ()))"

definition send_find_node :: "crawler_env \<Rightarrow> node_socket \<Rightarrow> node \<Rightarrow> unit crawl" where
  "send_find_node E node_socket node =
     io_seq (crawl_assert (is_valid_node_id (PyBytes (fst node)) \<and> 0 \<le> snd (snd node) \<and> snd (snd node) \<le> 65535
               \<and> length (own_id node_socket) = NODE_ID_LENGTH))
     (io_bind (outside (\<lambda>n. generate_transaction_id (ce_urandom E n))) (\<lambda>t.
      io_bind (outside (\<lambda>n. generate_node_id (ce_urandom E n))) (\<lambda>target.
      io_seq (send_reply E node_socket (build_find_node_query t (neighbor_node_id (fst node) (own_id node_socket)) target) (snd node))
        (count_stat find_node_sent 1))))"

definition send_sample_infohashes :: "crawler_env \<Rightarrow> node_socket \<Rightarrow> node \<Rightarrow> unit crawl" where
  "send_sample_infohashes E node_socket node =
     io_seq (crawl_assert (is_valid_node_id (PyBytes (fst node)) \<and> 0 \<le> snd (snd node) \<and> snd (snd node) \<le> 65535
               \<and> length (own_id node_socket) = NODE_ID_LENGTH))
     (io_bind (outside (\<lambda>n. generate_transaction_id (ce_urandom E n))) (\<lambda>t.
      io_bind (outside (\<lambda>n. generate_node_id (ce_urandom E n))) (\<lambda>target.
      io_seq (send_reply E node_socket
                (build_sample_infohashes_query t (neighbor_node_id (fst node) (own_id node_socket)) target) (snd node))
        (count_stat sample_queries_sent 1))))"

definition send_crawl_query :: "crawler_env \<Rightarrow> node \<Rightarrow> unit crawl" where
  "send_crawl_query E node =
     io_bind (pick_node_socket (address_family (fst (snd node)))) (\<lambda>picked.
       case picked of
         None \<Rightarrow> io_return ()
       | Some node_socket \<Rightarrow>
           io_bind (io_get (\<lambda>s. map_of (cr_sample_backoff s) (snd node))) (\<lambda>backoff_until.
             case backoff_until of
               None \<Rightarrow> send_sample_infohashes E node_socket node
             | Some t \<Rightarrow> io_bind (outside (ce_clock E)) (\<lambda>now.
                 if t > now then send_find_node E node_socket node else send_sample_infohashes E node_socket node)))"

definition send_lookup_query :: "crawler_env \<Rightarrow> bytes \<Rightarrow> node \<Rightarrow> bytes \<Rightarrow> unit crawl" where
  "send_lookup_query E transaction_id node info_hash =
     io_seq (crawl_assert (length transaction_id = LOOKUP_TRANSACTION_ID_LENGTH \<and> length info_hash = NODE_ID_LENGTH))
     (io_bind (io_get (\<lambda>s. map_of (cr_socket_affinity s) (snd node))) (\<lambda>affinity.
      io_bind (case affinity of Some ns \<Rightarrow> io_return (Some ns) | None \<Rightarrow> pick_node_socket (address_family (fst (snd node))))
        (\<lambda>picked. case picked of
           None \<Rightarrow> io_return ()
         | Some node_socket \<Rightarrow>
             io_seq (crawl_assert (length (fst node) = NODE_ID_LENGTH \<and> length (own_id node_socket) = NODE_ID_LENGTH))
               (send_reply E node_socket
                  (build_get_peers_query transaction_id (neighbor_node_id (fst node) (own_id node_socket)) info_hash) (snd node)))))"

section \<open>Calls of the lookup manager\<close>

text \<open>The callbacks given to \<open>LookupManager\<close>: \<open>send_lookup_query\<close>, \<open>catalog.add_peers\<close> and \<open>catalog.add_lookup_result\<close>.\<close>

definition dispatch_call :: "crawler_env \<Rightarrow> lookup_call \<Rightarrow> unit crawl" where
  "dispatch_call E call =
     (case call of
        SendQuery t node h \<Rightarrow> send_lookup_query E t node h
      | OnPeers h peers \<Rightarrow>
          io_seq (crawl_assert (length h = NODE_ID_LENGTH)) (on_catalog E (\<lambda>_ c. ((), snd (add_peers c h peers))))
      | OnFinished h peers \<Rightarrow>
          io_seq (crawl_assert (length h = NODE_ID_LENGTH)) (on_catalog E (\<lambda>wall c. ((), add_lookup_result c h peers wall None))))"

definition on_manager :: "crawler_env \<Rightarrow> (lookup_manager \<Rightarrow> 'a \<times> lookup_manager) \<Rightarrow> 'a crawl" where
  "on_manager E f = io_bind (io_get cr_lookup_manager) (\<lambda>m.
     io_seq (io_update (\<lambda>s. s\<lparr>cr_lookup_manager := snd (f m)\<rparr>))
       (io_seq (io_for (dispatch_call E) (drop (length (lm_calls m)) (lm_calls (snd (f m)))))
         (io_return (fst (f m)))))"

section \<open>Bootstrap\<close>

text \<open>
  \<open>resolve_addresses\<close>: every address of \<open>getaddrinfo\<close> once, sorted (\<open>None\<close>: it raised).
\<close>

definition resolve_addresses ::
    "(string \<Rightarrow> int \<Rightarrow> family \<Rightarrow> string list option) \<Rightarrow> string \<Rightarrow> int \<Rightarrow> family \<Rightarrow> crawl_error + string list" where
  "resolve_addresses getaddrinfo host port fam =
     (if \<not> (host \<noteq> [] \<and> 0 < port \<and> port \<le> 65535) then Inl CrawlAssertion
      else case getaddrinfo host port fam of None \<Rightarrow> Inl CrawlOSError | Some ips \<Rightarrow> Inr (sort (remdups ips)))"

definition get_resolved :: "family \<Rightarrow> (string, string list) odict crawl" where
  "get_resolved fam s =
     (case map_of (cr_resolved_bootstrap_hosts s) fam of None \<Rightarrow> (Inl CrawlKeyError, s) | Some d \<Rightarrow> (Inr d, s))"

definition resolve_host :: "crawler_env \<Rightarrow> family \<Rightarrow> bool \<Rightarrow> string \<Rightarrow> int \<Rightarrow> string list crawl" where
  "resolve_host E fam retry_failed host port = io_bind (get_resolved fam) (\<lambda>resolved.
     let cached = map_of resolved host
     in if cached = None \<or> retry_failed \<and> cached = Some []
        then io_bind (outside (\<lambda>n. ce_resolver E n host port fam)) (\<lambda>r.
          let ips = (case r of None \<Rightarrow> [] | Some ips \<Rightarrow> ips)
          in io_seq (io_update (\<lambda>s. s\<lparr>cr_resolved_bootstrap_hosts :=
                 AList.update fam (AList.update host ips resolved) (cr_resolved_bootstrap_hosts s)\<rparr>)) (io_return ips))
        else io_return (the cached))"

definition bootstrap_family :: "crawler_env \<Rightarrow> family \<Rightarrow> unit crawl" where
  "bootstrap_family E fam =
     io_bind (get_family fam) (\<lambda>st.
     io_bind (outside (ce_clock E)) (\<lambda>now.
     io_seq (put_family fam (st\<lparr>fs_last_bootstrap_time := Some now\<rparr>))
     (io_bind (get_resolved fam) (\<lambda>resolved.
      io_bind (io_get cr_bootstrap_nodes) (\<lambda>hosts.
      let retry_failed = list_all (\<lambda>p. snd p = []) resolved
      in io_for (\<lambda>(host, port).
           io_bind (resolve_host E fam retry_failed host port) (\<lambda>ips.
             io_for (\<lambda>ip. io_for (\<lambda>ns. send_find_node E ns (own_id ns, ip, port)) (fs_node_sockets st)) ips)) hosts)))))"

definition bootstrap :: "crawler_env \<Rightarrow> family list option \<Rightarrow> unit crawl" where
  "bootstrap E families =
     io_bind (io_get (\<lambda>s. (cr_bootstrap_nodes s, case families of None \<Rightarrow> map fst (cr_families s) | Some fs \<Rightarrow> fs))) (\<lambda>(hosts, fams).
     io_seq (crawl_assert (hosts \<noteq> []))
     (io_seq (io_for (bootstrap_family E) fams)
      (io_bind (io_get cr_families) (\<lambda>states.
        crawl_assert (families = None \<longrightarrow> list_all (\<lambda>p. fs_last_bootstrap_time (snd p) \<noteq> None) states)))))"

section \<open>Nodes and samples\<close>

definition add_node :: "crawler_env \<Rightarrow> pyvalue \<Rightarrow> address \<Rightarrow> unit crawl" where
  "add_node E node_id addr =
     (let fam = address_family (fst addr)
      in io_bind (io_get (\<lambda>s. (is_foreign_node E s node_id addr, map_of (cr_families s) fam,
                     remember (cr_recently_queued s) addr () MAX_BACKOFF_ENTRIES)))
           (\<lambda>(foreign, state, is_new, queued).
              case (state, node_id) of
                (Some st, PyBytes b) \<Rightarrow>
                  if \<not> foreign then io_return ()
                  else io_seq (io_update (\<lambda>s. s\<lparr>cr_recently_queued := queued\<rparr>))
                         (if \<not> is_new then io_return ()
                          else let queue = deque_append (fs_max_queue st) (fs_node_queue st) (b, addr);
                                   recent = deque_append RECENT_NODES_SIZE (fs_recent_nodes st) (b, addr)
                               in io_seq (put_family fam (st\<lparr>fs_node_queue := queue, fs_recent_nodes := recent\<rparr>))
                                    (crawl_assert (length queue \<le> fs_max_queue st)))
              | _ \<Rightarrow> io_return ()))"

definition handle_samples :: "crawler_env \<Rightarrow> pydict \<Rightarrow> address \<Rightarrow> node option \<Rightarrow> unit crawl" where
  "handle_samples E response addr sender =
     (let samples = decode_samples (py_get response (ascii ''samples''));
          seconds = (case py_get response (ascii ''interval'') of PyInt n \<Rightarrow> n | _ \<Rightarrow> 0)
      in io_seq (crawl_assert (list_all (\<lambda>h. length h = NODE_ID_LENGTH) samples))
         (io_seq (on_catalog E (\<lambda>wall c. ((), snd (record_hashes c samples SOURCE_SAMPLE wall None))))
         (io_seq (io_update (\<lambda>s. s\<lparr>cr_recent_hashes := foldl (deque_append RECENT_HASHES_SIZE) (cr_recent_hashes s) samples\<rparr>))
         (io_seq (case sender of
                    None \<Rightarrow> io_return ()
                  | Some node \<Rightarrow> io_update (\<lambda>s. s\<lparr>cr_hint_nodes :=
                      foldl (\<lambda>d h. snd (remember d h node HINT_NODES_SIZE)) (cr_hint_nodes s) samples\<rparr>))
         (io_seq (count_stat sample_responses 1)
         (io_bind (outside (ce_clock E)) (\<lambda>now.
          io_seq (io_update (\<lambda>s. s\<lparr>cr_sample_backoff := snd (remember (cr_sample_backoff s) addr
                    (now + of_int (max 0 (min seconds MAX_SAMPLE_INTERVAL))) MAX_BACKOFF_ENTRIES)\<rparr>))
          (io_seq (count_stat samples_received (length samples))
          (io_bind (io_get cr_sample_backoff) (\<lambda>backoff. crawl_assert (addr \<in> fst ` set backoff)))))))))))"

text \<open>The part of \<open>handle_response\<close> for answers to crawl queries.\<close>

definition handle_other_response :: "crawler_env \<Rightarrow> pyvalue \<Rightarrow> address \<Rightarrow> unit crawl" where
  "handle_other_response E response addr =
     (case response of
        PyDict d \<Rightarrow>
          io_bind (io_get (\<lambda>s. is_foreign_node E s (py_get d (ascii ''id'')) addr)) (\<lambda>foreign.
            let sender = (case py_get d (ascii ''id'') of PyBytes b \<Rightarrow> if foreign then Some (b, addr) else None | _ \<Rightarrow> None)
            in io_seq (case sender of
                 None \<Rightarrow> io_return ()
               | Some node \<Rightarrow> io_bind (get_family (address_family (fst addr))) (\<lambda>st.
                   put_family (address_family (fst addr))
                     (st\<lparr>fs_recent_nodes := deque_append RECENT_NODES_SIZE (fs_recent_nodes st) node\<rparr>)))
              (io_seq (io_for (\<lambda>nodes. io_for (\<lambda>node. add_node E (PyBytes (fst node)) (snd node)) nodes)
                 [case py_get d NODES_KEY of PyBytes b \<Rightarrow> decode_compact_nodes (ce_lib E) b COMPACT_NODE_LENGTH | _ \<Rightarrow> [],
                  case py_get d NODES6_KEY of PyBytes b \<Rightarrow> decode_compact_nodes6 (ce_lib E) b | _ \<Rightarrow> []])
              (io_when (KBytes (ascii ''samples'') \<in> fst ` set d) (handle_samples E d addr sender))))
      | _ \<Rightarrow> io_return ())"

definition crawler_handle_response :: "crawler_env \<Rightarrow> pydict \<Rightarrow> address \<Rightarrow> unit crawl" where
  "crawler_handle_response E message addr =
     (let response = py_get message (ascii ''r''); transaction_id = py_get message (ascii ''t'')
      in io_seq (crawl_assert (py_get message (ascii ''y'') = PyBytes (ascii ''r'')))
         (io_seq (count_stat responses_received 1)
         (io_bind (io_get cr_lookup_manager) (\<lambda>manager.
          case transaction_id of
            PyBytes t \<Rightarrow>
              if owns_transaction manager transaction_id
              then io_bind (outside (ce_clock E)) (\<lambda>now.
                     on_manager E (\<lambda>m. ((), handle_response (ce_lib E) m t response addr now)))
              else handle_other_response E response addr
          | _ \<Rightarrow> handle_other_response E response addr))))"

definition crawler_handle_error :: "crawler_env \<Rightarrow> pydict \<Rightarrow> address \<Rightarrow> node_socket \<Rightarrow> unit crawl" where
  "crawler_handle_error E message addr node_socket =
     (let transaction_id = py_get message (ascii ''t'');
          other = io_when (read_error_code message = Some ERROR_METHOD_UNKNOWN)
            (io_bind (outside (ce_clock E)) (\<lambda>now.
             io_seq (io_update (\<lambda>s. s\<lparr>cr_sample_backoff := snd (remember (cr_sample_backoff s) addr
                       (now + of_int MAX_SAMPLE_INTERVAL) MAX_BACKOFF_ENTRIES)\<rparr>))
             (io_bind (get_family (ns_family node_socket)) (\<lambda>st.
              io_when (length (fs_node_queue st) * 2 < fs_max_queue st)
                (io_bind (io_get (\<lambda>s. remember (cr_fallback_sent s) addr () MAX_BACKOFF_ENTRIES)) (\<lambda>(is_new, sent).
                 io_seq (io_update (\<lambda>s. s\<lparr>cr_fallback_sent := sent\<rparr>))
                   (io_when is_new (send_find_node E node_socket (own_id node_socket, addr)))))))))
      in io_seq (crawl_assert (py_get message (ascii ''y'') = PyBytes (ascii ''e'')))
         (io_seq (count_stat errors_received 1)
         (io_bind (io_get cr_lookup_manager) (\<lambda>manager.
          case transaction_id of
            PyBytes t \<Rightarrow>
              if owns_transaction manager transaction_id
              then io_bind (outside (ce_clock E)) (\<lambda>now. on_manager E (\<lambda>m. ((), handle_error m t now)))
              else other
          | _ \<Rightarrow> other))))"

section \<open>Queries of other nodes\<close>

definition crawler_record_hash :: "crawler_env \<Rightarrow> bytes \<Rightarrow> sighting_source \<Rightarrow> address option \<Rightarrow> unit crawl" where
  "crawler_record_hash E info_hash source peer =
     io_seq (crawl_assert (length info_hash = NODE_ID_LENGTH))
     (io_seq (on_catalog E (\<lambda>wall c. ((), snd (record_hash c info_hash source peer wall None))))
       (io_update (\<lambda>s. s\<lparr>cr_recent_hashes := deque_append RECENT_HASHES_SIZE (cr_recent_hashes s) info_hash\<rparr>)))"

definition handle_ping_query :: "crawler_env \<Rightarrow> bytes \<Rightarrow> bytes \<Rightarrow> address \<Rightarrow> node_socket \<Rightarrow> unit crawl" where
  "handle_ping_query E transaction_id reply_id addr node_socket =
     io_seq (crawl_assert (length reply_id = NODE_ID_LENGTH))
       (send_reply E node_socket (build_ping_response transaction_id reply_id) addr)"

definition handle_find_node_query :: "crawler_env \<Rightarrow> bytes \<Rightarrow> bytes \<Rightarrow> address \<Rightarrow> node_socket \<Rightarrow> unit crawl" where
  "handle_find_node_query E transaction_id reply_id addr node_socket =
     io_seq (crawl_assert (length reply_id = NODE_ID_LENGTH))
     (io_bind (get_family (ns_family node_socket)) (\<lambda>st.
      io_bind (crawl_lift (encode_compact_nodes (ce_lib E) (fs_recent_nodes st))) (\<lambda>nodes.
      send_reply E node_socket (build_find_node_response transaction_id reply_id nodes (fs_nodes_key st)) addr)))"

definition read_info_hash :: "crawler_env \<Rightarrow> bytes \<Rightarrow> pydict \<Rightarrow> address \<Rightarrow> node_socket \<Rightarrow> bytes option crawl" where
  "read_info_hash E transaction_id args addr node_socket =
     (case py_get args (ascii ''info_hash'') of
        PyBytes h \<Rightarrow>
          if is_valid_node_id (PyBytes h) then io_return (Some h)
          else io_seq (send_reply E node_socket (build_error_response transaction_id ERROR_PROTOCOL (ascii ''invalid info_hash'')) addr)
                 (io_return None)
      | _ \<Rightarrow> io_seq (send_reply E node_socket (build_error_response transaction_id ERROR_PROTOCOL (ascii ''invalid info_hash'')) addr)
                 (io_return None))"

definition handle_get_peers_query :: "crawler_env \<Rightarrow> bytes \<Rightarrow> bytes \<Rightarrow> pydict \<Rightarrow> address \<Rightarrow> node_socket \<Rightarrow> unit crawl" where
  "handle_get_peers_query E transaction_id reply_id args addr node_socket =
     io_seq (crawl_assert (length reply_id = NODE_ID_LENGTH))
     (io_bind (read_info_hash E transaction_id args addr node_socket) (\<lambda>hash.
      case hash of
        None \<Rightarrow> io_return ()
      | Some info_hash \<Rightarrow>
          io_seq (crawler_record_hash E info_hash SOURCE_GET_PEERS None)
          (io_bind (io_get cr_token_secret) (\<lambda>secret.
           io_bind (crawl_lift (make_token (ce_hmac E) secret (fst addr))) (\<lambda>token.
           io_bind (get_family (ns_family node_socket)) (\<lambda>st.
           io_bind (crawl_lift (encode_compact_nodes (ce_lib E) (fs_recent_nodes st))) (\<lambda>nodes.
           send_reply E node_socket (build_get_peers_response transaction_id reply_id token nodes (fs_nodes_key st)) addr)))))))"

definition handle_announce_peer_query :: "crawler_env \<Rightarrow> bytes \<Rightarrow> bytes \<Rightarrow> pydict \<Rightarrow> address \<Rightarrow> node_socket \<Rightarrow> unit crawl" where
  "handle_announce_peer_query E transaction_id reply_id args addr node_socket =
     io_seq (crawl_assert (length reply_id = NODE_ID_LENGTH))
     (io_bind (read_info_hash E transaction_id args addr node_socket) (\<lambda>hash.
      case hash of
        None \<Rightarrow> io_return ()
      | Some info_hash \<Rightarrow>
          io_bind (io_get cr_token_secret) (\<lambda>secret.
          io_bind (crawl_lift (make_token (ce_hmac E) secret (fst addr))) (\<lambda>token.
          let token_valid = (py_get args (ascii ''token'') = PyBytes token)
          in io_seq (crawl_assert (token_valid \<longrightarrow> 0 \<le> snd addr \<and> snd addr \<le> 65535))
             (let peer = (case (if token_valid then read_announced_port args (snd addr) else None) of
                           Some port \<Rightarrow> if is_routable_address (ce_lib E) (fst addr) port then Some (fst addr, port) else None
                         | None \<Rightarrow> None)
              in io_seq (io_when (peer \<noteq> None) (count_stat announced_peers 1))
                 (io_seq (crawler_record_hash E info_hash SOURCE_ANNOUNCE_PEER peer)
                  (send_reply E node_socket
                     (if token_valid then build_ping_response transaction_id reply_id
                      else build_error_response transaction_id ERROR_PROTOCOL (ascii ''bad token'')) addr)))))))"

definition handle_sample_infohashes_query :: "crawler_env \<Rightarrow> bytes \<Rightarrow> bytes \<Rightarrow> address \<Rightarrow> node_socket \<Rightarrow> unit crawl" where
  "handle_sample_infohashes_query E transaction_id reply_id addr node_socket =
     io_seq (crawl_assert (length reply_id = NODE_ID_LENGTH))
     (io_bind (io_get cr_recent_hashes) (\<lambda>recent.
      io_bind (get_family (ns_family node_socket)) (\<lambda>st.
      io_bind (crawl_lift (encode_compact_nodes (ce_lib E) (fs_recent_nodes st))) (\<lambda>nodes.
      send_reply E node_socket (build_sample_infohashes_response transaction_id reply_id OWN_SAMPLE_INTERVAL nodes
        (int (length recent)) (concat (drop (length recent - SAMPLES_PER_RESPONSE) recent)) (fs_nodes_key st)) addr))))"

text \<open>The id the reply carries: near the sender, or near the info hash it asks about.\<close>

definition reply_id_for :: "pyvalue \<Rightarrow> pydict \<Rightarrow> bytes \<Rightarrow> bytes" where
  "reply_id_for query_name args own =
     (let by_sender = (case py_get args (ascii ''id'') of
            PyBytes b \<Rightarrow> if is_valid_node_id (PyBytes b) then neighbor_node_id b own else own | _ \<Rightarrow> own)
      in if query_name \<in> {PyBytes (ascii ''get_peers''), PyBytes (ascii ''announce_peer'')}
         then (case py_get args (ascii ''info_hash'') of
                 PyBytes h \<Rightarrow> if is_valid_node_id (PyBytes h) then neighbor_node_id h own else by_sender
               | _ \<Rightarrow> by_sender)
         else by_sender)"

definition handle_query :: "crawler_env \<Rightarrow> pydict \<Rightarrow> address \<Rightarrow> node_socket \<Rightarrow> unit crawl" where
  "handle_query E message addr node_socket =
     io_seq (crawl_assert (py_get message (ascii ''y'') = PyBytes (ascii ''q'')))
     (io_seq (count_stat queries_received 1)
      (case (py_get message (ascii ''t''), py_get message (ascii ''a'')) of
         (PyBytes t, PyDict args) \<Rightarrow>
           let query_name = py_get message (ascii ''q'');
               reply_id = reply_id_for query_name args (own_id node_socket)
           in io_seq
                (if query_name = PyBytes (ascii ''ping'') then handle_ping_query E t reply_id addr node_socket
                 else if query_name = PyBytes (ascii ''find_node'') then handle_find_node_query E t reply_id addr node_socket
                 else if query_name = PyBytes (ascii ''get_peers'') then handle_get_peers_query E t reply_id args addr node_socket
                 else if query_name = PyBytes (ascii ''announce_peer'')
                 then handle_announce_peer_query E t reply_id args addr node_socket
                 else if query_name = PyBytes QUERY_SAMPLE_INFOHASHES
                 then handle_sample_infohashes_query E t reply_id addr node_socket
                 else send_reply E node_socket (build_error_response t ERROR_METHOD_UNKNOWN (ascii ''Method Unknown'')) addr)
                (add_node E (py_get args (ascii ''id'')) addr)
       | _ \<Rightarrow> io_return ()))"

definition handle_datagram :: "crawler_env \<Rightarrow> bytes \<Rightarrow> address \<Rightarrow> node_socket \<Rightarrow> unit crawl" where
  "handle_datagram E data addr node_socket =
     io_bind (io_get cr_node_sockets) (\<lambda>node_sockets.
     io_seq (crawl_assert (node_socket \<in> set node_sockets))
     (io_seq (count_stat packets_received 1)
     (io_seq (io_update (\<lambda>s. s\<lparr>cr_socket_affinity :=
                snd (remember (cr_socket_affinity s) addr node_socket SOCKET_AFFINITY_SIZE)\<rparr>))
      (case decode_bencode data of
         Inl (IndexOutOfRange _) \<Rightarrow> io_raise CrawlKeyError
       | Inl _ \<Rightarrow> io_return ()
       | Inr (PyDict message) \<Rightarrow>
           if py_get message (ascii ''y'') = PyBytes (ascii ''r'') then crawler_handle_response E message addr
           else if py_get message (ascii ''y'') = PyBytes (ascii ''q'') then handle_query E message addr node_socket
           else if py_get message (ascii ''y'') = PyBytes (ascii ''e'') then crawler_handle_error E message addr node_socket
           else io_return ()
       | Inr _ \<Rightarrow> io_return ()))))"

section \<open>The crawl\<close>

text \<open>The loop \<open>while state.node_queue and count < limit\<close>: the queries sent.\<close>

primrec crawl_family :: "crawler_env \<Rightarrow> family \<Rightarrow> nat \<Rightarrow> nat crawl" where
  "crawl_family E fam 0 = io_return 0"
| "crawl_family E fam (Suc n) = io_bind (get_family fam) (\<lambda>st.
     case fs_node_queue st of
       [] \<Rightarrow> io_return 0
     | node # queue \<Rightarrow>
         io_seq (put_family fam (st\<lparr>fs_node_queue := queue\<rparr>))
         (io_seq (send_crawl_query E node)
         (io_bind (crawl_family E fam n) (\<lambda>k. io_return (Suc k)))))"

fun crawl_families :: "crawler_env \<Rightarrow> nat \<Rightarrow> family list \<Rightarrow> nat crawl" where
  "crawl_families E batch_size [] = io_return 0"
| "crawl_families E batch_size (fam # fams) = io_bind (get_family fam) (\<lambda>st.
     io_bind (crawl_family E fam (batch_size * length (fs_node_sockets st))) (\<lambda>n.
     io_bind (crawl_families E batch_size fams) (\<lambda>k. io_return (n + k))))"

definition crawl_step :: "crawler_env \<Rightarrow> nat crawl" where
  "crawl_step E = io_bind (outside (ce_clock E)) (\<lambda>now.
     io_bind (io_get id) (\<lambda>s.
     let starving = map fst (filter (\<lambda>(fam, st). fs_node_queue st = []
            \<and> (case fs_last_bootstrap_time st of None \<Rightarrow> True | Some t \<Rightarrow> now - t \<ge> BOOTSTRAP_RETRY_SECONDS)) (cr_families s))
     in io_seq (crawl_assert (cr_batch_size s \<ge> 1))
        (io_seq (io_when (starving \<noteq> []) (bootstrap E (Some starving)))
        (io_bind (crawl_families E (cr_batch_size s) (map fst (cr_families s))) (\<lambda>sent.
         io_seq (crawl_assert (sent \<le> cr_batch_size s * length (cr_node_sockets s))) (io_return sent))))))"

definition seed_nodes :: "crawler \<Rightarrow> bytes \<Rightarrow> node list" where
  "seed_nodes s info_hash =
     (let scan_each = LOOKUP_SEED_SCAN div length (cr_families s);
          queued = concat (map (\<lambda>p. take scan_each (fs_node_queue (snd p))) (cr_families s));
          recent = concat (map (\<lambda>p. fs_recent_nodes (snd p)) (cr_families s))
      in select_closest_nodes queued info_hash LOOKUP_SEED_COUNT @ recent)"

text \<open>One round of the loop of \<open>start_pending_lookups\<close>; the result says whether the lookup started.\<close>

definition start_pending_lookup :: "crawler_env \<Rightarrow> real \<Rightarrow> bytes \<Rightarrow> bool crawl" where
  "start_pending_lookup E now info_hash =
     io_bind (io_get (\<lambda>s. map_of (cr_hint_nodes s) info_hash)) (\<lambda>hint.
     io_bind (case hint of
                Some node \<Rightarrow> io_bind (get_family (address_family (fst (snd node)))) (\<lambda>st. io_return (fs_recent_nodes st))
              | None \<Rightarrow> io_bind (io_get (\<lambda>s. seed_nodes s info_hash)) (\<lambda>seeds.
                  io_bind (io_get (\<lambda>s. length (cr_families s))) (\<lambda>n.
                  io_seq (crawl_assert (length info_hash = NODE_ID_LENGTH
                            \<and> length seeds \<le> LOOKUP_SEED_COUNT + RECENT_NODES_SIZE * n)) (io_return seeds)))) (\<lambda>seeds.
     io_seq (crawl_assert (length info_hash = NODE_ID_LENGTH))
     (io_bind (on_manager E (\<lambda>m. start_lookup m info_hash seeds now hint)) (\<lambda>started.
      if started then io_return True
      else io_seq (on_catalog E (\<lambda>_ c. ((), release_lookup_claim c info_hash))) (io_return False)))))"

fun start_pending_loop :: "crawler_env \<Rightarrow> real \<Rightarrow> bytes list \<Rightarrow> nat crawl" where
  "start_pending_loop E now [] = io_return 0"
| "start_pending_loop E now (h # hs) = io_bind (start_pending_lookup E now h) (\<lambda>started.
     io_bind (start_pending_loop E now hs) (\<lambda>k. io_return (if started then Suc k else k)))"

definition start_pending_lookups :: "crawler_env \<Rightarrow> real \<Rightarrow> nat crawl" where
  "start_pending_lookups E now =
     io_seq (crawl_assert (now \<ge> 0))
     (io_bind (on_catalog E (\<lambda>_ c. (fetchable_count c, c))) (\<lambda>fetchable.
      io_bind (io_get (\<lambda>s. free_slots (cr_lookup_manager s))) (\<lambda>free.
      io_bind (io_get cr_lookup_fetchable_target) (\<lambda>target.
      io_bind (on_manager E (\<lambda>m. (lm_tokens (refill m now), refill m now))) (\<lambda>tokens.
      let room = int target - int fetchable;
          slots = min free (min room \<lfloor>tokens\<rfloor>)
      in if slots \<le> 0 then io_return 0
         else io_bind (on_catalog E (\<lambda>wall c. hashes_needing_peers c (nat slots) wall None)) (\<lambda>hashes.
              io_bind (start_pending_loop E now hashes) (\<lambda>started.
              io_seq (count_stat lookups_started started)
                (io_seq (crawl_assert (int started \<le> slots)) (io_return started)))))))))"

section \<open>The loop\<close>

text \<open>The reads of one readable socket, at most \<open>n\<close>; the datagrams handled.\<close>

fun receive_loop :: "crawler_env \<Rightarrow> node_socket \<Rightarrow> nat \<Rightarrow> recv_result list \<Rightarrow> nat crawl" where
  "receive_loop E node_socket (Suc n) (Received data addr # results) =
     io_seq (handle_datagram E data addr node_socket)
       (io_bind (receive_loop E node_socket n results) (\<lambda>k. io_return (Suc k)))"
| "receive_loop E node_socket (Suc n) (RecvReset # results) = receive_loop E node_socket n results"
| "receive_loop E node_socket _ _ = io_return 0"

fun receive_sockets :: "crawler_env \<Rightarrow> (node_socket \<times> recv_result list) list \<Rightarrow> nat crawl" where
  "receive_sockets E [] = io_return 0"
| "receive_sockets E ((node_socket, results) # ready) =
     io_bind (receive_loop E node_socket MAX_RECEIVE_PER_SOCKET results) (\<lambda>n.
     io_bind (receive_sockets E ready) (\<lambda>k. io_return (n + k)))"

definition receive_pending :: "crawler_env \<Rightarrow> real \<Rightarrow> nat crawl" where
  "receive_pending E timeout =
     io_seq (crawl_assert (timeout \<ge> 0)) (io_bind (outside (ce_select E)) (receive_sockets E))"

record crawler_counts =
  ccs_counters :: "counter_key \<Rightarrow> nat"
  ccs_queue_size :: nat
  ccs_queue_size6 :: nat
  ccs_lookups :: lookup_counts

definition snapshot_stats :: "crawler \<Rightarrow> crawler_counts" where
  "snapshot_stats s =
     \<lparr>ccs_counters = cr_stats s,
      ccs_queue_size = length (fs_node_queue (snd (hd (cr_families s)))),
      ccs_queue_size6 = (case map_of (cr_families s) AF_INET6 of None \<Rightarrow> 0 | Some st \<Rightarrow> length (fs_node_queue st)),
      ccs_lookups = lookup_snapshot_counts (cr_lookup_manager s)\<rparr>"

definition run_iteration :: "crawler_env \<Rightarrow> real \<Rightarrow> real crawl" where
  "run_iteration E next_send = io_bind (outside (ce_clock E)) (\<lambda>now.
     io_bind (io_get cr_interval) (\<lambda>interval.
     io_bind (if now \<ge> next_send
              then io_seq (crawl_step E)
                   (io_seq (crawl_assert (now \<ge> 0))
                   (io_seq (on_manager E (\<lambda>m. ((), tick m now)))
                   (io_seq (start_pending_lookups E now)
                   (case next_batch_time next_send now interval of Inl e \<Rightarrow> io_raise e | Inr t \<Rightarrow> io_return t))))
              else io_return next_send) (\<lambda>next.
     io_bind (outside (ce_clock E)) (\<lambda>now2.
     io_seq (receive_pending E (max 0 (min interval (next - now2)))) (io_return next)))))"

text \<open>\<open>n\<close> rounds, after which the stop event is set.\<close>

primrec run_loop :: "crawler_env \<Rightarrow> nat \<Rightarrow> real \<Rightarrow> unit crawl" where
  "run_loop E 0 next_send = io_return ()"
| "run_loop E (Suc n) next_send = io_bind (run_iteration E next_send) (run_loop E n)"

definition crawler_run :: "crawler_env \<Rightarrow> nat \<Rightarrow> crawler_counts crawl" where
  "crawler_run E n =
     io_seq (bootstrap E None)
     (io_bind (outside (ce_clock E)) (\<lambda>next_send.
      io_seq (run_loop E n next_send)
      (io_seq (on_manager E (\<lambda>m. ((), abort_all m))) (io_get snapshot_stats))))"

end
