(* ===== verification/Lookup_Calls.thy ===== *)
theory Lookup_Calls
  imports Lookup_Properties
begin

text \<open>
  The contract between the lookup manager and the crawler that owns it: what each operation
  appends to the log of callbacks. Every query goes to a node that passed the filter, with a
  4-byte transaction id and a 20-byte info hash, and the lookups that end are reported finished
  exactly once: \<open>journal m m'\<close>.
\<close>

section \<open>Calls\<close>

primrec call_ok :: "(node \<Rightarrow> bool) \<Rightarrow> lookup_call \<Rightarrow> bool" where
  "call_ok flt (SendQuery t node h) \<longleftrightarrow>
     length t = LOOKUP_TRANSACTION_ID_LENGTH \<and> is_usable_node node flt \<and> length h = NODE_ID_LENGTH"
| "call_ok flt (OnPeers h peers) \<longleftrightarrow> length h = NODE_ID_LENGTH"
| "call_ok flt (OnFinished h peers) \<longleftrightarrow> length h = NODE_ID_LENGTH"

fun finished_hashes :: "lookup_call list \<Rightarrow> bytes list" where
  "finished_hashes [] = []"
| "finished_hashes (OnFinished h peers # cs) = h # finished_hashes cs"
| "finished_hashes (_ # cs) = finished_hashes cs"

lemma finished_hashes_append [simp]: "finished_hashes (cs @ ds) = finished_hashes cs @ finished_hashes ds"
  by (induction cs rule: finished_hashes.induct) auto

abbreviation active_hashes :: "lookup_manager \<Rightarrow> bytes set" where
  "active_hashes m \<equiv> fst ` set (lm_active m)"

definition journal :: "lookup_manager \<Rightarrow> lookup_manager \<Rightarrow> bool" where
  "journal m m' \<longleftrightarrow> lm_node_filter m' = lm_node_filter m
     \<and> (\<exists>cs. lm_calls m' = lm_calls m @ cs \<and> list_all (call_ok (lm_node_filter m)) cs
        \<and> distinct (finished_hashes cs) \<and> set (finished_hashes cs) \<subseteq> active_hashes m
        \<and> active_hashes m' = active_hashes m - set (finished_hashes cs))"

lemma journalI:
  assumes "lm_node_filter m' = lm_node_filter m" "lm_calls m' = lm_calls m @ cs" "list_all (call_ok (lm_node_filter m)) cs"
    "distinct (finished_hashes cs)" "set (finished_hashes cs) \<subseteq> active_hashes m"
    "active_hashes m' = active_hashes m - set (finished_hashes cs)"
  shows "journal m m'"
  using assms unfolding journal_def by blast

lemma journal_quiet:
  "lm_node_filter m' = lm_node_filter m \<Longrightarrow> lm_calls m' = lm_calls m \<Longrightarrow> active_hashes m' = active_hashes m \<Longrightarrow> journal m m'"
  by (rule journalI[where cs = "[]"]) simp_all

lemma journal_refl [simp]: "journal m m"
  by (rule journal_quiet) simp_all

lemma journal_trans:
  assumes "journal m1 m2" "journal m2 m3"
  shows "journal m1 m3"
proof -
  obtain cs ds where cs: "lm_calls m2 = lm_calls m1 @ cs" "list_all (call_ok (lm_node_filter m1)) cs" "distinct (finished_hashes cs)"
      "set (finished_hashes cs) \<subseteq> active_hashes m1" "active_hashes m2 = active_hashes m1 - set (finished_hashes cs)"
    and ds: "lm_calls m3 = lm_calls m2 @ ds" "list_all (call_ok (lm_node_filter m1)) ds" "distinct (finished_hashes ds)"
      "set (finished_hashes ds) \<subseteq> active_hashes m2" "active_hashes m3 = active_hashes m2 - set (finished_hashes ds)"
    using assms unfolding journal_def by auto
  show ?thesis
  proof (rule journalI[where cs = "cs @ ds"])
    show "distinct (finished_hashes (cs @ ds))" using cs(3,5) ds(3,4) by auto
    show "active_hashes m3 = active_hashes m1 - set (finished_hashes (cs @ ds))" using cs(5) ds(5) by auto
  qed (use assms cs ds in \<open>auto simp: journal_def\<close>)
qed

section \<open>The nodes of a lookup\<close>

definition lookup_nodes_ok :: "(node \<Rightarrow> bool) \<Rightarrow> peer_lookup \<Rightarrow> bool" where
  "lookup_nodes_ok flt l \<longleftrightarrow> length (pl_info_hash l) = NODE_ID_LENGTH \<and> (\<forall>p \<in> set (pl_shortlist l). is_usable_node (snd p) flt)"

definition nodes_ok :: "lookup_manager \<Rightarrow> bool" where
  "nodes_ok m \<longleftrightarrow> (\<forall>p \<in> set (lm_active m). pl_info_hash (snd p) = fst p \<and> lookup_nodes_ok (lm_node_filter m) (snd p))"

text \<open>A lookup held beside the manager.\<close>

definition held :: "lookup_manager \<Rightarrow> peer_lookup \<Rightarrow> bool" where
  "held m l \<longleftrightarrow> nodes_ok m \<and> lookup_nodes_ok (lm_node_filter m) l \<and> pl_info_hash l \<in> active_hashes m"

lemma heldI: "nodes_ok m \<Longrightarrow> map_of (lm_active m) h = Some l \<Longrightarrow> held m l \<and> pl_info_hash l = h"
  by (drule map_of_SomeD) (force simp: held_def nodes_ok_def)

lemma foldl_update_usable:
  "(\<And>n. n \<in> set ns \<Longrightarrow> c n \<Longrightarrow> P n) \<Longrightarrow> \<forall>p \<in> set d. P (snd p) \<Longrightarrow>
     \<forall>p \<in> set (foldl (\<lambda>d n. if c n then AList.update (fst n) n d else d) d ns). P (snd p)"
proof (induction ns arbitrary: d)
  case (Cons n ns)
  have "\<forall>p \<in> set (if c n then AList.update (fst n) n d else d). P (snd p)"
    using Cons.prems by (auto dest!: set_updateD)
  with Cons show ?case by simp
qed simp

lemma add_to_shortlist_nodes:
  assumes "lookup_nodes_ok (lm_node_filter m) l"
  shows "lookup_nodes_ok (lm_node_filter m) (add_to_shortlist m l ns)" "pl_info_hash (add_to_shortlist m l ns) = pl_info_hash l"
proof -
  let ?P = "\<lambda>n. is_usable_node n (lm_node_filter m)"
  define d where "d = foldl (\<lambda>d n. if ?P n \<and> address_of n \<notin> pl_queried l then AList.update (fst n) n d else d) (pl_shortlist l) ns"
  have d: "\<forall>p \<in> set d. ?P (snd p)"
    unfolding d_def using assms by (intro foldl_update_usable) (auto simp: lookup_nodes_ok_def)
  have "\<forall>p \<in> set (foldl (\<lambda>d n. if True then AList.update (fst n) n d else d) []
      (select_closest_nodes (map snd d) (pl_info_hash l) (ll_shortlist_size (lm_limits m)))). ?P (snd p)"
    using d set_select_closest by (intro foldl_update_usable) fastforce+
  with d assms show "lookup_nodes_ok (lm_node_filter m) (add_to_shortlist m l ns)"
    by (simp add: add_to_shortlist_def lookup_nodes_ok_def d_def[symmetric] Let_def)
qed (simp add: add_to_shortlist_def Let_def)

section \<open>Operations on a held lookup\<close>

text \<open>What an operation on a held lookup keeps, beside its entries in the journal.\<close>

definition held_step :: "lookup_manager \<Rightarrow> peer_lookup \<Rightarrow> lookup_manager \<Rightarrow> peer_lookup \<Rightarrow> bool" where
  "held_step m l m' l' \<longleftrightarrow> journal m m' \<and> lm_active m' = lm_active m \<and> held m' l' \<and> pl_info_hash l' = pl_info_hash l"

lemma held_step_refl: "held m l \<Longrightarrow> held_step m l m l"
  by (simp add: held_step_def journal_refl)

lemma held_step_trans: "held_step m l m1 l1 \<Longrightarrow> held_step m1 l1 m2 l2 \<Longrightarrow> held_step m l m2 l2"
  by (auto simp: held_step_def intro: journal_trans)

lemma held_step_quiet:
  assumes "held m l" "lm_node_filter m' = lm_node_filter m" "lm_calls m' = lm_calls m" "lm_active m' = lm_active m"
    "pl_info_hash l' = pl_info_hash l" "pl_shortlist l' = pl_shortlist l"
  shows "held_step m l m' l'"
proof -
  have "lookup_nodes_ok f l' = lookup_nodes_ok f l" for f using assms(5,6) by (simp add: lookup_nodes_ok_def)
  with assms journal_quiet[of m' m] show ?thesis by (simp add: held_step_def held_def nodes_ok_def)
qed

lemma send_to_held:
  assumes "held m l" "is_usable_node node (lm_node_filter m)" "send_to m l node now timeout = (t, m', l')"
  shows "held_step m l m' l'"
proof -
  have "length (lookup_transaction_id k) = LOOKUP_TRANSACTION_ID_LENGTH" for k
    by (simp add: lookup_transaction_id_def Let_def identity_consts)
  then have "journal m m'" using assms
    by (intro journalI[where cs = "[SendQuery (lookup_transaction_id (lm_sequence m)) node (pl_info_hash l)]"])
      (auto simp: send_to_def Let_def held_def lookup_nodes_ok_def)
  moreover have "lm_active m' = lm_active m" "lm_node_filter m' = lm_node_filter m" "pl_info_hash l' = pl_info_hash l"
    "pl_shortlist l' = pl_shortlist l" using assms(3) by (auto simp: send_to_def Let_def)
  moreover from this have "lookup_nodes_ok f l' = lookup_nodes_ok f l" for f by (simp add: lookup_nodes_ok_def)
  ultimately show ?thesis using assms(1) by (simp add: held_step_def held_def nodes_ok_def)
qed

lemma top_up_loop_held:
  assumes "held m l" "\<forall>n \<in> set ns. is_usable_node n (lm_node_filter m)" "top_up_loop m l now ns k = (k', m', l')"
  shows "held_step m l m' l'"
  using assms
proof (induction m l now ns k rule: top_up_loop.induct)
  case (2 m l now node ns k)
  show ?case
  proof (cases "lm_tokens m < 1")
    case False
    obtain t m1 l1 where s: "send_to m l node now (ll_query_timeout (lm_limits m)) = (t, m1, l1)" by (metis prod_cases3)
    have one: "held_step m l m1 l1" using send_to_held[OF "2.prems"(1) _ s] "2.prems"(2) by simp
    then have "held m1 l1" "lm_node_filter m1 = lm_node_filter m" by (simp_all add: held_step_def journal_def)
    with 2 False s have "held_step m1 l1 m' l'" by (auto simp: s)
    with one show ?thesis by (rule held_step_trans)
  qed (use 2 in \<open>simp add: held_step_refl\<close>)
qed (simp add: held_step_refl)

lemma refill_held: "held m l \<Longrightarrow> held_step m l (refill m now) l"
  by (rule held_step_quiet) simp_all

lemma top_up_held:
  assumes "held m l" "top_up m l now = (k, m', l')"
  shows "held_step m l m' l'"
proof -
  let ?m = "refill m now"
  let ?ns = "\<lambda>k. select_closest_nodes (top_up_candidates ?m l) (pl_info_hash l) k"
  have r: "held_step m l ?m l" by (rule refill_held[OF assms(1)])
  have "\<forall>n \<in> set (top_up_candidates ?m l). is_usable_node n (lm_node_filter ?m)"
    using assms(1) by (auto simp: top_up_candidates_def held_def lookup_nodes_ok_def)
  then have ns: "\<forall>n \<in> set (?ns k). is_usable_node n (lm_node_filter ?m)" for k
    using set_select_closest by blast
  show ?thesis
    using assms r held_step_trans[OF r top_up_loop_held[OF _ ns]]
    by (auto simp: top_up_def Let_def held_step_refl held_step_def split: if_splits)
qed

lemma release_transaction_held:
  "held m l \<Longrightarrow> release_transaction m l t = (m', l') \<Longrightarrow> held_step m l m' l'"
  by (rule held_step_quiet) (auto simp: release_transaction_def Let_def)

lemma release_all_held: "held m l \<Longrightarrow> release_all m l ts = (m', l') \<Longrightarrow> held_step m l m' l'"
proof (induction m l ts rule: release_all.induct)
  case (2 m l t ts)
  obtain m1 l1 where r: "release_transaction m l t = (m1, l1)" by fastforce
  have one: "held_step m l m1 l1" by (rule release_transaction_held[OF "2.prems"(1) r])
  with 2 r have "held_step m1 l1 m' l'" by (auto simp: held_step_def)
  with one show ?case by (rule held_step_trans)
qed (simp add: held_step_refl)

lemma write_back_held: "held m l \<Longrightarrow> journal m (write_back m l) \<and> nodes_ok (write_back m l)"
proof
  assume "held m l"
  then show "journal m (write_back m l)"
    by (intro journal_quiet) (simp_all add: held_def keys_update insert_absorb)
  show "nodes_ok (write_back m l)" using \<open>held m l\<close> by (auto simp: held_def nodes_ok_def dest!: set_updateD)
qed

lemma finish_held:
  assumes "held m l"
  shows "journal m (finish m l) \<and> nodes_ok (finish m l)"
proof -
  obtain m1 l1 where r: "release_all m (l\<lparr>pl_finished := True\<rparr>) (map fst (pl_pending l)) = (m1, l1)" by fastforce
  have "held m (l\<lparr>pl_finished := True\<rparr>)" using assms by (simp add: held_def lookup_nodes_ok_def)
  from release_all_held[OF this r] have one: "journal m m1" "held m1 l1" by (simp_all add: held_step_def)
  have "journal m1 (finish m l)"
    using one(2) by (intro journalI[where cs = "[OnFinished (pl_info_hash l1) (sort (pl_found_peers l1))]"])
      (auto simp: finish_def r Let_def held_def lookup_nodes_ok_def keys_delete)
  moreover have "nodes_ok (finish m l)" using one(2)
    by (auto simp: finish_def r Let_def held_def nodes_ok_def set_delete)
  ultimately show ?thesis using one(1) journal_trans by blast
qed

lemma advance_held:
  assumes "held m l"
  shows "journal m (advance m l now) \<and> nodes_ok (advance m l now)"
proof -
  obtain k m1 l1 where t: "top_up m l now = (k, m1, l1)" by (metis prod_cases3)
  have one: "journal m m1" "held m1 l1" using top_up_held[OF assms t] by (simp_all add: held_step_def)
  note two = finish_held[OF one(2)] write_back_held[OF one(2)]
  show ?thesis using assms finish_held[OF assms] write_back_held[OF assms] one two
    by (auto simp: advance_def t Let_def journal_refl held_def intro: journal_trans)
qed

lemma read_response_held:
  assumes "held m l" "read_response lib m l response from_hint = (m', l')"
  shows "held_step m l m' l'"
proof (cases response)
  case (PyDict d)
  define vals where "vals = decode_compact_peers lib (py_get d (ascii ''values''))"
  define m1 where "m1 = m\<lparr>lm_hint_values := lm_hint_values m + (if from_hint \<and> vals \<noteq> [] then 1 else 0)\<rparr>"
  define found where "found = collect_peers lib (ll_max_peers (lm_limits m)) (pl_found_peers l) vals"
  define l1 where "l1 = l\<lparr>pl_found_peers := found, pl_value_responses := pl_value_responses l + (if vals \<noteq> [] then 1 else 0)\<rparr>"
  define m2 where "m2 = (if drop (length (pl_found_peers l)) found \<noteq> [] \<and> lm_on_peers m1
    then log_call m1 (OnPeers (pl_info_hash l) (drop (length (pl_found_peers l)) found)) else m1)"
  define l2 where "l2 = (case py_get d (ascii ''nodes'') of
    PyBytes b \<Rightarrow> add_to_shortlist m2 l1 (decode_compact_nodes lib b COMPACT_NODE_LENGTH) | _ \<Rightarrow> l1)"
  define l3 where "l3 = (case py_get d (ascii ''nodes6'') of
    PyBytes b \<Rightarrow> add_to_shortlist m2 l2 (decode_compact_nodes6 lib b) | _ \<Rightarrow> l2)"
  have "read_response lib m l response from_hint = (m2, l3)"
    unfolding l3_def l2_def m2_def l1_def found_def m1_def vals_def read_response_def PyDict Let_def pyvalue.case by (rule refl)
  with assms(2) have eq: "m' = m2" "l' = l3" by simp_all
  have one: "held_step m l m1 l1" using assms(1) by (rule held_step_quiet) (simp_all add: m1_def l1_def)
  have j: "journal m1 m2"
    using assms(1) by (auto simp: m2_def held_def lookup_nodes_ok_def journal_refl intro!: journalI[where cs = "[OnPeers _ _]"])
  have f: "lm_node_filter m2 = lm_node_filter m1" "lm_active m2 = lm_active m1" by (simp_all add: m2_def)
  have l1: "lookup_nodes_ok (lm_node_filter m2) l1" using one f by (simp add: held_step_def held_def)
  then have l2: "lookup_nodes_ok (lm_node_filter m2) l2 \<and> pl_info_hash l2 = pl_info_hash l1"
    using add_to_shortlist_nodes[OF l1] by (simp add: l2_def split: pyvalue.splits)
  then have l3: "lookup_nodes_ok (lm_node_filter m2) l3 \<and> pl_info_hash l3 = pl_info_hash l1"
    using add_to_shortlist_nodes[of m2 l2] by (simp add: l3_def split: pyvalue.splits)
  moreover have "pl_info_hash l1 \<in> active_hashes m1" using one unfolding held_step_def held_def by blast
  ultimately have "held m2 l3" using one f by (simp add: held_step_def held_def nodes_ok_def)
  moreover have "lm_active m2 = lm_active m" "pl_info_hash l3 = pl_info_hash l" using one f l3 by (simp_all add: held_step_def)
  ultimately show ?thesis using j one journal_trans[of m m1 m2] by (simp add: held_step_def eq)
qed (use assms in \<open>simp_all add: read_response_def held_step_refl\<close>)

section \<open>The operations\<close>

lemma handle_response_journal:
  assumes "nodes_ok m"
  shows "journal m (handle_response lib m t response addr clock) \<and> nodes_ok (handle_response lib m t response addr clock)"
proof (cases "Option.bind (map_of (lm_transactions m) t) (map_of (lm_active m))")
  case None
  then have "handle_response lib m t response addr clock = m"
    by (auto simp: handle_response_def split: option.splits)
  with assms show ?thesis by (simp add: journal_refl)
next
  case (Some l)
  then obtain h where h: "map_of (lm_transactions m) t = Some h" "map_of (lm_active m) h = Some l"
    by (auto simp: bind_eq_Some_conv)
  have "held m l" using heldI[OF assms h(2)] by simp
  obtain m1 l1 where r: "release_transaction m l t = (m1, l1)" by fastforce
  let ?hint = "pl_hint_transaction l = Some t"
  let ?m2 = "m1\<lparr>lm_hint_answers := lm_hint_answers m1 + (if ?hint then 1 else 0)\<rparr>"
  obtain m3 l3 where rr: "read_response lib ?m2 l1 response ?hint = (m3, l3)" by fastforce
  have one: "held_step m l m1 l1" by (rule release_transaction_held[OF \<open>held m l\<close> r])
  have two: "held_step m1 l1 ?m2 l1" using one by (intro held_step_quiet) (simp_all add: held_step_def)
  have "held ?m2 l1" using two by (simp add: held_step_def)
  from read_response_held[OF this rr] have "held_step m l m3 l3" using one two held_step_trans by blast
  then show ?thesis using assms advance_held[of m3 l3 clock]
    by (auto simp: handle_response_def h r rr Let_def held_step_def journal_refl intro: journal_trans)
qed

lemma handle_error_journal:
  assumes "nodes_ok m"
  shows "journal m (handle_error m t clock) \<and> nodes_ok (handle_error m t clock)"
proof -
  let ?drop = "m\<lparr>lm_transactions := AList.delete t (lm_transactions m)\<rparr>"
  have drop: "journal m ?drop \<and> nodes_ok ?drop" using assms journal_quiet[of ?drop m] by (simp add: nodes_ok_def)
  show ?thesis
  proof (cases "Option.bind (map_of (lm_transactions m) t) (map_of (lm_active m))")
    case None
    with drop show ?thesis by (simp add: handle_error_def Let_def)
  next
    case (Some l)
    then obtain h where h: "map_of (lm_active m) h = Some l" by (auto simp: bind_eq_Some_conv)
    have "held m l" using heldI[OF assms h] by simp
    obtain m1 l1 where r: "release_transaction m l t = (m1, l1)" by fastforce
    have "held_step m l m1 l1" by (rule release_transaction_held[OF \<open>held m l\<close> r])
    with drop Some r show ?thesis using advance_held[of m1 l1 clock]
      by (auto simp: handle_error_def Let_def held_step_def intro: journal_trans)
  qed
qed

lemma tick_one_journal: "nodes_ok m \<Longrightarrow> journal m (tick_one now m h) \<and> nodes_ok (tick_one now m h)"
proof (cases "map_of (lm_active m) h")
  case (Some l)
  assume ok: "nodes_ok m"
  obtain m1 l1 where e: "expire_pending m l now = (m1, l1)" by fastforce
  have "held_step m l m1 l1" using heldI[OF ok Some] e release_all_held unfolding expire_pending_def by blast
  then show ?thesis using advance_held[of m1 l1 now] by (auto simp: tick_one_def Some e held_step_def intro: journal_trans)
qed (simp add: tick_one_def journal_refl)

lemma foldl_journal:
  "(\<And>m x. nodes_ok m \<Longrightarrow> journal m (f m x) \<and> nodes_ok (f m x)) \<Longrightarrow> nodes_ok m \<Longrightarrow>
     journal m (foldl f m xs) \<and> nodes_ok (foldl f m xs)"
  by (induction xs arbitrary: m) (auto simp: journal_refl intro: journal_trans)

lemma refill_journal: "nodes_ok m \<Longrightarrow> journal m (refill m now) \<and> nodes_ok (refill m now)"
  using journal_quiet[of "refill m now" m] by (simp add: nodes_ok_def)

lemma tick_journal: "nodes_ok m \<Longrightarrow> journal m (tick m now) \<and> nodes_ok (tick m now)"
  unfolding tick_def using foldl_journal[of "tick_one now" "refill m now"] refill_journal[of m now] tick_one_journal
  by (blast intro: journal_trans)

lemma finish_one_journal: "nodes_ok m \<Longrightarrow> journal m (finish_one m h) \<and> nodes_ok (finish_one m h)"
  using heldI finish_held by (cases "map_of (lm_active m) h") (auto simp: finish_one_def journal_refl)

lemma abort_all_journal: "nodes_ok m \<Longrightarrow> journal m (abort_all m) \<and> nodes_ok (abort_all m)"
  unfolding abort_all_def by (rule foldl_journal) (simp_all add: finish_one_journal)

text \<open>A lookup that starts is active afterwards; one that does not leaves the active ones as they are.\<close>

definition opened :: "lookup_manager \<Rightarrow> bytes \<Rightarrow> bool \<Rightarrow> lookup_manager \<Rightarrow> bool" where
  "opened m h started m' \<longleftrightarrow> lm_node_filter m' = lm_node_filter m
     \<and> (\<exists>cs. lm_calls m' = lm_calls m @ cs \<and> list_all (call_ok (lm_node_filter m)) cs \<and> finished_hashes cs = [])
     \<and> active_hashes m' = (if started then insert h (active_hashes m) else active_hashes m)
     \<and> (started \<longrightarrow> h \<notin> active_hashes m)"

lemma diff_none: "F \<subseteq> A \<Longrightarrow> A = A - F \<Longrightarrow> F = {}"
  by blast

lemma refusals:
  assumes "(if a then (False, m) else if b then (False, m1) else if c then (False, m1) else if d then (False, m1) else x) = (started, m')"
  obtains "started = False" "m' = m \<or> m' = m1" | "\<not> a" "x = (started, m')"
  using assms by (auto split: if_splits)

lemma start_lookup_opened:
  assumes "nodes_ok m" "length h = NODE_ID_LENGTH" "start_lookup m h seeds now hint = (started, m')"
  shows "opened m h started m' \<and> nodes_ok m'"
proof -
  let ?m1 = "refill m now"
  let ?l = "add_to_shortlist ?m1 (new_lookup h (now + ll_deadline (lm_limits ?m1))) seeds"
  let ?m2 = "(write_back ?m1 ?l)\<lparr>lm_started_total := lm_started_total ?m1 + 1\<rparr>"
  have refused: "opened m h False m \<and> nodes_ok m" "opened m h False ?m1 \<and> nodes_ok ?m1"
    using assms(1) by (simp_all add: opened_def nodes_ok_def)
  have "lookup_nodes_ok (lm_node_filter ?m1) (new_lookup h (now + ll_deadline (lm_limits ?m1)))"
    using assms(2) by (simp add: lookup_nodes_ok_def new_lookup_def)
  note l = add_to_shortlist_nodes[OF this, of seeds]
  have hash: "pl_info_hash ?l = h" using l(2) by (simp add: new_lookup_def)
  have held: "held ?m2 ?l"
    using assms(1) l hash by (auto simp: held_def nodes_ok_def keys_update dest!: set_updateD)
  have started: "opened m h True m4 \<and> nodes_ok m4"
    if step: "held_step ?m2 ?l m3 l3" and new: "h \<notin> active_hashes m" and wb: "lm_node_filter m4 = lm_node_filter m3"
      "active_hashes m4 = active_hashes m3" "lm_calls m4 = lm_calls m3" "nodes_ok m4" for m3 l3 m4
  proof -
    obtain cs where cs: "lm_calls m3 = lm_calls m @ cs" "list_all (call_ok (lm_node_filter m)) cs" "lm_node_filter m3 = lm_node_filter m"
      "set (finished_hashes cs) \<subseteq> active_hashes ?m2" "active_hashes m3 = active_hashes ?m2 - set (finished_hashes cs)"
      using step by (auto simp: held_step_def journal_def)
    have same: "active_hashes m3 = active_hashes ?m2" and ins: "active_hashes ?m2 = insert h (active_hashes m)"
      using step hash by (simp_all add: held_step_def keys_update)
    have "set (finished_hashes cs) = {}" by (rule diff_none[OF cs(4)]) (use cs(5) same in \<open>simp only:\<close>)
    then have "finished_hashes cs = []" by simp
    moreover have "active_hashes m4 = insert h (active_hashes m)" using wb(2) same ins by (simp only:)
    ultimately show ?thesis using cs(1,2,3) new wb(1,3,4) by (simp add: opened_def)
  qed
  let ?hint = "case hint of None \<Rightarrow> None | Some node \<Rightarrow> if is_usable_node node (lm_node_filter ?m1) then Some node else None"
  let ?A = "h \<in> active_hashes m \<or> free_slots m = 0" and ?B = "lm_tokens ?m1 < 1"
  let ?C = "case ?hint of None \<Rightarrow> False | Some node \<Rightarrow> in_flight_at ?m1 (address_of node) \<ge> ll_max_per_node (lm_limits ?m1)"
  let ?D = "?hint = None \<and> pl_shortlist ?l = []"
  have eq: "start_lookup m h seeds now hint = (if ?A then (False, m) else if ?B then (False, ?m1) else if ?C then (False, ?m1)
      else if ?D then (False, ?m1) else case ?hint of
        Some node \<Rightarrow> (let (t, m3, l3) = send_to ?m2 ?l node now (ll_hint_timeout (lm_limits ?m2))
               in (True, (write_back m3 (l3\<lparr>pl_hint_transaction := Some t\<rparr>))\<lparr>lm_hint_queries := lm_hint_queries m3 + 1\<rparr>))
      | None \<Rightarrow> (let (_, m3, l3) = top_up ?m2 ?l now in (True, write_back m3 l3)))"
    unfolding start_lookup_def Let_def by (rule refl)
  consider (no) "started = False" "m' = m \<or> m' = ?m1"
    | (hint) node where "h \<notin> active_hashes m" "?hint = Some node" "started = True"
        "m' = (let (t, m3, l3) = send_to ?m2 ?l node now (ll_hint_timeout (lm_limits ?m2))
               in (write_back m3 (l3\<lparr>pl_hint_transaction := Some t\<rparr>))\<lparr>lm_hint_queries := lm_hint_queries m3 + 1\<rparr>)"
    | (top) "h \<notin> active_hashes m" "started = True" "m' = (let (_, m3, l3) = top_up ?m2 ?l now in write_back m3 l3)"
  proof (rule refusals[OF eq[symmetric, unfolded assms(3)]], goal_cases)
    case 1
    then show ?case using no by blast
  next
    case 2
    then have new: "h \<notin> active_hashes m" by simp
    show ?case
    proof (cases ?hint)
      case None
      from 2(5) new top show ?thesis by (simp only: None option.case split_beta Let_def prod.inject simp_thms)
    next
      case (Some node)
      from 2(5) new hint[of node] show ?thesis by (simp only: Some option.case split_beta Let_def prod.inject simp_thms)
    qed
  qed
  then show ?thesis
  proof cases
    case no
    with refused show ?thesis by auto
  next
    case hint
    obtain t m3 l3 where s: "send_to ?m2 ?l node now (ll_hint_timeout (lm_limits ?m2)) = (t, m3, l3)" by (metis prod_cases3)
    have "is_usable_node node (lm_node_filter ?m2)" using hint(2) by (auto split: option.splits if_splits)
    note step = send_to_held[OF held this s]
    have "held m3 l3" using step unfolding held_step_def by blast
    then have l3: "held m3 (l3\<lparr>pl_hint_transaction := Some t\<rparr>)" by (simp add: held_def lookup_nodes_ok_def)
    let ?m4 = "(write_back m3 (l3\<lparr>pl_hint_transaction := Some t\<rparr>))\<lparr>lm_hint_queries := lm_hint_queries m3 + 1\<rparr>"
    have "opened m h True ?m4 \<and> nodes_ok ?m4"
      using write_back_held[OF l3] l3 by (intro started[OF step hint(1)]) (simp_all add: nodes_ok_def held_def keys_update insert_absorb)
    with hint s show ?thesis by simp
  next
    case top
    obtain k m3 l3 where s: "top_up ?m2 ?l now = (k, m3, l3)" by (metis prod_cases3)
    note step = top_up_held[OF held s]
    then have l3: "held m3 l3" unfolding held_step_def by blast
    have "opened m h True (write_back m3 l3) \<and> nodes_ok (write_back m3 l3)"
      using write_back_held[OF l3] l3 by (intro started[OF step top(1)]) (simp_all add: held_def keys_update insert_absorb)
    with top s show ?thesis by simp
  qed
qed

end
