(* ===== verification/Catalog_Claims.thy ===== *)
theory Catalog_Claims
  imports Catalog_Properties
begin

text \<open>
  The lookup claims of the catalog (the entries with a lookup under way), which the crawler
  must match with the lookups it runs: which operation changes them and how. Only the three
  lookup methods do; whatever else the crawler records or another thread does keeps them.
\<close>

definition claimed :: "catalog \<Rightarrow> bytes set" where
  "claimed c = hashes_with c te_lookup_in_progress"

section \<open>Operations that keep the claims\<close>

definition calm :: "catalog \<Rightarrow> catalog \<Rightarrow> bool" where
  "calm c c' \<longleftrightarrow> keeps c c' \<and> (\<forall>r. te_lookup_in_progress (c_heap c' r) = te_lookup_in_progress (c_heap c r))"

lemma calm_claimed: "calm c c' \<Longrightarrow> claimed c' = claimed c"
  by (simp add: calm_def keeps_def claimed_def hashes_with_def)

lemma calm_refl [simp]: "calm c c"
  by (simp add: calm_def keeps_def)

lemma calm_trans: "calm c c1 \<Longrightarrow> calm c1 c2 \<Longrightarrow> calm c c2"
  by (simp add: calm_def keeps_def)

lemma calm_foldl: "(\<And>c x. calm c (f c x)) \<Longrightarrow> calm c (foldl f c xs)"
  by (induction xs arbitrary: c) (auto intro: calm_trans)

lemma calm_upd: "(\<And>e. te_lookup_in_progress (f e) = te_lookup_in_progress e) \<Longrightarrow> calm c (upd_entry c r f)"
  by (simp add: calm_def keeps_def)

lemma calm_state: "calm c (set_state_locked c r st)" and calm_index: "calm c (index_entry_locked c r)"
  and calm_forget_known: "calm c (forget_known_locked c r)"
  by (simp_all add: calm_def keeps_def forget_known_locked_def)

lemma calm_add_peer: "calm c (snd (add_peer_locked c r peer))"
  by (simp add: calm_def keeps_add_peer) (simp add: add_peer_locked_def Let_def)

lemma calm_add_peers_loop: "calm c (snd (add_peers_loop c r peers n))"
  by (induction peers arbitrary: c n) (auto simp: Let_def split_beta intro: calm_trans[OF calm_add_peer])

lemma calm_add_peers: "calm c (snd (add_peers c h peers))"
  by (auto simp: add_peers_def split_beta intro: calm_trans[OF calm_add_peers_loop calm_index] split: option.splits)

lemma calm_drop: "calm c (drop_unwritten_metadata_locked c r)"
  by (simp add: calm_def keeps_drop) (simp add: drop_unwritten_metadata_locked_def Let_def)

lemma calm_queue: "calm c (queue_document_locked c r)"
proof -
  have "te_lookup_in_progress (c_heap (drop_unwritten_metadata_locked c' r') q) = te_lookup_in_progress (c_heap c' q)" for c' r' q
    using calm_drop[of c' r'] by (simp add: calm_def)
  then show ?thesis by (simp add: calm_def keeps_queue) (simp add: queue_document_locked_def Let_def)
qed

lemma calm_claim_fetches: "calm c (snd (claim_fetches c rs))"
  by (induction rs arbitrary: c)
    (auto simp: Let_def split_beta claim_fetch_def intro: calm_trans[OF calm_trans[OF calm_state calm_index]])

lemma calm_release_fetch: "calm c (release_fetch_claim c h)"
  by (auto simp: release_fetch_claim_def intro: calm_trans[OF calm_state calm_index] split: option.splits)

lemma calm_store:
  assumes "md_info_hash (snd metadata) \<in> fst ` set (c_entries c)"
  shows "calm c (snd (store_metadata c metadata clock now))"
proof -
  obtain r where go: "get_or_create_locked c (md_info_hash (snd metadata)) (moment_or_now clock now) = (r, False, c)"
    using get_or_create_old[OF assms] by blast
  have q: "te_lookup_in_progress (c_heap (queue_document_locked c' r') k) = te_lookup_in_progress (c_heap c' k)" for c' r' k
    using calm_queue[of c' r'] by (simp add: calm_def)
  show ?thesis unfolding calm_def store_metadata_def go Let_def split_conv snd_conv
    by (simp add: keeps_def q forget_known_locked_def)
qed

lemma calm_forget: "calm c (foldl (\<lambda>c p. forget_peer_locked c r p) c ps)"
  by (rule calm_foldl) (simp add: calm_def keeps_def forget_peer_locked_def)

lemma calm_mark_failed: "calm c (snd (mark_fetch_failed c h peers reason clock now))"
proof (cases "map_of (c_entries c) h")
  case (Some r)
  let ?c1 = "foldl (\<lambda>c p. forget_peer_locked c r p) c peers"
  have c1: "c_entries ?c1 = c_entries c" "c_max_entries ?c1 = c_max_entries c"
    "\<And>q. te_lookup_in_progress (c_heap ?c1 q) = te_lookup_in_progress (c_heap c q)"
    using calm_forget[of c r peers] by (simp_all add: calm_def keeps_def)
  show ?thesis unfolding calm_def mark_fetch_failed_def Some option.case Let_def snd_conv
    by (simp add: keeps_def c1)
qed (simp add: mark_fetch_failed_def)

lemma calm_drain_counters: "calm c (snd (drain_counters c limit result))"
proof (induction c limit result rule: drain_counters.induct)
  case (1 c limit result)
  show ?case
  proof (cases "c_index_counters c")
    case Nil
    then show ?thesis by (subst drain_counters.simps) simp
  next
    case (Cons p counters)
    obtain h r where p: "p = (h, r)" by (cases p)
    have "calm (c\<lparr>c_index_counters := counters\<rparr>) (queue_document_locked (c\<lparr>c_index_counters := counters\<rparr>) r)"
      by (rule calm_queue)
    with "1.IH"[OF Cons p[symmetric]] Cons p show ?thesis
      by (subst drain_counters.simps) (simp add: Let_def calm_def keeps_def)
  qed
qed

lemma calm_drain: "calm c (snd (drain_index_counters c limit))"
  using calm_drain_counters[of "c\<lparr>c_orphan_counters := _\<rparr>" limit]
  by (simp add: drain_index_counters_def calm_def keeps_def split_beta)

lemma calm_requeue_counters: "calm c (requeue_index_counters c ss)"
  unfolding requeue_index_counters_def
  by (rule calm_foldl) (simp add: calm_def keeps_def requeue_index_counter_def add_orphan_locked_def Let_def)

lemma calm_counters_written: "calm c (mark_counters_written c ss)"
  unfolding mark_counters_written_def by (rule calm_foldl) (simp add: calm_def keeps_def add_flushed_def)

lemma calm_index_written: "calm c (mark_index_written c s base)"
  by (simp add: calm_def keeps_mark_written)
    (simp add: mark_index_written_def Let_def add_flushed_def release_metadata_locked_def)

lemma calm_check_off: "calm c (set_database_check c enabled)"
proof -
  have "calm c' (foldl check_off c' rs)" for c' rs by (rule calm_foldl) (simp add: calm_def keeps_def check_off_def)
  then show ?thesis by (simp add: set_database_check_def Let_def calm_def keeps_def)
qed

lemma calm_apply: "calm c (apply_database_checks c hs found)"
  unfolding apply_database_checks_def
  by (rule calm_foldl) (simp add: calm_def keeps_apply, simp add: apply_database_check_def Let_def split: option.splits)

lemma calm_reset: "calm c (reset_index_base c h)"
proof (cases "map_of (c_entries c) h")
  case (Some r)
  have q: "te_lookup_in_progress (c_heap (queue_document_locked c' r') k) = te_lookup_in_progress (c_heap c' k)" for c' r' k
    using calm_queue[of c' r'] by (simp add: calm_def)
  show ?thesis unfolding calm_def using keeps_reset[of c h]
    unfolding reset_index_base_def Some option.case Let_def by (simp add: q forget_known_locked_def)
qed (simp add: reset_index_base_def)

section \<open>What the other threads do\<close>

text \<open>The methods that the fetch engine, the indexer and the runtime call.\<close>

inductive background_step :: "catalog \<Rightarrow> catalog \<Rightarrow> bool" where
  "background_step c (snd (next_fetch_candidates c limit))"
| "md_info_hash (snd metadata) \<in> fst ` set (c_entries c) \<Longrightarrow> background_step c (snd (store_metadata c metadata clock now))"
| "(\<And>r. map_of (c_entries c) h = Some r \<Longrightarrow> te_fetch_state (c_heap c r) = FETCH_IN_PROGRESS) \<Longrightarrow>
     background_step c (snd (mark_fetch_failed c h peers reason clock now))"
| "background_step c (release_fetch_claim c h)"
| "background_step c (enable_index_tracking c max_pending check_database)"
| "background_step c (snd (drain_index_documents c limit))"
| "background_step c (snd (drain_index_counters c limit))"
| "(\<And>s. s \<in> set ss \<Longrightarrow> unwritten c s) \<Longrightarrow> background_step c (requeue_index_documents c ss)"
| "background_step c (requeue_index_counters c ss)"
| "background_step c (mark_counters_written c ss)"
| "background_step c (set_index_base c h base)"
| "is_metadata s \<noteq> None \<Longrightarrow> background_step c (mark_index_written c s base)"
| "background_step c (set_database_check c enabled)"
| "background_step c (apply_database_checks c hs found)"
| "background_step c (reset_index_base c h)"

lemma background_catalog_step: "background_step c c' \<Longrightarrow> catalog_step c c'"
  by (induction rule: background_step.induct) (auto intro: catalog_step.intros)

lemma background_calm: "background_step c c' \<Longrightarrow> calm c c'"
  by (induction rule: background_step.induct)
    (simp_all add: next_fetch_candidates_def calm_claim_fetches calm_store calm_mark_failed calm_release_fetch calm_drain
      calm_requeue_counters calm_counters_written calm_index_written calm_check_off calm_apply calm_reset,
     simp_all add: calm_def keeps_def enable_index_tracking_def drain_index_documents_def requeue_index_documents_def
       set_index_base_def split: option.splits)

text \<open>A catalog whose hashes all have their 20 bytes: the assertion of every method that takes one.\<close>

definition cat_fine :: "catalog \<Rightarrow> bool" where
  "cat_fine c \<longleftrightarrow> cat_ok c \<and> (\<forall>h \<in> fst ` set (c_entries c). length h = NODE_ID_LENGTH)"

lemma calm_fine: "calm c c' \<Longrightarrow> cat_ok c' \<Longrightarrow> cat_fine c \<Longrightarrow> cat_fine c'"
  by (simp add: cat_fine_def calm_def keeps_def)

lemma background_steps:
  "background_step\<^sup>*\<^sup>* c c' \<Longrightarrow> cat_fine c \<Longrightarrow> cat_fine c' \<and> claimed c' = claimed c"
proof (induction rule: rtranclp_induct)
  case (step c1 c2)
  have "cat_ok c2" using step catalog_step_ok[OF background_catalog_step] by (simp add: cat_fine_def)
  with step calm_fine[OF background_calm] calm_claimed[OF background_calm] show ?case by blast
qed simp

section \<open>Recording\<close>

text \<open>What protects an entry from eviction, a lookup or a fetch under way, is not changed either.\<close>

lemma record_locked_protected:
  assumes "cat_ok c" and P: "\<And>e. P e \<Longrightarrow> \<not> is_evictable e"
    and same: "\<And>e e'. te_lookup_in_progress e = te_lookup_in_progress e' \<Longrightarrow> te_fetch_state e = te_fetch_state e' \<Longrightarrow> P e = P e'"
  shows "hashes_with (snd (record_locked c h src peer moment)) P = hashes_with c P"
proof -
  let ?new = "fst (record_locked c h src peer moment)" and ?c' = "snd (record_locked c h src peer moment)"
  obtain r c6 where rec: "recorded c h ?new ?c' r c6" by (rule record_before_eviction[OF assms(1)])
  then have ok: "cat_ok c6" and at: "map_of (c_entries c6) h = Some r" by (simp_all add: recorded_def)
  have six: "hashes_with c6 P = hashes_with c P"
  proof (rule set_eqI)
    fix k
    show "k \<in> hashes_with c6 P \<longleftrightarrow> k \<in> hashes_with c P"
    proof (cases "k = h")
      case True
      show ?thesis
      proof (cases ?new)
        case created: True
        then have "length (c_entries c6) = Suc (length (c_entries c))" using rec by (simp add: recorded_def)
        have "map_of (c_entries c) h = None"
          using created by (cases "map_of (c_entries c) h") (auto simp: record_locked_def get_or_create_locked_def Let_def)
        moreover have "\<not> P (c_heap c6 r)" using rec created P by (auto simp: recorded_def)
        ultimately show ?thesis using True at by (simp add: hashes_with_def)
      next
        case False
        then have old: "map_of (c_entries c) h = Some r" "te_lookup_in_progress (c_heap c6 r) = te_lookup_in_progress (c_heap c r)"
          "te_fetch_state (c_heap c6 r) = te_fetch_state (c_heap c r)"
          using rec by (simp_all add: recorded_def)
        show ?thesis using True at old(1) same[OF old(2,3)] by (simp add: hashes_with_def)
      qed
    next
      case False
      have "map_of (c_entries c6) k = map_of (c_entries c) k"
        using rec False unfolding recorded_def by (metis not_None_eq)
      moreover have "q \<noteq> r" if "map_of (c_entries c6) k = Some q" for q
        using False that at entry_hash[OF ok] by metis
      moreover have "\<And>q. q \<noteq> r \<Longrightarrow> c_heap c6 q = c_heap c q" using rec by (simp add: recorded_def)
      ultimately show ?thesis by (auto simp: hashes_with_def)
    qed
  qed
  have "hashes_with (evict_locked c6) P = hashes_with c6 P"
  proof -
    have od: "od_ok (c_entries c6)" "od_ok (c_entries (evict_locked c6))" using ok evict_locked_ok(1)[OF ok] by (simp_all add: inv_defs)
    have v: "is_evictable (c_heap c6 q)" if "q \<in> set (eviction_victims c6)" for q
      using that victims_ok(2)[OF ok] by (auto simp: evictable_refs_def)
    have "map_of (c_entries (evict_locked c6)) k = Some q \<longleftrightarrow> map_of (c_entries c6) k = Some q \<and> q \<notin> set (eviction_victims c6)" for k q
      using evict_locked_ok(2)[OF ok] od by (simp add: map_of_eq_Some_iff)
    moreover have "c_heap (evict_locked c6) q = c_heap c6 q" if "P (c_heap c6 q)" for q
      using evict_locked_ok(5)[OF ok, of q] v[of q] P[OF that] by blast
    ultimately show ?thesis using v P evict_locked_ok(5)[OF ok] unfolding hashes_with_def
      by (intro Collect_cong) metis
  qed
  with six rec show ?thesis by (simp add: recorded_def)
qed

lemma record_locked_claimed: "cat_ok c \<Longrightarrow> claimed (snd (record_locked c h src peer moment)) = claimed c"
  unfolding claimed_def by (rule record_locked_protected) (auto simp: is_evictable_def)

lemma record_locked_fine:
  assumes "cat_fine c" "length h = NODE_ID_LENGTH"
  shows "cat_fine (snd (record_locked c h src peer moment))"
proof -
  have ok: "cat_ok c" using assms(1) by (simp add: cat_fine_def)
  obtain r c6 where rec: "recorded c h (fst (record_locked c h src peer moment)) (snd (record_locked c h src peer moment)) r c6"
    by (rule record_before_eviction[OF ok])
  then have ok6: "cat_ok c6" by (simp add: recorded_def)
  have len: "length k = NODE_ID_LENGTH" if k: "k \<in> fst ` set (c_entries c6)" for k
  proof -
    obtain q where "map_of (c_entries c6) k = Some q" using k by (cases "map_of (c_entries c6) k") (auto simp: map_of_eq_None_iff)
    then have "k = h \<or> k \<in> fst ` set (c_entries c)" using rec unfolding recorded_def by (metis map_of_SomeD fst_conv image_eqI)
    with assms show ?thesis by (auto simp: cat_fine_def)
  qed
  have "fst ` set (c_entries (evict_locked c6)) \<subseteq> fst ` set (c_entries c6)" using evict_locked_ok(2)[OF ok6] by auto
  then have evicted: "\<forall>k \<in> fst ` set (c_entries (evict_locked c6)). length k = NODE_ID_LENGTH" using len by (meson subsetD)
  have "snd (record_locked c h src peer moment) = c6 \<or> snd (record_locked c h src peer moment) = evict_locked c6"
    using rec by (simp add: recorded_def)
  then have "\<forall>k \<in> fst ` set (c_entries (snd (record_locked c h src peer moment))). length k = NODE_ID_LENGTH"
    using len evicted by metis
  with record_locked_ok[OF ok] show ?thesis by (simp add: cat_fine_def)
qed

lemma record_loop_fine:
  "cat_fine c \<Longrightarrow> list_all (\<lambda>h. length h = NODE_ID_LENGTH) hs \<Longrightarrow> cat_fine (snd (record_loop c hs src moment n))"
  by (induction hs arbitrary: c n) (auto simp: Let_def split_beta record_locked_fine)

lemma record_loop_claimed: "cat_ok c \<Longrightarrow> claimed (snd (record_loop c hs src moment n)) = claimed c"
  by (induction hs arbitrary: c n) (auto simp: Let_def split_beta record_locked_claimed record_locked_ok)

section \<open>The lookup methods\<close>

text \<open>A change of the flag of one entry.\<close>

lemma claimed_flag:
  assumes "cat_ok c" "map_of (c_entries c) h = Some r" "c_entries c' = c_entries c"
    "\<And>q. te_lookup_in_progress (c_heap c' q) = (if q = r then b else te_lookup_in_progress (c_heap c q))"
  shows "claimed c' = (if b then insert h (claimed c) else claimed c - {h})"
proof -
  have "q \<noteq> r" if "map_of (c_entries c) k = Some q" "k \<noteq> h" for k q
    using that assms(2) entry_hash[OF assms(1)] by metis
  then show ?thesis using assms(2-4) by (auto simp: claimed_def hashes_with_def)
qed

lemma unclaimed_noop: "map_of (c_entries c) h = None \<Longrightarrow> claimed c - {h} = claimed c"
  by (auto simp: claimed_def hashes_with_def)

lemma keeps_fine: "keeps c c' \<Longrightarrow> cat_ok c' \<Longrightarrow> cat_fine c \<Longrightarrow> cat_fine c'"
  by (simp add: cat_fine_def keeps_def)

lemma lookup_methods_fine:
  assumes "cat_fine c"
  shows "cat_fine (snd (add_peers c h peers))" "cat_fine (release_lookup_claim c h)"
    "cat_fine (add_lookup_result c h peers clock now)" "cat_fine (snd (hashes_needing_peers c limit clock now))"
proof -
  have ok: "cat_ok c" using assms by (simp add: cat_fine_def)
  show "cat_fine (snd (add_peers c h peers))" using calm_fine[OF calm_add_peers add_peers_ok[OF ok] assms] .
  have "keeps c (release_lookup_claim c h)" by (simp add: keeps_def release_lookup_claim_def split: option.splits)
  then show "cat_fine (release_lookup_claim c h)" using release_lookup_claim_ok[OF ok] assms by (rule keeps_fine)
  have "c_entries (snd (add_peers_loop c' r peers 0)) = c_entries c' \<and>
      c_max_entries (snd (add_peers_loop c' r peers 0)) = c_max_entries c'" for c' r
    using keeps_add_peers_loop[of c' r peers 0] by (simp add: keeps_def)
  then have "keeps c (add_lookup_result c h peers clock now)"
    by (simp add: add_lookup_result_def Let_def keeps_def split: option.splits)
  then show "cat_fine (add_lookup_result c h peers clock now)" using add_lookup_result_ok[OF ok] assms by (rule keeps_fine)
  have "keeps c (foldl claim_lookup c rs)" for rs by (rule keeps_foldl) (simp add: keeps_def claim_lookup_def)
  then have "keeps c (snd (hashes_needing_peers c limit clock now))" by (simp add: hashes_needing_peers_def Let_def)
  then show "cat_fine (snd (hashes_needing_peers c limit clock now))" using hashes_needing_peers_ok[OF ok] assms by (rule keeps_fine)
qed

lemma release_lookup_claim_claimed:
  assumes "cat_ok c"
  shows "claimed (release_lookup_claim c h) = claimed c - {h}"
proof (cases "map_of (c_entries c) h")
  case (Some r)
  show ?thesis
    by (rule claimed_flag[OF assms Some, where b = False, simplified]) (auto simp: release_lookup_claim_def Some)
qed (simp add: release_lookup_claim_def unclaimed_noop)

lemma add_lookup_result_claimed:
  assumes "cat_ok c"
  shows "claimed (add_lookup_result c h peers clock now) = claimed c - {h}"
proof (cases "map_of (c_entries c) h")
  case (Some r)
  have p: "c_entries (snd (add_peers_loop c' r peers 0)) = c_entries c'"
    "te_lookup_in_progress (c_heap (snd (add_peers_loop c' r peers 0)) q) = te_lookup_in_progress (c_heap c' q)" for c' q
    using calm_add_peers_loop[of c' r peers 0] by (simp_all add: calm_def keeps_def)
  show ?thesis
    by (rule claimed_flag[OF assms Some, where b = False, simplified])
      (auto simp: add_lookup_result_def Some Let_def p)
qed (simp add: add_lookup_result_def unclaimed_noop)

lemma claim_lookups_heap:
  "c_entries (foldl claim_lookup c rs) = c_entries c
   \<and> (\<forall>q. te_lookup_in_progress (c_heap (foldl claim_lookup c rs) q) = (q \<in> set rs \<or> te_lookup_in_progress (c_heap c q)))
   \<and> (\<forall>q. te_info_hash (c_heap (foldl claim_lookup c rs) q) = te_info_hash (c_heap c q))"
  by (induction rs arbitrary: c) (auto simp: claim_lookup_def)

lemma hashes_needing_peers_claimed:
  assumes "cat_ok c" "hashes_needing_peers c limit clock now = (hs, c')"
  shows "claimed c' = claimed c \<union> set hs" "distinct hs" "set hs \<inter> claimed c = {}" "length hs \<le> limit"
    "set hs \<subseteq> fst ` set (c_entries c)"
proof -
  define rs where "rs = take limit (filter (\<lambda>r. te_next_lookup_time (c_heap c r) \<le> moment_or_now clock now) (rev (map snd (c_needs_lookup c))))"
  have c': "c' = foldl claim_lookup c rs" and hs: "hs = map (\<lambda>r. te_info_hash (c_heap c r)) rs"
    using assms(2) claim_lookups_heap[of c rs] by (auto simp: hashes_needing_peers_def Let_def rs_def)
  note refs = index_refs[OF assms(1) index_dicts(1,2)[OF assms(1)]]
  have sub: "set rs \<subseteq> set (map snd (c_needs_lookup c))" by (auto simp: rs_def dest: in_set_takeD)
  have at: "map_of (c_entries c) (te_info_hash (c_heap c r)) = Some r" if "r \<in> set rs" for r
    using that sub refs(2) by (intro ref_at[OF assms(1)]) auto
  have d: "distinct rs" using refs(1) by (simp add: rs_def)
  have inj: "inj_on (\<lambda>r. te_info_hash (c_heap c r)) (set rs)" by (rule inj_onI) (metis at option.inject)
  show "distinct hs" using d inj by (simp add: hs distinct_map)
  show "length hs \<le> limit" by (simp add: hs rs_def)
  show "set hs \<subseteq> fst ` set (c_entries c)" using at by (force simp: hs dest: map_of_SomeD)
  have "\<not> te_lookup_in_progress (c_heap c r)" if "r \<in> set rs" for r
    using indexed_wants(1)[OF assms(1), of r] that sub by (auto simp: wants_lookup_def)
  then show "set hs \<inter> claimed c = {}" using at by (auto simp: hs claimed_def hashes_with_def)
  show "claimed c' = claimed c \<union> set hs"
    using claim_lookups_heap[of c rs] at entry_hash[OF assms(1)] by (auto simp: c' hs claimed_def hashes_with_def image_iff) metis+
qed

end
