(* ===== verification/Crawler_Invariant.thy ===== *)
theory Crawler_Invariant
  imports Dht_Crawler Lookup_Calls Catalog_Claims
begin

text \<open>
  The invariant of the crawler thread of \<open>dht_crawler.py\<close>: the tables are bounded and hold
  well-formed nodes, the lookup manager and the catalog satisfy their own invariants, and the
  lookup claims of the catalog are exactly the lookups the manager runs. The environment is
  assumed to be well behaved (\<open>env_ok\<close>): \<open>os.urandom\<close> and HMAC give enough bytes, the clock
  is not negative, the address functions are inverse to each other, the datagrams come from
  addresses the system formats, and the other threads use the catalog through its methods.
\<close>

section \<open>The environment\<close>

definition text_address :: "ip_lib \<Rightarrow> address \<Rightarrow> bool" where
  "text_address lib a \<longleftrightarrow> ipv4_address lib a \<or> ipv6_address_ok lib a"

text \<open>
  A source address: its port fits, and when it is routable its text is the one the library
  prints (a link-local IPv6 address with a scope is not routable).
\<close>

definition source_ok :: "ip_lib \<Rightarrow> address \<Rightarrow> bool" where
  "source_ok lib a \<longleftrightarrow> 0 \<le> snd a \<and> snd a \<le> 65535 \<and> (is_routable_address lib (fst a) (snd a) \<longrightarrow> text_address lib a)"

fun recv_ok :: "ip_lib \<Rightarrow> recv_result \<Rightarrow> bool" where
  "recv_ok lib (Received data a) = source_ok lib a"
| "recv_ok lib _ = True"

definition env_ok :: "crawler_env \<Rightarrow> node_socket list \<Rightarrow> bool" where
  "env_ok E N \<longleftrightarrow>
     (\<forall>n k. length (ce_urandom E n k) = k) \<and> (\<forall>key msg. TOKEN_LENGTH \<le> length (ce_hmac E key msg))
     \<and> (\<forall>n. 0 \<le> ce_clock E n) \<and> inet_inverse (ce_lib E)
     \<and> (\<forall>n c. background_step\<^sup>*\<^sup>* c (ce_others E n c))
     \<and> (\<forall>n. \<forall>p \<in> set (ce_select E n). fst p \<in> set N \<and> (\<forall>r \<in> set (snd p). recv_ok (ce_lib E) r))"

lemma env_okD:
  assumes "env_ok E N"
  shows "length (ce_urandom E n k) = k" "TOKEN_LENGTH \<le> length (ce_hmac E key msg)" "0 \<le> ce_clock E n"
    "inet_inverse (ce_lib E)" "background_step\<^sup>*\<^sup>* c (ce_others E n c)"
    "p \<in> set (ce_select E n) \<Longrightarrow> fst p \<in> set N \<and> (\<forall>r \<in> set (snd p). recv_ok (ce_lib E) r)"
  using assms by (simp_all add: env_ok_def)

section \<open>The invariant\<close>

text \<open>
  \<open>N\<close> are the node sockets, and \<open>B\<close> the families that have been bootstrapped at least once.
\<close>

definition node_fits :: "ip_lib \<Rightarrow> family \<Rightarrow> node \<Rightarrow> bool" where
  "node_fits lib fam n \<longleftrightarrow> length (fst n) = NODE_ID_LENGTH \<and> address_family (fst (snd n)) = fam
     \<and> (if fam = AF_INET then ipv4_address lib (snd n) else ipv6_address_ok lib (snd n))"

definition family_ok :: "ip_lib \<Rightarrow> node_socket list \<Rightarrow> family set \<Rightarrow> family \<Rightarrow> family_state \<Rightarrow> bool" where
  "family_ok lib N B fam st \<longleftrightarrow>
     fs_node_sockets st = filter (\<lambda>n. ns_family n = fam) N \<and> fam \<in> ns_family ` set N \<and> 1 \<le> fs_max_queue st
     \<and> length (fs_node_queue st) \<le> fs_max_queue st \<and> length (fs_recent_nodes st) \<le> RECENT_NODES_SIZE
     \<and> (\<forall>n \<in> set (fs_node_queue st) \<union> set (fs_recent_nodes st). node_fits lib fam n)
     \<and> fs_nodes_key st \<in> {NODES_KEY, NODES6_KEY} \<and> (fam \<in> B \<longrightarrow> fs_last_bootstrap_time st \<noteq> None)"

definition families_ok :: "ip_lib \<Rightarrow> node_socket list \<Rightarrow> family set \<Rightarrow> (family, family_state) odict \<Rightarrow> bool" where
  "families_ok lib N B d \<longleftrightarrow> od_ok d \<and> fst ` set d = ns_family ` set N \<and> (\<forall>p \<in> set d. family_ok lib N B (fst p) (snd p))"

definition sockets_ok :: "node_socket list \<Rightarrow> bool" where
  "sockets_ok N \<longleftrightarrow> N \<noteq> [] \<and> (\<forall>ns \<in> set N. length (own_id ns) = NODE_ID_LENGTH)"

definition windows_ok :: "(string, real \<times> nat) odict \<Rightarrow> bool" where
  "windows_ok d \<longleftrightarrow> od_ok d \<and> length d \<le> SEND_WINDOW_ENTRIES \<and> (\<forall>p \<in> set d. snd (snd p) \<le> PER_ADDRESS_MAX_PACKETS)"

definition hint_ok :: "ip_lib \<Rightarrow> node_socket list \<Rightarrow> node \<Rightarrow> bool" where
  "hint_ok lib N n \<longleftrightarrow> (\<exists>fam \<in> ns_family ` set N. node_fits lib fam n)"

definition tables_ok :: "crawler_env \<Rightarrow> node_socket list \<Rightarrow> crawler \<Rightarrow> bool" where
  "tables_ok E N s \<longleftrightarrow>
     length (cr_recent_hashes s) \<le> RECENT_HASHES_SIZE \<and> (\<forall>h \<in> set (cr_recent_hashes s). length h = NODE_ID_LENGTH)
     \<and> length (cr_sample_backoff s) \<le> MAX_BACKOFF_ENTRIES \<and> length (cr_fallback_sent s) \<le> MAX_BACKOFF_ENTRIES
     \<and> length (cr_recently_queued s) \<le> MAX_BACKOFF_ENTRIES
     \<and> length (cr_hint_nodes s) \<le> HINT_NODES_SIZE \<and> (\<forall>p \<in> set (cr_hint_nodes s). hint_ok (ce_lib E) N (snd p))
     \<and> length (cr_socket_affinity s) \<le> SOCKET_AFFINITY_SIZE \<and> (\<forall>p \<in> set (cr_socket_affinity s). snd p \<in> set N)
     \<and> windows_ok (cr_send_windows s)"

definition config_ok :: "crawler_env \<Rightarrow> node_socket list \<Rightarrow> family set \<Rightarrow> crawler \<Rightarrow> bool" where
  "config_ok E N B s \<longleftrightarrow> cr_node_sockets s = N \<and> sockets_ok N \<and> cr_own_suffixes s = own_id_suffixes N
     \<and> cr_bootstrap_nodes s \<noteq> [] \<and> (\<forall>p \<in> set (cr_bootstrap_nodes s). 0 \<le> snd p \<and> snd p \<le> 65535)
     \<and> fst ` set (cr_resolved_bootstrap_hosts s) = ns_family ` set N
     \<and> 1 \<le> cr_batch_size s \<and> 0 < cr_interval s \<and> cr_token_secret s \<noteq> []
     \<and> families_ok (ce_lib E) N B (cr_families s)"

text \<open>The lookup manager with the crawler's filter.\<close>

definition node_filter_of :: "crawler_env \<Rightarrow> node_socket list \<Rightarrow> node \<Rightarrow> bool" where
  "node_filter_of E N node = foreign_node (ce_lib E) (own_id_suffixes N) (ns_family ` set N) (PyBytes (fst node)) (snd node)"

definition owns_manager :: "crawler_env \<Rightarrow> node_socket list \<Rightarrow> lookup_manager \<Rightarrow> bool" where
  "owns_manager E N m \<longleftrightarrow> manager_ok m \<and> nodes_ok m \<and> lm_node_filter m = node_filter_of E N"

text \<open>
  The claims: the active lookups, and the hashes in \<open>X\<close>, which the thread has claimed and not
  yet started, or finished and not yet reported.
\<close>

definition claims_ok :: "bytes set \<Rightarrow> crawler \<Rightarrow> bool" where
  "claims_ok X s \<longleftrightarrow> claimed (cr_catalog s) = active_hashes (cr_lookup_manager s) \<union> X
     \<and> X \<inter> active_hashes (cr_lookup_manager s) = {}"

definition crawler_inv :: "crawler_env \<Rightarrow> node_socket list \<Rightarrow> family set \<Rightarrow> bytes set \<Rightarrow> crawler \<Rightarrow> bool" where
  "crawler_inv E N B X s \<longleftrightarrow> config_ok E N B s \<and> tables_ok E N s \<and> owns_manager E N (cr_lookup_manager s)
     \<and> cat_fine (cr_catalog s) \<and> claims_ok X s"

lemmas crawler_inv_defs = crawler_inv_def config_ok_def tables_ok_def claims_ok_def

lemma crawler_invD:
  assumes "crawler_inv E N B X s"
  shows "cr_node_sockets s = N" "sockets_ok N" "cr_own_suffixes s = own_id_suffixes N" "families_ok (ce_lib E) N B (cr_families s)"
    "owns_manager E N (cr_lookup_manager s)" "cat_fine (cr_catalog s)" "windows_ok (cr_send_windows s)"
    "fst ` set (cr_families s) = ns_family ` set N" "fst ` set (cr_resolved_bootstrap_hosts s) = ns_family ` set N"
    "cr_token_secret s \<noteq> []" "1 \<le> cr_batch_size s" "0 < cr_interval s"
  using assms by (simp_all add: crawler_inv_defs families_ok_def)

lemma crawler_inv_tables:
  assumes "crawler_inv E N B X s"
  shows "map_of (cr_socket_affinity s) a = Some ns \<Longrightarrow> ns \<in> set N"
    "map_of (cr_hint_nodes s) h = Some node \<Longrightarrow> hint_ok (ce_lib E) N node"
    "\<forall>p \<in> set (cr_bootstrap_nodes s). 0 \<le> snd p \<and> snd p \<le> 65535" "cr_bootstrap_nodes s \<noteq> []"
    "length (cr_recent_hashes s) \<le> RECENT_HASHES_SIZE" "\<forall>h \<in> set (cr_recent_hashes s). length h = NODE_ID_LENGTH"
proof -
  have t: "\<forall>p \<in> set (cr_socket_affinity s). snd p \<in> set N" "\<forall>p \<in> set (cr_hint_nodes s). hint_ok (ce_lib E) N (snd p)"
    using assms by (simp_all add: crawler_inv_def tables_ok_def)
  show "map_of (cr_socket_affinity s) a = Some ns \<Longrightarrow> ns \<in> set N" using t(1) by (metis map_of_SomeD snd_conv)
  show "map_of (cr_hint_nodes s) h = Some node \<Longrightarrow> hint_ok (ce_lib E) N node" using t(2) by (metis map_of_SomeD snd_conv)
qed (use assms in \<open>simp_all add: crawler_inv_def tables_ok_def config_ok_def\<close>)

text \<open>Fields the invariant does not mention.\<close>

lemma crawler_inv_fields [simp]:
  "crawler_inv E N B X (s\<lparr>cr_calls := n\<rparr>) = crawler_inv E N B X s"
  "crawler_inv E N B X (s\<lparr>cr_stats := f\<rparr>) = crawler_inv E N B X s"
  "crawler_inv E N B X (s\<lparr>cr_sent := xs\<rparr>) = crawler_inv E N B X s"
  by (simp_all add: crawler_inv_defs)

section \<open>Primitive steps\<close>

lemma outside_inv: "triple (crawler_inv E N B X) (outside f) (\<lambda>x s. (\<exists>n. x = f n) \<and> crawler_inv E N B X s)"
  by (auto simp: triple_def outside_def)

lemma clock_inv:
  "env_ok E N \<Longrightarrow> triple (crawler_inv E N B X) (outside (ce_clock E)) (\<lambda>t s. 0 \<le> t \<and> crawler_inv E N B X s)"
  by (auto simp: triple_def outside_def env_okD)

lemma count_stat_inv: "triple (crawler_inv E N B X) (count_stat k n) (\<lambda>_. crawler_inv E N B X)"
  unfolding count_stat_def by (rule triple_update_keep) simp

lemma get_family_inv:
  assumes "fam \<in> ns_family ` set N"
  shows "triple (crawler_inv E N B X) (get_family fam) (\<lambda>st s. family_ok (ce_lib E) N B fam st \<and> crawler_inv E N B X s)"
proof (rule tripleI)
  fix s assume inv: "crawler_inv E N B X s"
  then have "fam \<in> fst ` set (cr_families s)" using assms crawler_invD(8) by blast
  then obtain st where st: "map_of (cr_families s) fam = Some st" by (cases "map_of (cr_families s) fam") (auto simp: map_of_eq_None_iff)
  with crawler_invD(4)[OF inv] have "family_ok (ce_lib E) N B fam st"
    unfolding families_ok_def using map_of_SomeD[OF st] by fastforce
  with st inv show "\<exists>x s1. get_family fam s = (Inr x, s1) \<and> family_ok (ce_lib E) N B fam x \<and> crawler_inv E N B X s1"
    by (simp add: get_family_def)
qed

lemma families_ok_update:
  "families_ok lib N B d \<Longrightarrow> fam \<in> ns_family ` set N \<Longrightarrow> family_ok lib N B fam st \<Longrightarrow> families_ok lib N B (AList.update fam st d)"
  by (auto simp: families_ok_def od_ok_update keys_update insert_absorb dest!: set_updateD)

lemma put_family_inv:
  "fam \<in> ns_family ` set N \<Longrightarrow> family_ok (ce_lib E) N B fam st \<Longrightarrow>
     triple (crawler_inv E N B X) (put_family fam st) (\<lambda>_. crawler_inv E N B X)"
  unfolding put_family_def
  by (rule triple_update_keep) (simp add: crawler_inv_defs families_ok_update)

text \<open>A catalog call: the other threads' work keeps the claims, the call itself may change them.\<close>

lemma on_catalog_change:
  assumes "env_ok E N"
    and "\<And>wall c x c' A. cat_fine c \<Longrightarrow> claimed c = A \<union> X \<Longrightarrow> X \<inter> A = {} \<Longrightarrow> f wall c = (x, c') \<Longrightarrow>
      g x \<and> cat_fine c' \<and> claimed c' = A \<union> Y x \<and> Y x \<inter> A = {}"
  shows "triple (crawler_inv E N B X) (on_catalog E f) (\<lambda>x s. g x \<and> crawler_inv E N B (Y x) s)"
proof (rule tripleI)
  fix s assume inv: "crawler_inv E N B X s"
  let ?c = "ce_others E (cr_calls s) (cr_catalog s)"
  obtain x c' where f: "f (ce_wall_clock E (cr_calls s)) ?c = (x, c')" by fastforce
  have "cat_fine ?c \<and> claimed ?c = claimed (cr_catalog s)"
    using background_steps[OF env_okD(5)[OF assms(1)]] crawler_invD(6)[OF inv] by blast
  moreover have "claims_ok X s" using inv by (simp add: crawler_inv_def)
  ultimately have "g x \<and> cat_fine c' \<and> claims_ok (Y x) (s\<lparr>cr_catalog := c', cr_calls := cr_calls s + 1\<rparr>)"
    using assms(2)[OF _ _ _ f, of "active_hashes (cr_lookup_manager s)"] by (simp add: claims_ok_def)
  with inv f show "\<exists>x s1. on_catalog E f s = (Inr x, s1) \<and> g x \<and> crawler_inv E N B (Y x) s1"
    by (simp add: on_catalog_def crawler_inv_def config_ok_def tables_ok_def)
qed

lemma on_catalog_inv:
  assumes "env_ok E N"
    and "\<And>wall c x c'. cat_fine c \<Longrightarrow> f wall c = (x, c') \<Longrightarrow> cat_fine c' \<and> claimed c' = claimed c"
  shows "triple (crawler_inv E N B X) (on_catalog E f) (\<lambda>_. crawler_inv E N B X)"
proof -
  have "triple (crawler_inv E N B X) (on_catalog E f) (\<lambda>x s. True \<and> crawler_inv E N B X s)"
    using assms by (intro on_catalog_change) auto
  then show ?thesis by simp
qed

lemma pick_node_socket_inv:
  "triple (crawler_inv E N B X) (pick_node_socket fam)
     (\<lambda>r s. (\<forall>ns. r = Some ns \<longrightarrow> ns \<in> set N) \<and> crawler_inv E N B X s)"
  unfolding pick_node_socket_def
proof (rule triple_get_bind)
  fix families assume "\<exists>s. crawler_inv E N B X s \<and> families = cr_families s"
  then have fams: "families_ok (ce_lib E) N B families" using crawler_invD(4) by blast
  show "triple (crawler_inv E N B X) (case map_of families fam of None \<Rightarrow> io_return None
     | Some st \<Rightarrow>
         let result = fs_node_sockets st ! (fs_cycle st mod length (fs_node_sockets st))
         in io_seq (put_family fam (st\<lparr>fs_cycle := fs_cycle st + 1\<rparr>))
              (io_seq (crawl_assert (ns_family result = fam)) (io_return (Some result))))
     (\<lambda>r s. (\<forall>ns. r = Some ns \<longrightarrow> ns \<in> set N) \<and> crawler_inv E N B X s)"
  proof (cases "map_of families fam")
    case None
    then show ?thesis by (simp add: triple_def io_return_def)
  next
    case (Some st)
    have st: "family_ok (ce_lib E) N B fam st" and fam: "fam \<in> ns_family ` set N"
      using fams map_of_SomeD[OF Some] by (force simp: families_ok_def)+
    let ?r = "fs_node_sockets st ! (fs_cycle st mod length (fs_node_sockets st))"
    have "fs_node_sockets st \<noteq> []" and all: "set (fs_node_sockets st) = {n \<in> set N. ns_family n = fam}"
      using st by (auto simp: family_ok_def filter_empty_conv)
    then have "?r \<in> set (fs_node_sockets st)" by (intro nth_mem) simp
    then have r: "?r \<in> set N" "ns_family ?r = fam" using all by auto
    have "family_ok (ce_lib E) N B fam (st\<lparr>fs_cycle := fs_cycle st + 1\<rparr>)" using st by (simp add: family_ok_def)
    with r fam show ?thesis unfolding Some option.case Let_def
      by (intro triple_seq[OF put_family_inv] triple_assert_seq triple_return_fact) auto
  qed
qed

lemma remember_values: "p \<in> set (snd (remember d k v n)) \<Longrightarrow> p = (k, v) \<or> p \<in> set d"
  by (auto simp: remember_eq Let_def set_delete dest: in_set_dropD)

lemma allow_send_at_ok: "windows_ok d \<Longrightarrow> windows_ok (snd (allow_send_at d now ip))"
proof -
  assume ok: "windows_ok d"
  have new: "windows_ok (snd (remember d ip (now, 1) SEND_WINDOW_ENTRIES))"
    using ok od_ok_remember[of d ip "(now, 1)" SEND_WINDOW_ENTRIES]
    by (auto simp: windows_ok_def remember_bound PER_ADDRESS_MAX_PACKETS_def dest!: remember_values)
  have old: "windows_ok (AList.update ip (t, n + 1) d)"
    if "map_of d ip = Some (t, n)" "n < PER_ADDRESS_MAX_PACKETS" for t n
    using ok that length_update_old[of ip d] map_of_SomeD[OF that(1)]
    by (auto simp: windows_ok_def od_ok_update rev_image_eqI dest!: set_updateD)
  show ?thesis using ok new old by (auto simp: allow_send_at_def split: option.splits)
qed

lemma allow_send_inv:
  assumes "env_ok E N"
  shows "triple (crawler_inv E N B X) (allow_send E ip) (\<lambda>_. crawler_inv E N B X)"
proof (rule tripleI)
  fix s assume inv: "crawler_inv E N B X s"
  then show "\<exists>x s1. allow_send E ip s = (Inr x, s1) \<and> crawler_inv E N B X s1"
    using allow_send_at_ok[OF crawler_invD(7)[OF inv]]
    by (simp add: allow_send_def io_bind_def outside_def io_get_def io_seq_def io_update_def io_return_def split_beta crawler_inv_defs)
qed

section \<open>Sending\<close>

lemma send_message_inv:
  assumes "env_ok E N" "ns \<in> set N" "plain (PyDict message)"
  shows "triple (crawler_inv E N B X) (send_message E ns message a) (\<lambda>_. crawler_inv E N B X)"
proof -
  obtain payload where enc: "encode_bencode (PyDict message) = Inr payload" using plain_encodable[OF assms(3)] by blast
  show ?thesis unfolding send_message_def enc sum.case
  proof (rule triple_get_bind)
    fix sockets assume "\<exists>s. crawler_inv E N B X s \<and> sockets = cr_node_sockets s"
    then have "ns \<in> set sockets" using assms(2) crawler_invD(1) by blast
    then show "triple (crawler_inv E N B X) (io_seq (crawl_assert (ns \<in> set sockets))
        (io_bind (allow_send E (fst a)) (\<lambda>allowed.
          if \<not> allowed then io_seq (count_stat packets_throttled 1) (io_return False)
          else io_bind (outside (ce_sendto E)) (\<lambda>ok.
                  if \<not> ok then io_return False
                  else io_seq (io_update (\<lambda>s. s\<lparr>cr_sent := cr_sent s @ [(ns, payload, a)]\<rparr>))
                         (io_seq (count_stat packets_sent 1) (io_return True)))))) (\<lambda>_. crawler_inv E N B X)"
      by (intro triple_assert_seq triple_bind[OF allow_send_inv[OF assms(1)]] triple_if triple_seq[OF count_stat_inv]
          triple_return_keep triple_bind_fact[OF outside_inv] triple_update_same) simp_all
  qed
qed

text \<open>A message the builder accepts and the encoder can encode.\<close>

definition sendable :: "krpc_error + pydict \<Rightarrow> bool" where
  "sendable message \<longleftrightarrow> (\<exists>m. message = Inr m \<and> plain (PyDict m))"

lemma send_reply_inv:
  assumes "env_ok E N" "ns \<in> set N" "sendable message"
  shows "triple (crawler_inv E N B X) (send_reply E ns message a) (\<lambda>_. crawler_inv E N B X)"
proof -
  obtain m where m: "message = Inr m" "plain (PyDict m)" using assms(3) unfolding sendable_def by blast
  show ?thesis unfolding send_reply_def crawl_lift_def m(1) sum.case
    by (rule triple_bind_fact[where c = "\<lambda>x. x = m"])
      (auto intro!: triple_return_fact triple_seq[OF send_message_inv[OF assms(1,2) m(2)]] triple_return_keep)
qed

lemma length_neighbor [simp]:
  "length a = NODE_ID_LENGTH \<Longrightarrow> length b = NODE_ID_LENGTH \<Longrightarrow> length (neighbor_node_id a b) = NODE_ID_LENGTH"
  by (simp add: neighbor_node_id_def identity_consts)

lemma key_neq [simp]:
  "(KBytes (ascii a) = KBytes (ascii b)) = (a = b)"
  by simp

lemma plain_messages:
  "length i = NODE_ID_LENGTH \<Longrightarrow> length g = NODE_ID_LENGTH \<Longrightarrow> sendable (build_find_node_query t i g)"
  "length i = NODE_ID_LENGTH \<Longrightarrow> length g = NODE_ID_LENGTH \<Longrightarrow> sendable (build_sample_infohashes_query t i g)"
  "length i = NODE_ID_LENGTH \<Longrightarrow> length g = NODE_ID_LENGTH \<Longrightarrow> sendable (build_get_peers_query t i g)"
  "length i = NODE_ID_LENGTH \<Longrightarrow> sendable (build_ping_response t i)"
  "length i = NODE_ID_LENGTH \<Longrightarrow> k \<in> {NODES_KEY, NODES6_KEY} \<Longrightarrow> sendable (build_find_node_response t i ns k)"
  "length i = NODE_ID_LENGTH \<Longrightarrow> tok \<noteq> [] \<Longrightarrow> k \<in> {NODES_KEY, NODES6_KEY} \<Longrightarrow>
     sendable (build_get_peers_response t i tok ns k)"
  "c \<in> set KNOWN_ERROR_CODES \<Longrightarrow> sendable (build_error_response t c txt)"
  by (auto simp: sendable_def build_find_node_query_def build_sample_infohashes_query_def build_get_peers_query_def build_ping_response_def
      build_find_node_response_def build_get_peers_response_def build_error_response_def krpc_assert_def NODES_KEY_def NODES6_KEY_def
      QUERY_SAMPLE_INFOHASHES_def)

lemma plain_samples_response:
  "length i = NODE_ID_LENGTH \<Longrightarrow> 0 \<le> v \<Longrightarrow> v \<le> MAX_SAMPLE_INTERVAL \<Longrightarrow> 0 \<le> num \<Longrightarrow> length smp mod NODE_ID_LENGTH = 0 \<Longrightarrow>
     k \<in> {NODES_KEY, NODES6_KEY} \<Longrightarrow> sendable (build_sample_infohashes_response t i v ns num smp k)"
  by (auto simp: sendable_def build_sample_infohashes_response_def krpc_assert_def NODES_KEY_def NODES6_KEY_def)

lemma urandom_ids:
  "env_ok E N \<Longrightarrow> length (generate_node_id (ce_urandom E n)) = NODE_ID_LENGTH"
  by (simp add: generate_node_id_def env_okD)

lemma send_find_node_inv:
  assumes "env_ok E N" "ns \<in> set N" "sockets_ok N" "length (fst node) = NODE_ID_LENGTH" "0 \<le> snd (snd node)" "snd (snd node) \<le> 65535"
  shows "triple (crawler_inv E N B X) (send_find_node E ns node) (\<lambda>_. crawler_inv E N B X)"
proof -
  have own: "length (own_id ns) = NODE_ID_LENGTH" using assms(2,3) by (simp add: sockets_ok_def)
  show ?thesis unfolding send_find_node_def
    by (intro triple_assert_seq triple_bind_fact[OF outside_inv] triple_seq[OF send_reply_inv[OF assms(1,2)]] count_stat_inv)
      (use assms own in \<open>auto simp: is_valid_node_id_def intro!: plain_messages urandom_ids[OF assms(1)]\<close>)
qed

lemma send_sample_infohashes_inv:
  assumes "env_ok E N" "ns \<in> set N" "sockets_ok N" "length (fst node) = NODE_ID_LENGTH" "0 \<le> snd (snd node)" "snd (snd node) \<le> 65535"
  shows "triple (crawler_inv E N B X) (send_sample_infohashes E ns node) (\<lambda>_. crawler_inv E N B X)"
proof -
  have own: "length (own_id ns) = NODE_ID_LENGTH" using assms(2,3) by (simp add: sockets_ok_def)
  show ?thesis unfolding send_sample_infohashes_def
    by (intro triple_assert_seq triple_bind_fact[OF outside_inv] triple_seq[OF send_reply_inv[OF assms(1,2)]] count_stat_inv)
      (use assms own in \<open>auto simp: is_valid_node_id_def intro!: plain_messages urandom_ids[OF assms(1)]\<close>)
qed

lemma node_fitsD:
  "node_fits lib fam node \<Longrightarrow> length (fst node) = NODE_ID_LENGTH \<and> 0 \<le> snd (snd node) \<and> snd (snd node) \<le> 65535"
  by (auto simp: node_fits_def ipv4_address_def ipv6_address_ok_def split: if_splits)

lemma triple_option:
  "(r = None \<Longrightarrow> triple P a Q) \<Longrightarrow> (\<And>x. r = Some x \<Longrightarrow> triple P (f x) Q) \<Longrightarrow> triple P (case r of None \<Rightarrow> a | Some x \<Rightarrow> f x) Q"
  by (simp split: option.split)

lemma send_crawl_query_inv:
  assumes "env_ok E N" "sockets_ok N" "node_fits (ce_lib E) fam node"
  shows "triple (crawler_inv E N B X) (send_crawl_query E node) (\<lambda>_. crawler_inv E N B X)"
  unfolding send_crawl_query_def
  by (intro triple_bind_fact[OF pick_node_socket_inv] triple_option triple_return_keep triple_get_bind triple_if
      triple_bind_fact[OF clock_inv[OF assms(1)]] send_find_node_inv[OF assms(1) _ assms(2)] send_sample_infohashes_inv[OF assms(1) _ assms(2)])
    (use node_fitsD[OF assms(3)] in auto)

lemma send_lookup_query_inv:
  assumes "env_ok E N" "sockets_ok N" "call_ok flt (SendQuery t node h)"
  shows "triple (crawler_inv E N B X) (send_lookup_query E t node h) (\<lambda>_. crawler_inv E N B X)"
proof -
  have node: "length t = LOOKUP_TRANSACTION_ID_LENGTH" "length h = NODE_ID_LENGTH" "length (fst node) = NODE_ID_LENGTH"
    using assms(3) by (simp_all add: is_usable_node_def is_valid_node_id_def)
  have own: "length (own_id ns) = NODE_ID_LENGTH" if "ns \<in> set N" for ns using assms(2) that by (simp add: sockets_ok_def)
  have aff: "triple (crawler_inv E N B X) (case affinity of Some ns \<Rightarrow> io_return (Some ns) | None \<Rightarrow> pick_node_socket f)
      (\<lambda>r s. (\<forall>ns. r = Some ns \<longrightarrow> ns \<in> set N) \<and> crawler_inv E N B X s)"
    if "\<exists>s. crawler_inv E N B X s \<and> affinity = map_of (cr_socket_affinity s) (snd node)" for affinity f
  proof (cases affinity)
    case None
    then show ?thesis using pick_node_socket_inv by simp
  next
    case (Some ns)
    then have "ns \<in> set N" using that crawler_inv_tables(1) by metis
    then show ?thesis unfolding Some option.case by (intro triple_return_fact) simp
  qed
  show ?thesis unfolding send_lookup_query_def
  proof (intro triple_assert_seq triple_get_bind, goal_cases)
    case (2 affinity)
    show ?case
      by (rule triple_bind_fact[OF aff[OF 2]], intro triple_option triple_return_keep triple_assert_seq send_reply_inv[OF assms(1)])
        (use node own in \<open>auto intro!: plain_messages\<close>)
  qed (use node in simp)
qed

section \<open>The lookup manager's calls\<close>

lemma cat_fine_ok: "cat_fine c \<Longrightarrow> cat_ok c"
  by (simp add: cat_fine_def)

lemma dispatch_finished_inv:
  assumes "env_ok E N" "length h = NODE_ID_LENGTH" "h \<notin> X"
  shows "triple (crawler_inv E N B (insert h X)) (dispatch_call E (OnFinished h peers)) (\<lambda>_. crawler_inv E N B X)"
proof -
  have "triple (crawler_inv E N B (insert h X)) (on_catalog E (\<lambda>wall c. ((), add_lookup_result c h peers wall None)))
      (\<lambda>x s. True \<and> crawler_inv E N B X s)"
    using assms(3) by (intro on_catalog_change[OF assms(1)])
      (auto simp: lookup_methods_fine add_lookup_result_claimed[OF cat_fine_ok])
  then show ?thesis unfolding dispatch_call_def lookup_call.case using assms(2) by (intro triple_assert_seq) simp_all
qed

lemma dispatch_other_inv:
  assumes "env_ok E N" "sockets_ok N" "call_ok flt c" "finished_hashes [c] = []"
  shows "triple (crawler_inv E N B X) (dispatch_call E c) (\<lambda>_. crawler_inv E N B X)"
proof (cases c)
  case (SendQuery t node h)
  with assms send_lookup_query_inv[OF assms(1,2)] show ?thesis by (simp add: dispatch_call_def)
next
  case (OnPeers h peers)
  have "triple (crawler_inv E N B X) (on_catalog E (\<lambda>_ c. ((), snd (add_peers c h peers)))) (\<lambda>_. crawler_inv E N B X)"
    by (rule on_catalog_inv[OF assms(1)]) (auto simp: lookup_methods_fine calm_claimed[OF calm_add_peers])
  then show ?thesis unfolding OnPeers dispatch_call_def lookup_call.case using assms(3) OnPeers by (intro triple_assert_seq) simp_all
next
  case (OnFinished h peers)
  with assms(4) show ?thesis by simp
qed

lemma dispatch_calls_inv:
  assumes "env_ok E N" "sockets_ok N"
  shows "list_all (call_ok flt) cs \<Longrightarrow> distinct (finished_hashes cs) \<Longrightarrow> set (finished_hashes cs) \<inter> X = {} \<Longrightarrow>
    triple (crawler_inv E N B (set (finished_hashes cs) \<union> X)) (io_for (dispatch_call E) cs) (\<lambda>_. crawler_inv E N B X)"
proof (induction cs)
  case Nil
  show ?case by (simp add: triple_return_keep)
next
  case (Cons c cs)
  show ?case
  proof (cases "finished_hashes [c] = []")
    case True
    then have "finished_hashes (c # cs) = finished_hashes cs" by (cases c) simp_all
    with Cons dispatch_other_inv[OF assms _ True] show ?thesis by (auto intro!: triple_seq)
  next
    case False
    then obtain h peers where c: "c = OnFinished h peers" by (cases c) simp_all
    with Cons.prems have "h \<notin> set (finished_hashes cs) \<union> X" by auto
    with dispatch_finished_inv[OF assms(1) _ this] Cons c show ?thesis by (auto intro!: triple_seq)
  qed
qed

lemma manager_replaced:
  assumes "crawler_inv E N B X s" "owns_manager E N m" "claimed (cr_catalog s) = active_hashes m \<union> Y" "Y \<inter> active_hashes m = {}"
  shows "crawler_inv E N B Y (s\<lparr>cr_lookup_manager := m\<rparr>)"
  using assms by (simp add: crawler_inv_def config_ok_def tables_ok_def claims_ok_def)

text \<open>An operation of the manager that is recorded in its journal.\<close>

lemma on_manager_inv:
  assumes "env_ok E N" "sockets_ok N"
    and "\<And>m x m'. owns_manager E N m \<Longrightarrow> f m = (x, m') \<Longrightarrow> owns_manager E N m' \<and> journal m m' \<and> g x"
  shows "triple (crawler_inv E N B X) (on_manager E f) (\<lambda>x s. g x \<and> crawler_inv E N B X s)"
  unfolding on_manager_def
proof (rule triple_read)
  fix s0 assume inv: "crawler_inv E N B X s0"
  let ?m = "cr_lookup_manager s0"
  obtain x m' where f: "f ?m = (x, m')" by fastforce
  have step: "owns_manager E N m'" "journal ?m m'" "g x" using assms(3)[OF crawler_invD(5)[OF inv] f] by auto
  obtain cs where cs: "lm_calls m' = lm_calls ?m @ cs" "list_all (call_ok (lm_node_filter ?m)) cs" "distinct (finished_hashes cs)"
    "set (finished_hashes cs) \<subseteq> active_hashes ?m" "active_hashes m' = active_hashes ?m - set (finished_hashes cs)"
    using step(2) unfolding journal_def by auto
  have claims: "claimed (cr_catalog s0) = active_hashes ?m \<union> X" "X \<inter> active_hashes ?m = {}"
    using inv by (simp_all add: crawler_inv_def claims_ok_def)
  have "crawler_inv E N B (set (finished_hashes cs) \<union> X) (s0\<lparr>cr_lookup_manager := m'\<rparr>)"
    using cs claims by (intro manager_replaced[OF inv step(1)]) auto
  moreover have "triple (crawler_inv E N B (set (finished_hashes cs) \<union> X)) (io_for (dispatch_call E) cs) (\<lambda>_. crawler_inv E N B X)"
    using cs claims by (intro dispatch_calls_inv[OF assms(1,2)]) auto
  ultimately show "triple (\<lambda>s. s = s0) (io_seq (io_update (\<lambda>s. s\<lparr>cr_lookup_manager := snd (f ?m)\<rparr>))
       (io_seq (io_for (dispatch_call E) (drop (length (lm_calls ?m)) (lm_calls (snd (f ?m)))))
         (io_return (fst (f ?m))))) (\<lambda>x s. g x \<and> crawler_inv E N B X s)"
    unfolding f fst_conv snd_conv cs(1) using step(3)
    by (intro triple_update_seq[where R = "crawler_inv E N B (set (finished_hashes cs) \<union> X)"]) (auto intro!: triple_seq triple_return_fact)
qed

end
