(* ===== verification/Crawler_Steps.thy ===== *)
theory Crawler_Steps
  imports Crawler_Invariant
begin

text \<open>
  Every method of the crawler of \<open>dht_crawler.py\<close> raises nothing and keeps the invariant, for
  any datagram whatever it holds: the bootstrap, the handlers of responses, errors and queries,
  the crawl and the lookups.
\<close>

section \<open>Bootstrap\<close>

lemma get_resolved_inv:
  assumes "fam \<in> ns_family ` set N"
  shows "triple (crawler_inv E N B X) (get_resolved fam) (\<lambda>_. crawler_inv E N B X)"
proof (rule tripleI)
  fix s assume inv: "crawler_inv E N B X s"
  then have "fam \<in> fst ` set (cr_resolved_bootstrap_hosts s)" using assms crawler_invD(9) by blast
  then obtain d where "map_of (cr_resolved_bootstrap_hosts s) fam = Some d"
    by (cases "map_of (cr_resolved_bootstrap_hosts s) fam") (auto simp: map_of_eq_None_iff)
  with inv show "\<exists>x s1. get_resolved fam s = (Inr x, s1) \<and> crawler_inv E N B X s1" by (simp add: get_resolved_def)
qed

lemma resolved_update:
  "crawler_inv E N B X s \<Longrightarrow> fam \<in> ns_family ` set N \<Longrightarrow>
     crawler_inv E N B X (s\<lparr>cr_resolved_bootstrap_hosts := AList.update fam d (cr_resolved_bootstrap_hosts s)\<rparr>)"
  by (simp add: crawler_inv_def config_ok_def tables_ok_def claims_ok_def keys_update insert_absorb)

lemma resolve_host_inv:
  assumes "fam \<in> ns_family ` set N"
  shows "triple (crawler_inv E N B X) (resolve_host E fam retry host port) (\<lambda>_. crawler_inv E N B X)"
  unfolding resolve_host_def Let_def
  by (intro triple_bind[OF get_resolved_inv[OF assms]] triple_if triple_bind_fact[OF outside_inv] triple_update_same
      triple_return_keep resolved_update assms)

lemma family_okD:
  assumes "family_ok lib N B fam st"
  shows "set (fs_node_sockets st) \<subseteq> set N" "fam \<in> ns_family ` set N" "length (fs_recent_nodes st) \<le> RECENT_NODES_SIZE"
    "\<forall>n \<in> set (fs_node_queue st) \<union> set (fs_recent_nodes st). node_fits lib fam n" "fs_nodes_key st \<in> {NODES_KEY, NODES6_KEY}"
    "length (fs_node_sockets st) = length (filter (\<lambda>n. ns_family n = fam) N)"
  using assms by (auto simp: family_ok_def)

lemma crawler_inv_mono: "crawler_inv E N B X s \<Longrightarrow> B' \<subseteq> B \<Longrightarrow> crawler_inv E N B' X s"
  by (auto simp: crawler_inv_def config_ok_def families_ok_def family_ok_def)

text \<open>The bootstrap of a family marks it as bootstrapped.\<close>

lemma put_bootstrapped:
  assumes "family_ok (ce_lib E) N B fam st"
  shows "triple (crawler_inv E N B X) (put_family fam (st\<lparr>fs_last_bootstrap_time := Some now\<rparr>)) (\<lambda>_. crawler_inv E N (insert fam B) X)"
  unfolding put_family_def
proof (rule triple_update_keep)
  fix s assume inv: "crawler_inv E N B X s"
  have fam: "fam \<in> ns_family ` set N" by (rule family_okD(2)[OF assms])
  let ?st = "st\<lparr>fs_last_bootstrap_time := Some now\<rparr>"
  have st: "family_ok (ce_lib E) N (insert fam B) fam ?st" using assms by (simp add: family_ok_def)
  have "family_ok (ce_lib E) N (insert fam B) (fst p) (snd p)" if "p \<in> set (AList.update fam ?st (cr_families s))" for p
  proof (cases "fst p = fam")
    case True
    have "od_ok (AList.update fam ?st (cr_families s))"
      using crawler_invD(4)[OF inv] by (simp add: families_ok_def od_ok_update)
    then have "map_of (AList.update fam ?st (cr_families s)) fam = Some (snd p)"
      using that True by (metis map_of_is_SomeI prod.collapse)
    then have "snd p = ?st" by (simp add: dict_simps)
    with st True show ?thesis by simp
  next
    case False
    with set_updateD[OF that] have "p \<in> set (cr_families s)" by auto
    then have "family_ok (ce_lib E) N B (fst p) (snd p)" using crawler_invD(4)[OF inv] by (simp add: families_ok_def)
    with False show ?thesis by (simp add: family_ok_def)
  qed
  with inv fam show "crawler_inv E N (insert fam B) X (s\<lparr>cr_families := AList.update fam ?st (cr_families s)\<rparr>)"
    by (simp add: crawler_inv_def config_ok_def tables_ok_def claims_ok_def families_ok_def od_ok_update keys_update insert_absorb)
qed

lemma bootstrap_family_inv:
  assumes "env_ok E N" "sockets_ok N" "fam \<in> ns_family ` set N"
  shows "triple (crawler_inv E N B X) (bootstrap_family E fam) (\<lambda>_. crawler_inv E N (insert fam B) X)"
  unfolding bootstrap_family_def Let_def
proof (intro triple_bind_fact[OF get_family_inv[OF assms(3)]] triple_bind_fact[OF clock_inv[OF assms(1)]] triple_seq[OF put_bootstrapped]
    triple_bind[OF get_resolved_inv[OF assms(3)]] triple_get_bind, assumption)
  fix st hosts resolved
  assume st: "family_ok (ce_lib E) N B fam st" and hosts: "\<exists>s. crawler_inv E N (insert fam B) X s \<and> hosts = cr_bootstrap_nodes s"
  have ports: "0 \<le> snd p \<and> snd p \<le> 65535" if "p \<in> set hosts" for p using hosts that crawler_inv_tables(3) by blast
  have ids: "length (own_id ns) = NODE_ID_LENGTH" "ns \<in> set N" if "ns \<in> set (fs_node_sockets st)" for ns
    using family_okD(1)[OF st] that assms(2) by (auto simp: sockets_ok_def)
  show "triple (crawler_inv E N (insert fam B) X) (io_for (\<lambda>(host, port).
           io_bind (resolve_host E fam (list_all (\<lambda>p. snd p = []) resolved) host port) (\<lambda>ips.
             io_for (\<lambda>ip. io_for (\<lambda>ns. send_find_node E ns (own_id ns, ip, port)) (fs_node_sockets st)) ips)) hosts)
        (\<lambda>_. crawler_inv E N (insert fam B) X)"
    by (intro triple_for, clarify, intro triple_bind[OF resolve_host_inv[OF assms(3)]] triple_for send_find_node_inv[OF assms(1) _ assms(2)])
      (use ids ports in auto)
qed

lemma bootstrap_loop_inv:
  assumes "env_ok E N" "sockets_ok N"
  shows "set fams \<subseteq> ns_family ` set N \<Longrightarrow>
    triple (crawler_inv E N B X) (io_for (bootstrap_family E) fams) (\<lambda>_. crawler_inv E N (set fams \<union> B) X)"
proof (induction fams arbitrary: B)
  case Nil
  show ?case by (simp add: triple_return_keep)
next
  case (Cons fam fams)
  have "triple (crawler_inv E N (insert fam B) X) (io_for (bootstrap_family E) fams) (\<lambda>_. crawler_inv E N (set (fam # fams) \<union> B) X)"
    using Cons.IH[of "insert fam B"] Cons.prems by simp
  then show ?case using Cons.prems by (auto intro!: triple_seq bootstrap_family_inv[OF assms])
qed

lemma bootstrap_inv:
  assumes "env_ok E N" "sockets_ok N" "\<And>fs. families = Some fs \<Longrightarrow> set fs \<subseteq> ns_family ` set N"
  shows "triple (crawler_inv E N B X) (bootstrap E families) (\<lambda>_. crawler_inv E N B X)"
  unfolding bootstrap_def
proof (rule triple_get_bind, clarify)
  fix s0 hosts fams assume inv: "crawler_inv E N B X s0"
  let ?fams = "case families of None \<Rightarrow> map fst (cr_families s0) | Some fs \<Rightarrow> fs"
  have sub: "set ?fams \<subseteq> ns_family ` set N" using assms(3) crawler_invD(8)[OF inv] by (auto split: option.splits)
  have all: "list_all (\<lambda>p. fs_last_bootstrap_time (snd p) \<noteq> None) (cr_families s)"
    if "crawler_inv E N (set ?fams \<union> B) X s" "families = None" for s
  proof -
    have "fst p \<in> set ?fams" if "p \<in> set (cr_families s)" for p
      using that crawler_invD(8)[OF inv] crawler_invD(8)[OF \<open>crawler_inv E N (set ?fams \<union> B) X s\<close>] \<open>families = None\<close>
      by (metis image_eqI list.set_map option.case(1))
    then show ?thesis using crawler_invD(4)[OF that(1)] by (auto simp: list_all_iff families_ok_def family_ok_def)
  qed
  have last: "triple (crawler_inv E N (set ?fams \<union> B) X) (io_bind (io_get cr_families) (\<lambda>states.
        crawl_assert (families = None \<longrightarrow> list_all (\<lambda>p. fs_last_bootstrap_time (snd p) \<noteq> None) states)))
      (\<lambda>_. crawler_inv E N (set ?fams \<union> B) X)"
    using all by (intro triple_get_bind triple_assert_keep) blast
  show "triple (crawler_inv E N B X) (io_seq (crawl_assert (cr_bootstrap_nodes s0 \<noteq> []))
     (io_seq (io_for (bootstrap_family E) ?fams)
      (io_bind (io_get cr_families) (\<lambda>states.
        crawl_assert (families = None \<longrightarrow> list_all (\<lambda>p. fs_last_bootstrap_time (snd p) \<noteq> None) states))))) (\<lambda>_. crawler_inv E N B X)"
    using crawler_inv_tables(4)[OF inv]
    by (intro triple_assert_seq triple_seq[OF bootstrap_loop_inv[OF assms(1,2) sub]] triple_post[OF last]) (auto elim: crawler_inv_mono)
qed

section \<open>Nodes\<close>

lemma text_family:
  assumes "inet_inverse lib"
  shows "ipv4_address lib a \<Longrightarrow> address_family (fst a) = AF_INET" "ipv6_address_ok lib a \<Longrightarrow> address_family (fst a) = AF_INET6"
  using assms by (auto simp: ipv4_address_def ipv6_address_ok_def inet_inverse_def address_family_def)

lemma foreign_fits:
  assumes "inet_inverse lib" "foreign_node lib S F (PyBytes b) a" "is_routable_address lib (fst a) (snd a) \<Longrightarrow> text_address lib a"
  shows "node_fits lib (address_family (fst a)) (b, a)" "address_family (fst a) \<in> F"
proof -
  have "text_address lib a" "length b = NODE_ID_LENGTH" "address_family (fst a) \<in> F"
    using assms(2,3) by (auto simp: foreign_node_def is_valid_node_id_def)
  then show "node_fits lib (address_family (fst a)) (b, a)" "address_family (fst a) \<in> F"
    using text_family[OF assms(1), of a] by (auto simp: node_fits_def text_address_def)
qed

lemma decoded_address_text:
  "length c = COMPACT_ADDRESS_LENGTH \<Longrightarrow> ipv4_address lib (decode_compact_address lib c)"
  "length c = COMPACT_ADDRESS6_LENGTH \<Longrightarrow> ipv6_address_ok lib (decode_compact_address lib c)"
proof -
  have port: "int (be_value (drop (length c - 2) c)) \<le> 65535" if "2 \<le> length c"
    using be_value_bound[of "drop (length c - 2) c"] that by simp
  show "length c = COMPACT_ADDRESS_LENGTH \<Longrightarrow> ipv4_address lib (decode_compact_address lib c)"
    using port by (auto simp: decode_compact_address_def ipv4_address_def krpc_consts Let_def intro!: exI[of _ "take 4 c"])
  show "length c = COMPACT_ADDRESS6_LENGTH \<Longrightarrow> ipv6_address_ok lib (decode_compact_address lib c)"
    using port by (auto simp: decode_compact_address_def ipv6_address_ok_def krpc_consts Let_def intro!: exI[of _ "take 16 c"])
qed

lemma decoded_nodes_text:
  "n \<in> set (decode_compact_nodes lib data COMPACT_NODE_LENGTH) \<Longrightarrow> text_address lib (snd n)"
  "n \<in> set (decode_compact_nodes6 lib data) \<Longrightarrow> text_address lib (snd n)"
proof -
  have "length (drop NODE_ID_LENGTH c) = k" if "c \<in> set (chunks (NODE_ID_LENGTH + k) data)" for c k
    using chunks_width[OF _ that] by (simp add: identity_consts)
  then show "n \<in> set (decode_compact_nodes lib data COMPACT_NODE_LENGTH) \<Longrightarrow> text_address lib (snd n)"
    "n \<in> set (decode_compact_nodes6 lib data) \<Longrightarrow> text_address lib (snd n)"
    using decoded_address_text
    by (auto simp: decode_compact_nodes6_def decode_compact_nodes_chunks decode_node_def text_address_def COMPACT_NODE_LENGTH_def
        COMPACT_NODE6_LENGTH_def COMPACT_ADDRESS_LENGTH_def COMPACT_ADDRESS6_LENGTH_def)
qed

lemma encode_nodes_fit:
  assumes lib: "inet_inverse lib" and fit: "\<forall>n \<in> set ns. node_fits lib fam n"
  shows "\<exists>x. encode_compact_nodes lib ns = Inr x"
proof -
  have ids: "list_all (\<lambda>n. length (fst n) = NODE_ID_LENGTH) ns" using fit by (simp add: list_all_iff node_fits_def)
  have enc: "\<exists>x. encode_compact_address lib (fst (snd n)) (snd (snd n)) = Inr x" if "n \<in> set ns" for n
  proof (cases "ipv4_address lib (fst (snd n), snd (snd n))")
    case True
    then show ?thesis by (rule compact_address4[OF lib]) blast
  next
    case False
    then have "ipv6_address_ok lib (fst (snd n), snd (snd n))" using fit that by (auto simp: node_fits_def split: if_splits)
    then show ?thesis by (rule compact_address6[OF lib]) blast
  qed
  have join: "join_compact_nodes lib ns = Inr (concat (map (encode_node lib) ns))"
    using enc by (intro join_compact_nodes_concat) (simp add: list_all_iff)
  have "length (concat (map (encode_node lib) ns)) \<in> {COMPACT_NODE_LENGTH * length ns, COMPACT_NODE6_LENGTH * length ns}"
  proof (cases "fam = AF_INET")
    case True
    then have "list_all (node4_ok lib) ns" using fit by (simp add: list_all_iff node_fits_def node4_ok_def)
    then show ?thesis using fixed_codec.length_concat_enc[OF fixed_codec_node4[OF lib]] by simp
  next
    case False
    then have "list_all (node6_ok lib) ns" using fit by (simp add: list_all_iff node_fits_def node6_ok_def)
    then show ?thesis using fixed_codec.length_concat_enc[OF fixed_codec_node6[OF lib]] by simp
  qed
  with ids join show ?thesis by (simp add: encode_compact_nodes_def krpc_assert_def)
qed

lemma deque_append_bound: "1 \<le> n \<Longrightarrow> length (deque_append n xs x) \<le> n"
  by (simp add: deque_append_def)

lemma deque_append_set: "set (deque_append n xs x) \<subseteq> insert x (set xs)"
  by (auto simp: deque_append_def dest: in_set_dropD)

lemma family_ok_append:
  assumes "family_ok lib N B fam st" "node_fits lib fam node"
  shows "family_ok lib N B fam (st\<lparr>fs_recent_nodes := deque_append RECENT_NODES_SIZE (fs_recent_nodes st) node\<rparr>)"
    "family_ok lib N B fam (st\<lparr>fs_node_queue := deque_append (fs_max_queue st) (fs_node_queue st) node,
       fs_recent_nodes := deque_append RECENT_NODES_SIZE (fs_recent_nodes st) node\<rparr>)"
proof -
  let ?q = "deque_append (fs_max_queue st) (fs_node_queue st) node"
  let ?r = "deque_append RECENT_NODES_SIZE (fs_recent_nodes st) node"
  have fits: "\<forall>n \<in> set (fs_node_queue st). node_fits lib fam n" "\<forall>n \<in> set (fs_recent_nodes st). node_fits lib fam n" "1 \<le> fs_max_queue st"
    using assms(1) by (simp_all add: family_ok_def)
  have "\<forall>n \<in> set ?q. node_fits lib fam n" "\<forall>n \<in> set ?r. node_fits lib fam n"
    using fits assms(2) by (auto dest!: subsetD[OF deque_append_set])
  moreover have "length ?q \<le> fs_max_queue st" "length ?r \<le> RECENT_NODES_SIZE"
    using fits(3) by (simp_all add: deque_append_bound RECENT_NODES_SIZE_def)
  ultimately show "family_ok lib N B fam (st\<lparr>fs_recent_nodes := ?r\<rparr>)" "family_ok lib N B fam (st\<lparr>fs_node_queue := ?q, fs_recent_nodes := ?r\<rparr>)"
    using assms(1) by (auto simp: family_ok_def)
qed

lemma queued_update:
  "crawler_inv E N B X s \<Longrightarrow> length d \<le> MAX_BACKOFF_ENTRIES \<Longrightarrow> crawler_inv E N B X (s\<lparr>cr_recently_queued := d\<rparr>)"
  "crawler_inv E N B X s \<Longrightarrow> length d \<le> MAX_BACKOFF_ENTRIES \<Longrightarrow> crawler_inv E N B X (s\<lparr>cr_fallback_sent := d\<rparr>)"
  "crawler_inv E N B X s \<Longrightarrow> length b \<le> MAX_BACKOFF_ENTRIES \<Longrightarrow> crawler_inv E N B X (s\<lparr>cr_sample_backoff := b\<rparr>)"
  by (simp_all add: crawler_inv_def config_ok_def tables_ok_def claims_ok_def)

lemma is_foreign_eq: "crawler_inv E N B X s \<Longrightarrow> is_foreign_node E s = foreign_node (ce_lib E) (own_id_suffixes N) (ns_family ` set N)"
  by (simp add: is_foreign_node_def crawler_invD)

lemma add_node_inv:
  assumes "env_ok E N" "is_routable_address (ce_lib E) (fst a) (snd a) \<Longrightarrow> text_address (ce_lib E) a"
  shows "triple (crawler_inv E N B X) (add_node E i a) (\<lambda>_. crawler_inv E N B X)"
  unfolding add_node_def Let_def
proof (rule triple_get_bind, goal_cases)
  case (1 x)
  then obtain s0 where inv: "crawler_inv E N B X s0"
    and x: "x = (is_foreign_node E s0 i a, map_of (cr_families s0) (address_family (fst a)), remember (cr_recently_queued s0) a () MAX_BACKOFF_ENTRIES)"
    by blast
  let ?fam = "address_family (fst a)"
  let ?r = "remember (cr_recently_queued s0) a () MAX_BACKOFF_ENTRIES"
  show ?case
  proof (cases "map_of (cr_families s0) ?fam")
    case None
    then show ?thesis by (simp add: x triple_return_keep split: prod.split)
  next
    case (Some st)
    have st: "family_ok (ce_lib E) N B ?fam st"
      using crawler_invD(4)[OF inv] map_of_SomeD[OF Some] by (force simp: families_ok_def)
    then have fam: "?fam \<in> ns_family ` set N" and q: "1 \<le> fs_max_queue st" by (simp_all add: family_ok_def)
    have app: "family_ok (ce_lib E) N B ?fam (st\<lparr>fs_node_queue := deque_append (fs_max_queue st) (fs_node_queue st) (b, a),
            fs_recent_nodes := deque_append RECENT_NODES_SIZE (fs_recent_nodes st) (b, a)\<rparr>)"
      if "is_foreign_node E s0 (PyBytes b) a" for b
      using family_ok_append(2)[OF st] foreign_fits(1)[OF env_okD(4)[OF assms(1)] _ assms(2)] that unfolding is_foreign_eq[OF inv] by blast
    have "length (snd ?r) \<le> MAX_BACKOFF_ENTRIES" by (rule remember_bound)
    moreover obtain is_new queued where "?r = (is_new, queued)" by fastforce
    ultimately show ?thesis unfolding x using Some app fam q
      by (cases i) (auto intro!: triple_return_keep triple_update_same triple_if triple_seq[OF put_family_inv] triple_assert_keep
          queued_update deque_append_bound)
  qed
qed

section \<open>Responses and errors\<close>

lemma decode_samples_width: "list_all (\<lambda>h. length h = NODE_ID_LENGTH) (decode_samples v)"
  by (auto simp: decode_samples_def list_all_iff identity_consts split: pyvalue.splits dest: chunks_width[rotated])

lemma recent_hashes_update:
  assumes "crawler_inv E N B X s" "\<forall>h \<in> set hs. length h = NODE_ID_LENGTH"
  shows "crawler_inv E N B X (s\<lparr>cr_recent_hashes := foldl (deque_append RECENT_HASHES_SIZE) (cr_recent_hashes s) hs\<rparr>)"
proof -
  have "length (foldl (deque_append RECENT_HASHES_SIZE) xs hs) \<le> RECENT_HASHES_SIZE
      \<and> (\<forall>h \<in> set (foldl (deque_append RECENT_HASHES_SIZE) xs hs). length h = NODE_ID_LENGTH)"
    if "length xs \<le> RECENT_HASHES_SIZE" "\<forall>h \<in> set xs. length h = NODE_ID_LENGTH" for xs
    using that assms(2)
  proof (induction hs arbitrary: xs)
    case (Cons h hs)
    have "length (deque_append RECENT_HASHES_SIZE xs h) \<le> RECENT_HASHES_SIZE"
      by (rule deque_append_bound) (simp add: RECENT_HASHES_SIZE_def)
    moreover have "\<forall>k \<in> set (deque_append RECENT_HASHES_SIZE xs h). length k = NODE_ID_LENGTH"
      using Cons.prems by (auto dest!: subsetD[OF deque_append_set])
    ultimately show ?case using Cons.IH[of "deque_append RECENT_HASHES_SIZE xs h"] Cons.prems(3) by simp
  qed simp
  from this[OF crawler_inv_tables(5,6)[OF assms(1)]] assms(1) show ?thesis
    by (simp add: crawler_inv_def config_ok_def tables_ok_def claims_ok_def)
qed

lemma recent_hash_update:
  "crawler_inv E N B X s \<Longrightarrow> length h = NODE_ID_LENGTH \<Longrightarrow>
     crawler_inv E N B X (s\<lparr>cr_recent_hashes := deque_append RECENT_HASHES_SIZE (cr_recent_hashes s) h\<rparr>)"
  using recent_hashes_update[of E N B X s "[h]"] by simp

lemma hint_nodes_update:
  assumes "crawler_inv E N B X s" "hint_ok (ce_lib E) N node"
  shows "crawler_inv E N B X (s\<lparr>cr_hint_nodes := foldl (\<lambda>d h. snd (remember d h node HINT_NODES_SIZE)) (cr_hint_nodes s) hs\<rparr>)"
proof -
  have "length (foldl (\<lambda>d h. snd (remember d h node HINT_NODES_SIZE)) d hs) \<le> HINT_NODES_SIZE
      \<and> (\<forall>p \<in> set (foldl (\<lambda>d h. snd (remember d h node HINT_NODES_SIZE)) d hs). hint_ok (ce_lib E) N (snd p))"
    if "length d \<le> HINT_NODES_SIZE" "\<forall>p \<in> set d. hint_ok (ce_lib E) N (snd p)" for d
    using that
  proof (induction hs arbitrary: d)
    case (Cons h hs)
    have "\<forall>p \<in> set (snd (remember d h node HINT_NODES_SIZE)). hint_ok (ce_lib E) N (snd p)"
      using Cons.prems assms(2) by (auto dest!: remember_values)
    with Cons.IH[of "snd (remember d h node HINT_NODES_SIZE)"] show ?case by (simp add: remember_bound)
  qed simp
  moreover have "length (cr_hint_nodes s) \<le> HINT_NODES_SIZE" "\<forall>p \<in> set (cr_hint_nodes s). hint_ok (ce_lib E) N (snd p)"
    using assms(1) by (simp_all add: crawler_inv_def tables_ok_def)
  ultimately have "length (foldl (\<lambda>d h. snd (remember d h node HINT_NODES_SIZE)) (cr_hint_nodes s) hs) \<le> HINT_NODES_SIZE
      \<and> (\<forall>p \<in> set (foldl (\<lambda>d h. snd (remember d h node HINT_NODES_SIZE)) (cr_hint_nodes s) hs). hint_ok (ce_lib E) N (snd p))"
    by blast
  with assms(1) show ?thesis by (simp add: crawler_inv_def config_ok_def tables_ok_def claims_ok_def)
qed

lemma record_hashes_inv:
  assumes "env_ok E N" "list_all (\<lambda>h. length h = NODE_ID_LENGTH) hs"
  shows "triple (crawler_inv E N B X) (on_catalog E (\<lambda>wall c. ((), snd (record_hashes c hs src wall None)))) (\<lambda>_. crawler_inv E N B X)"
  by (rule on_catalog_inv[OF assms(1)])
    (auto simp: record_hashes_def record_loop_fine[OF _ assms(2)] record_loop_claimed[OF cat_fine_ok])

lemma handle_samples_inv:
  assumes "env_ok E N" "\<And>node. sender = Some node \<Longrightarrow> hint_ok (ce_lib E) N node"
  shows "triple (crawler_inv E N B X) (handle_samples E d a sender) (\<lambda>_. crawler_inv E N B X)"
proof -
  define samples where "samples = decode_samples (py_get d (ascii ''samples''))"
  have w: "list_all (\<lambda>h. length h = NODE_ID_LENGTH) samples" unfolding samples_def by (rule decode_samples_width)
  let ?P = "crawler_inv E N B X"
  have hints: "triple ?P (case sender of None \<Rightarrow> io_return ()
      | Some node \<Rightarrow> io_update (\<lambda>s. s\<lparr>cr_hint_nodes :=
           foldl (\<lambda>d h. snd (remember d h node HINT_NODES_SIZE)) (cr_hint_nodes s) samples\<rparr>)) (\<lambda>_. ?P)"
    using assms(2) by (intro triple_option triple_return_keep triple_update_keep hint_nodes_update)
  have rest: "triple ?P (io_bind (outside (ce_clock E)) (\<lambda>now.
          io_seq (io_update (\<lambda>s. s\<lparr>cr_sample_backoff := snd (remember (cr_sample_backoff s) a (now + v) MAX_BACKOFF_ENTRIES)\<rparr>))
          (io_seq (count_stat samples_received (length samples))
          (io_bind (io_get cr_sample_backoff) (\<lambda>backoff. crawl_assert (a \<in> fst ` set backoff)))))) (\<lambda>_. ?P)" for v
  proof -
    let ?R = "\<lambda>s. ?P s \<and> a \<in> fst ` set (cr_sample_backoff s)"
    have there: "a \<in> fst ` set (snd (remember d a v MAX_BACKOFF_ENTRIES))" for d :: "(address, real) odict" and v
      using remember_last[of MAX_BACKOFF_ENTRIES d a v] by (auto simp: MAX_BACKOFF_ENTRIES_def)
    have count: "triple ?R (count_stat samples_received (length samples)) (\<lambda>_. ?R)"
      unfolding count_stat_def by (rule triple_update_keep) simp
    have last: "triple ?R (io_bind (io_get cr_sample_backoff) (\<lambda>backoff. crawl_assert (a \<in> fst ` set backoff))) (\<lambda>_. ?P)"
      by (auto simp: triple_def io_bind_def io_get_def io_assert_def io_return_def)
    show ?thesis
      by (intro triple_bind_fact[OF clock_inv[OF assms(1)]] triple_update_seq[where R = ?R] triple_seq[OF count] last conjI there)
        (simp_all add: queued_update(3) remember_bound there)
  qed
  show ?thesis unfolding handle_samples_def Let_def samples_def[symmetric] using w
    by (intro triple_assert_seq triple_seq[OF record_hashes_inv[OF assms(1)]] triple_update_same recent_hashes_update
        triple_seq[OF hints] triple_seq[OF count_stat_inv] rest) (simp_all add: list_all_iff)
qed

lemma handle_other_response_inv:
  assumes "env_ok E N" "source_ok (ce_lib E) a"
  shows "triple (crawler_inv E N B X) (handle_other_response E response a) (\<lambda>_. crawler_inv E N B X)"
proof (cases response)
  case (PyDict d)
  let ?P = "crawler_inv E N B X"
  let ?fam = "address_family (fst a)"
  show ?thesis unfolding handle_other_response_def PyDict pyvalue.case
  proof (rule triple_get_bind, goal_cases)
    case (1 foreign)
    then have f: "foreign = foreign_node (ce_lib E) (own_id_suffixes N) (ns_family ` set N) (py_get d (ascii ''id'')) a"
      using is_foreign_eq by metis
    define sender where "sender = (case py_get d (ascii ''id'') of PyBytes b \<Rightarrow> if foreign then Some (b, a) else None | _ \<Rightarrow> None)"
    have fits: "node_fits (ce_lib E) ?fam node \<and> ?fam \<in> ns_family ` set N" if "sender = Some node" for node
    proof -
      obtain b where b: "py_get d (ascii ''id'') = PyBytes b" "foreign" "node = (b, a)"
        using \<open>sender = Some node\<close> by (auto simp: sender_def split: pyvalue.splits if_splits)
      then show ?thesis using foreign_fits[OF env_okD(4)[OF assms(1)], of _ _ b a] assms(2) f by (simp add: source_ok_def)
    qed
    have first: "triple ?P (case sender of None \<Rightarrow> io_return ()
        | Some node \<Rightarrow> io_bind (get_family ?fam) (\<lambda>st.
            put_family ?fam (st\<lparr>fs_recent_nodes := deque_append RECENT_NODES_SIZE (fs_recent_nodes st) node\<rparr>))) (\<lambda>_. ?P)"
      using fits by (intro triple_option triple_return_keep triple_bind_fact[OF get_family_inv] put_family_inv family_ok_append(1)) auto
    have nodes: "triple ?P (io_for (\<lambda>nodes. io_for (\<lambda>node. add_node E (PyBytes (fst node)) (snd node)) nodes)
        [case py_get d NODES_KEY of PyBytes b \<Rightarrow> decode_compact_nodes (ce_lib E) b COMPACT_NODE_LENGTH | _ \<Rightarrow> [],
         case py_get d NODES6_KEY of PyBytes b \<Rightarrow> decode_compact_nodes6 (ce_lib E) b | _ \<Rightarrow> []]) (\<lambda>_. ?P)"
      by (intro triple_for add_node_inv[OF assms(1)]) (auto split: pyvalue.splits dest: decoded_nodes_text)
    have "hint_ok (ce_lib E) N node" if "sender = Some node" for node using fits[OF that] by (auto simp: hint_ok_def)
    then have samples: "triple ?P (io_when c (handle_samples E d a sender)) (\<lambda>_. ?P)" for c
      by (intro triple_when handle_samples_inv[OF assms(1)])
    show ?case unfolding Let_def sender_def[symmetric] by (intro triple_seq[OF first] triple_seq[OF nodes] samples)
  qed
qed (simp_all add: handle_other_response_def triple_return_keep)

lemma owns_managerI: "manager_ok m' \<Longrightarrow> nodes_ok m' \<Longrightarrow> journal m m' \<Longrightarrow> owns_manager E N m \<Longrightarrow> owns_manager E N m'"
  by (simp add: owns_manager_def journal_def)

lemma handle_error_any:
  assumes "manager_ok m"
  shows "manager_ok (handle_error m t now)"
proof (cases "owns_transaction m (PyBytes t)")
  case False
  then have "map_of (lm_transactions m) t = None" by (simp add: owns_transaction_def map_of_eq_None_iff)
  moreover from this have "AList.delete t (lm_transactions m) = lm_transactions m" by (simp add: delete_id map_of_eq_None_iff)
  ultimately have "handle_error m t now = m" by (simp add: handle_error_def Let_def)
  with assms show ?thesis by simp
qed (use assms handle_error_ok in blast)

text \<open>The operations of the manager the crawler calls, on the manager it owns.\<close>

lemma manager_ops:
  assumes own: "owns_manager E N m"
  shows "owns_manager E N (handle_response lib m t response a now) \<and> journal m (handle_response lib m t response a now)"
    "owns_manager E N (handle_error m t now) \<and> journal m (handle_error m t now)"
    "owns_manager E N (tick m now) \<and> journal m (tick m now)"
    "owns_manager E N (abort_all m) \<and> journal m (abort_all m)"
    "owns_manager E N (refill m now) \<and> journal m (refill m now)"
proof -
  have ok: "manager_ok m" "nodes_ok m" using own by (simp_all add: owns_manager_def)
  show "owns_manager E N (handle_response lib m t response a now) \<and> journal m (handle_response lib m t response a now)"
    using owns_managerI[OF _ _ _ own] handle_response_ok[OF ok(1)] handle_response_journal[OF ok(2)] by blast
  show "owns_manager E N (handle_error m t now) \<and> journal m (handle_error m t now)"
    using owns_managerI[OF _ _ _ own] handle_error_any[OF ok(1)] handle_error_journal[OF ok(2)] by blast
  show "owns_manager E N (tick m now) \<and> journal m (tick m now)"
    using owns_managerI[OF _ _ _ own] tick_ok(1)[OF ok(1)] tick_journal[OF ok(2)] by blast
  show "owns_manager E N (abort_all m) \<and> journal m (abort_all m)"
    using owns_managerI[OF _ _ _ own] abort_all_ok(1)[OF ok(1)] abort_all_journal[OF ok(2)] by blast
  show "owns_manager E N (refill m now) \<and> journal m (refill m now)"
    using owns_managerI[OF _ _ _ own] refill_ok[OF ok(1)] refill_journal[OF ok(2)] by blast
qed

lemma on_manager_keep:
  assumes "env_ok E N" "sockets_ok N" "\<And>m. owns_manager E N m \<Longrightarrow> owns_manager E N (f m) \<and> journal m (f m)"
  shows "triple (crawler_inv E N B X) (on_manager E (\<lambda>m. ((), f m))) (\<lambda>_. crawler_inv E N B X)"
  by (rule triple_drop_fact[where c = "\<lambda>_. True"], rule on_manager_inv[OF assms(1,2)]) (use assms(3) in auto)

lemma triple_pybytes:
  "(\<And>b. v = PyBytes b \<Longrightarrow> triple P (f b) Q) \<Longrightarrow> triple P g Q \<Longrightarrow> triple P (case v of PyBytes b \<Rightarrow> f b | _ \<Rightarrow> g) Q"
  by (cases v) auto

lemma crawler_handle_response_inv:
  assumes "env_ok E N" "sockets_ok N" "source_ok (ce_lib E) a" "py_get message (ascii ''y'') = PyBytes (ascii ''r'')"
  shows "triple (crawler_inv E N B X) (crawler_handle_response E message a) (\<lambda>_. crawler_inv E N B X)"
  unfolding crawler_handle_response_def Let_def
  by (intro triple_assert_seq[OF assms(4)] triple_seq[OF count_stat_inv] triple_get_bind triple_pybytes triple_if
      triple_bind_fact[OF clock_inv[OF assms(1)]] on_manager_keep[OF assms(1,2) manager_ops(1)] handle_other_response_inv[OF assms(1,3)])

lemma crawler_handle_error_inv:
  assumes "env_ok E N" "sockets_ok N" "source_ok (ce_lib E) a" "py_get message (ascii ''y'') = PyBytes (ascii ''e'')" "ns \<in> set N"
  shows "triple (crawler_inv E N B X) (crawler_handle_error E message a ns) (\<lambda>_. crawler_inv E N B X)"
proof -
  let ?P = "crawler_inv E N B X"
  have port: "0 \<le> snd a" "snd a \<le> 65535" and id: "length (own_id ns) = NODE_ID_LENGTH" and fam: "ns_family ns \<in> ns_family ` set N"
    using assms(2,3,5) by (auto simp: source_ok_def sockets_ok_def)
  have fallback: "triple ?P (io_bind (io_get (\<lambda>s. remember (cr_fallback_sent s) a () MAX_BACKOFF_ENTRIES)) (\<lambda>(is_new, sent).
      io_seq (io_update (\<lambda>s. s\<lparr>cr_fallback_sent := sent\<rparr>)) (io_when is_new (send_find_node E ns (own_id ns, a))))) (\<lambda>_. ?P)"
  proof (rule triple_get_bind, goal_cases)
    case (1 x)
    then obtain s0 :: crawler where x: "x = remember (cr_fallback_sent s0) a () MAX_BACKOFF_ENTRIES" by blast
    then have "length (snd x) \<le> MAX_BACKOFF_ENTRIES" by (simp add: remember_bound)
    then show ?case
      by (cases x) (auto intro!: triple_update_same queued_update triple_when send_find_node_inv[OF assms(1,5,2)] simp: id port)
  qed
  have other: "triple ?P (io_when c (io_bind (outside (ce_clock E)) (\<lambda>now.
             io_seq (io_update (\<lambda>s. s\<lparr>cr_sample_backoff := snd (remember (cr_sample_backoff s) a
                       (now + of_int MAX_SAMPLE_INTERVAL) MAX_BACKOFF_ENTRIES)\<rparr>))
             (io_bind (get_family (ns_family ns)) (\<lambda>st.
              io_when (length (fs_node_queue st) * 2 < fs_max_queue st)
                (io_bind (io_get (\<lambda>s. remember (cr_fallback_sent s) a () MAX_BACKOFF_ENTRIES)) (\<lambda>(is_new, sent).
                 io_seq (io_update (\<lambda>s. s\<lparr>cr_fallback_sent := sent\<rparr>))
                   (io_when is_new (send_find_node E ns (own_id ns, a)))))))))) (\<lambda>_. ?P)" for c
    by (intro fallback triple_when triple_bind_fact[OF clock_inv[OF assms(1)]] triple_update_same queued_update(3) remember_bound
        triple_bind_fact[OF get_family_inv[OF fam]])
  show ?thesis unfolding crawler_handle_error_def Let_def
    by (intro other triple_assert_seq[OF assms(4)] triple_seq[OF count_stat_inv] triple_get_bind triple_pybytes triple_if
        triple_bind_fact[OF clock_inv[OF assms(1)]] on_manager_keep[OF assms(1,2) manager_ops(2)])
qed

section \<open>Queries\<close>

lemma crawler_record_hash_inv:
  assumes "env_ok E N" "length h = NODE_ID_LENGTH"
  shows "triple (crawler_inv E N B X) (crawler_record_hash E h src peer) (\<lambda>_. crawler_inv E N B X)"
proof -
  have "triple (crawler_inv E N B X) (on_catalog E (\<lambda>wall c. ((), snd (record_hash c h src peer wall None)))) (\<lambda>_. crawler_inv E N B X)"
    by (rule on_catalog_inv[OF assms(1)])
      (auto simp: record_hash_def record_locked_fine[OF _ assms(2)] record_locked_claimed[OF cat_fine_ok])
  then show ?thesis unfolding crawler_record_hash_def
    by (intro triple_assert_seq[OF assms(2)] triple_seq triple_update_keep recent_hash_update[OF _ assms(2)])
qed

lemma triple_lift: "r = Inr x \<Longrightarrow> triple P (f x) Q \<Longrightarrow> triple P (io_bind (crawl_lift r) f) Q"
  by (simp add: triple_def io_bind_def crawl_lift_def io_return_def)

text \<open>The compact recent nodes of a family always encode.\<close>

lemma with_recent_nodes:
  assumes "env_ok E N" "ns \<in> set N"
    and "\<And>st nodes. fs_nodes_key st \<in> {NODES_KEY, NODES6_KEY} \<Longrightarrow> triple (crawler_inv E N B X) (f st nodes) (\<lambda>_. crawler_inv E N B X)"
  shows "triple (crawler_inv E N B X) (io_bind (get_family (ns_family ns)) (\<lambda>st.
      io_bind (crawl_lift (encode_compact_nodes (ce_lib E) (fs_recent_nodes st))) (f st))) (\<lambda>_. crawler_inv E N B X)"
proof (rule triple_bind_fact[OF get_family_inv])
  show "ns_family ns \<in> ns_family ` set N" using assms(2) by simp
  fix st assume st: "family_ok (ce_lib E) N B (ns_family ns) st"
  obtain x where x: "encode_compact_nodes (ce_lib E) (fs_recent_nodes st) = Inr x"
    using encode_nodes_fit[OF env_okD(4)[OF assms(1)], of "fs_recent_nodes st" "ns_family ns"] family_okD(4)[OF st] by blast
  show "triple (crawler_inv E N B X) (io_bind (crawl_lift (encode_compact_nodes (ce_lib E) (fs_recent_nodes st))) (f st)) (\<lambda>_. crawler_inv E N B X)"
    by (rule triple_lift[OF x]) (rule assms(3)[OF family_okD(5)[OF st]])
qed

lemma token_made:
  assumes "env_ok E N" "secret \<noteq> []"
  shows "\<exists>token. make_token (ce_hmac E) secret ip = Inr token \<and> token \<noteq> []"
  using env_okD(2)[OF assms(1), of secret "ascii ip"] assms(2)
  by (auto simp: make_token_def krpc_assert_def Let_def TOKEN_LENGTH_def min_def)

lemma read_info_hash_inv:
  assumes "env_ok E N" "ns \<in> set N"
  shows "triple (crawler_inv E N B X) (read_info_hash E t args a ns)
    (\<lambda>r s. (\<forall>h. r = Some h \<longrightarrow> length h = NODE_ID_LENGTH) \<and> crawler_inv E N B X s)"
proof -
  have err: "triple (crawler_inv E N B X) (io_seq (send_reply E ns (build_error_response t ERROR_PROTOCOL (ascii ''invalid info_hash'')) a) (io_return None))
     (\<lambda>r s. (\<forall>h. r = Some h \<longrightarrow> length h = NODE_ID_LENGTH) \<and> crawler_inv E N B X s)"
    by (intro triple_seq[OF send_reply_inv[OF assms]] triple_return_fact plain_messages) (simp_all add: krpc_consts)
  show ?thesis unfolding read_info_hash_def
    by (intro triple_pybytes triple_if triple_return_fact err) (simp add: is_valid_node_id_def)
qed

lemma handle_get_peers_query_inv:
  assumes "env_ok E N" "ns \<in> set N" "length i = NODE_ID_LENGTH"
  shows "triple (crawler_inv E N B X) (handle_get_peers_query E t i args a ns) (\<lambda>_. crawler_inv E N B X)"
  unfolding handle_get_peers_query_def
proof (intro triple_assert_seq[OF assms(3)] triple_bind_fact[OF read_info_hash_inv[OF assms(1,2)]] triple_option triple_return_keep
    triple_seq[OF crawler_record_hash_inv[OF assms(1)]] triple_get_bind, goal_cases)
  case (2 r h secret)
  then have "secret \<noteq> []" using crawler_invD(10) by metis
  from token_made[OF assms(1) this] obtain token where tok: "make_token (ce_hmac E) secret (fst a) = Inr token" "token \<noteq> []" by blast
  show ?case
    by (intro triple_lift[OF tok(1)] with_recent_nodes[OF assms(1,2)] send_reply_inv[OF assms(1,2)] plain_messages assms(3) tok(2))
qed simp

lemma handle_announce_peer_query_inv:
  assumes "env_ok E N" "ns \<in> set N" "length i = NODE_ID_LENGTH" "source_ok (ce_lib E) a"
  shows "triple (crawler_inv E N B X) (handle_announce_peer_query E t i args a ns) (\<lambda>_. crawler_inv E N B X)"
  unfolding handle_announce_peer_query_def
proof (intro triple_assert_seq[OF assms(3)] triple_bind_fact[OF read_info_hash_inv[OF assms(1,2)]] triple_option triple_return_keep triple_get_bind, goal_cases)
  case (1 r h secret)
  then have "secret \<noteq> []" using crawler_invD(10) by metis
  from token_made[OF assms(1) this] obtain token where tok: "make_token (ce_hmac E) secret (fst a) = Inr token" by blast
  have reply: "sendable (if c then build_ping_response t i else build_error_response t ERROR_PROTOCOL (ascii ''bad token''))" for c
    using plain_messages(4)[OF assms(3)] plain_messages(7)[of ERROR_PROTOCOL] by (simp add: krpc_consts)
  show ?case unfolding Let_def
    by (intro triple_lift[OF tok] triple_assert_seq triple_seq[OF triple_when[OF count_stat_inv]]
        triple_seq[OF crawler_record_hash_inv[OF assms(1)]] send_reply_inv[OF assms(1,2)] reply)
      (use assms(4) 1 in \<open>auto simp: source_ok_def\<close>)
qed

lemma concat_width: "\<forall>h \<in> set hs. length h = k \<Longrightarrow> length (concat hs) mod k = 0"
  by (induction hs) auto

lemma handle_sample_infohashes_query_inv:
  assumes "env_ok E N" "ns \<in> set N" "length i = NODE_ID_LENGTH"
  shows "triple (crawler_inv E N B X) (handle_sample_infohashes_query E t i a ns) (\<lambda>_. crawler_inv E N B X)"
  unfolding handle_sample_infohashes_query_def
proof (intro triple_assert_seq[OF assms(3)] triple_get_bind, goal_cases)
  case (1 recent)
  then have "\<forall>h \<in> set recent. length h = NODE_ID_LENGTH" using crawler_inv_tables(6) by blast
  then have "length (concat (drop k recent)) mod NODE_ID_LENGTH = 0" for k by (intro concat_width) (auto dest: in_set_dropD)
  then show ?case
    by (intro with_recent_nodes[OF assms(1,2)] send_reply_inv[OF assms(1,2)] plain_samples_response assms(3))
      (simp_all add: OWN_SAMPLE_INTERVAL_def MAX_SAMPLE_INTERVAL_def)
qed

lemma handle_find_node_query_inv:
  assumes "env_ok E N" "ns \<in> set N" "length i = NODE_ID_LENGTH"
  shows "triple (crawler_inv E N B X) (handle_find_node_query E t i a ns) (\<lambda>_. crawler_inv E N B X)"
  unfolding handle_find_node_query_def
  by (intro triple_assert_seq[OF assms(3)] with_recent_nodes[OF assms(1,2)] send_reply_inv[OF assms(1,2)] plain_messages assms(3))

lemma length_reply_id: "length own = NODE_ID_LENGTH \<Longrightarrow> length (reply_id_for q args own) = NODE_ID_LENGTH"
  by (simp add: reply_id_for_def Let_def is_valid_node_id_def split: pyvalue.splits)

lemma triple_query:
  "(\<And>t args. v = PyBytes t \<Longrightarrow> w = PyDict args \<Longrightarrow> triple P (f t args) Q) \<Longrightarrow> triple P g Q \<Longrightarrow>
     triple P (case (v, w) of (PyBytes t, PyDict args) \<Rightarrow> f t args | _ \<Rightarrow> g) Q"
  by (cases v; cases w) auto

lemma handle_query_inv:
  assumes "env_ok E N" "sockets_ok N" "ns \<in> set N" "source_ok (ce_lib E) a" "py_get message (ascii ''y'') = PyBytes (ascii ''q'')"
  shows "triple (crawler_inv E N B X) (handle_query E message a ns) (\<lambda>_. crawler_inv E N B X)"
proof -
  have id: "length (reply_id_for q args (own_id ns)) = NODE_ID_LENGTH" for q args
    using assms(2,3) by (intro length_reply_id) (simp add: sockets_ok_def)
  have unknown: "sendable (build_error_response t ERROR_METHOD_UNKNOWN msg)" for t msg
    by (rule plain_messages(7)) (simp add: krpc_consts)
  have body: "triple (crawler_inv E N B X) (io_seq
       (if q = PyBytes (ascii ''ping'') then handle_ping_query E t (reply_id_for q args (own_id ns)) a ns
        else if q = PyBytes (ascii ''find_node'') then handle_find_node_query E t (reply_id_for q args (own_id ns)) a ns
        else if q = PyBytes (ascii ''get_peers'') then handle_get_peers_query E t (reply_id_for q args (own_id ns)) args a ns
        else if q = PyBytes (ascii ''announce_peer'') then handle_announce_peer_query E t (reply_id_for q args (own_id ns)) args a ns
        else if q = PyBytes QUERY_SAMPLE_INFOHASHES then handle_sample_infohashes_query E t (reply_id_for q args (own_id ns)) a ns
        else send_reply E ns (build_error_response t ERROR_METHOD_UNKNOWN (ascii ''Method Unknown'')) a)
       (add_node E i a)) (\<lambda>_. crawler_inv E N B X)" for q t args i
    unfolding handle_ping_query_def
    by (intro triple_seq[where R = "crawler_inv E N B X"] add_node_inv[OF assms(1)] triple_if triple_assert_seq[OF id] send_reply_inv[OF assms(1,3)] plain_messages(4) id
        handle_find_node_query_inv[OF assms(1,3)] handle_get_peers_query_inv[OF assms(1,3)]
        handle_announce_peer_query_inv[OF assms(1,3) _ assms(4)] handle_sample_infohashes_query_inv[OF assms(1,3)] unknown)
      (use assms(4) in \<open>simp add: source_ok_def\<close>)
  show ?thesis unfolding handle_query_def Let_def
    by (intro triple_assert_seq[OF assms(5)] triple_seq[OF count_stat_inv] triple_query body triple_return_keep)
qed

section \<open>Datagrams\<close>

lemma affinity_update:
  assumes "crawler_inv E N B X s" "ns \<in> set N"
  shows "crawler_inv E N B X (s\<lparr>cr_socket_affinity := snd (remember (cr_socket_affinity s) a ns SOCKET_AFFINITY_SIZE)\<rparr>)"
proof -
  have "\<forall>p \<in> set (cr_socket_affinity s). snd p \<in> set N" using assms(1) by (simp add: crawler_inv_def tables_ok_def)
  then have "\<forall>p \<in> set (snd (remember (cr_socket_affinity s) a ns SOCKET_AFFINITY_SIZE)). snd p \<in> set N"
    using assms(2) by (auto dest!: remember_values)
  with assms(1) show ?thesis by (simp add: crawler_inv_def config_ok_def tables_ok_def claims_ok_def remember_bound)
qed

lemma decode_no_index_error: "decode_bencode data \<noteq> Inl (IndexOutOfRange k)"
  by (auto simp: decode_bencode_def split: if_splits sum.splits dest: decode_index_error(1))

lemma handle_datagram_inv:
  assumes "env_ok E N" "sockets_ok N" "ns \<in> set N" "source_ok (ce_lib E) a"
  shows "triple (crawler_inv E N B X) (handle_datagram E data a ns) (\<lambda>_. crawler_inv E N B X)"
  unfolding handle_datagram_def
proof (intro triple_get_bind triple_assert_seq triple_seq[OF count_stat_inv] triple_update_same affinity_update, goal_cases)
  case (1 sockets)
  then show ?case using assms(3) crawler_invD(1) by blast
next
  case (4 sockets)
  note ops = crawler_handle_response_inv[OF assms(1,2,4)] handle_query_inv[OF assms(1-4)] crawler_handle_error_inv[OF assms(1,2,4) _ assms(3)]
  show ?case using decode_no_index_error[of data]
    by (auto intro!: triple_if ops triple_return_keep split: sum.split decode_error.split pyvalue.split)
qed (use assms(3) in auto)

section \<open>The crawl\<close>

lemma crawl_family_inv:
  assumes "env_ok E N" "sockets_ok N" "fam \<in> ns_family ` set N"
  shows "triple (crawler_inv E N B X) (crawl_family E fam n) (\<lambda>k s. k \<le> n \<and> crawler_inv E N B X s)"
proof (induction n)
  case 0
  show ?case by (simp add: triple_return_fact)
next
  case (Suc n)
  let ?P = "crawler_inv E N B X"
  show ?case unfolding crawl_family.simps
  proof (rule triple_bind_fact[OF get_family_inv[OF assms(3)]])
    fix st assume st: "family_ok (ce_lib E) N B fam st"
    show "triple ?P (case fs_node_queue st of [] \<Rightarrow> io_return 0
       | node # queue \<Rightarrow> io_seq (put_family fam (st\<lparr>fs_node_queue := queue\<rparr>)) (io_seq (send_crawl_query E node)
           (io_bind (crawl_family E fam n) (\<lambda>k. io_return (Suc k))))) (\<lambda>k s. k \<le> Suc n \<and> ?P s)"
    proof (cases "fs_node_queue st")
      case Nil
      then show ?thesis by (simp add: triple_return_fact)
    next
      case (Cons node queue)
      have "family_ok (ce_lib E) N B fam (st\<lparr>fs_node_queue := queue\<rparr>)" "node_fits (ce_lib E) fam node"
        using st Cons by (simp_all add: family_ok_def)
      then show ?thesis unfolding Cons list.case
        by (intro triple_seq[OF put_family_inv[OF assms(3)]] triple_seq[OF send_crawl_query_inv[OF assms(1,2)]]
            triple_bind_fact[OF Suc.IH] triple_return_fact) simp_all
    qed
  qed
qed

definition family_share :: "node_socket list \<Rightarrow> family list \<Rightarrow> nat" where
  "family_share N fams = (\<Sum>fam \<leftarrow> fams. length (filter (\<lambda>n. ns_family n = fam) N))"

lemma family_share_le: "distinct fams \<Longrightarrow> family_share N fams \<le> length N"
proof -
  assume "distinct fams"
  then have "(\<Sum>fam \<leftarrow> fams. length (filter (\<lambda>n. ns_family n = fam) N)) = length (filter (\<lambda>n. ns_family n \<in> set fams) N)"
  proof (induction fams)
    case (Cons fam fams)
    have "length (filter (\<lambda>n. ns_family n = fam) N) + length (filter (\<lambda>n. ns_family n \<in> set fams) N)
        = length (filter (\<lambda>n. ns_family n \<in> set (fam # fams)) N)"
      using Cons.prems by (induction N) auto
    with Cons show ?case by simp
  qed simp
  then show ?thesis by (simp add: family_share_def)
qed

lemma crawl_families_inv:
  assumes "env_ok E N" "sockets_ok N"
  shows "set fams \<subseteq> ns_family ` set N \<Longrightarrow>
    triple (crawler_inv E N B X) (crawl_families E b fams) (\<lambda>k s. k \<le> b * family_share N fams \<and> crawler_inv E N B X s)"
proof (induction fams)
  case Nil
  show ?case by (simp add: triple_return_fact)
next
  case (Cons fam fams)
  then have fam: "fam \<in> ns_family ` set N" and IH: "triple (crawler_inv E N B X) (crawl_families E b fams)
      (\<lambda>k s. k \<le> b * family_share N fams \<and> crawler_inv E N B X s)" by simp_all
  show ?case unfolding crawl_families.simps
    by (intro triple_bind_fact[OF get_family_inv[OF fam]] triple_bind_fact[OF crawl_family_inv[OF assms fam]]
        triple_bind_fact[OF IH] triple_return_fact) (simp add: family_okD(6) family_share_def algebra_simps)
qed

lemma crawl_step_inv:
  assumes "env_ok E N" "sockets_ok N"
  shows "triple (crawler_inv E N B X) (crawl_step E) (\<lambda>_. crawler_inv E N B X)"
  unfolding crawl_step_def Let_def
proof (intro triple_bind_fact[OF clock_inv[OF assms(1)]] triple_get_bind, goal_cases)
  case (1 now s)
  then have inv: "crawler_inv E N B X s" by auto
  have fams: "set (map fst (cr_families s)) = ns_family ` set N" "distinct (map fst (cr_families s))"
    using crawler_invD(4,8)[OF inv] by (simp_all add: families_ok_def)
  have sub: "set (map fst (filter P (cr_families s))) \<subseteq> ns_family ` set N" for P using fams(1) by auto
  have share: "k \<le> cr_batch_size s * length (cr_node_sockets s)"
    if "k \<le> cr_batch_size s * family_share N (map fst (cr_families s))" for k
    using that family_share_le[OF fams(2), of N] crawler_invD(1)[OF inv] by (simp add: le_trans mult_le_mono2)
  have boot: "triple (crawler_inv E N B X) (io_when c (bootstrap E (Some (map fst (filter P (cr_families s)))))) (\<lambda>_. crawler_inv E N B X)" for c P
    by (intro triple_when bootstrap_inv[OF assms]) (metis option.inject sub)
  show ?case
    by (intro triple_assert_seq triple_seq[OF boot] triple_bind_fact[OF crawl_families_inv[OF assms]] triple_return_keep)
      (use fams share crawler_invD(11)[OF inv] in simp_all)
qed

section \<open>Lookups\<close>

lemma no_finished_dispatch:
  assumes "env_ok E N" "sockets_ok N" "list_all (call_ok flt) cs" "finished_hashes cs = []"
  shows "triple (crawler_inv E N B X) (io_for (dispatch_call E) cs) (\<lambda>_. crawler_inv E N B X)"
  using dispatch_calls_inv[OF assms(1,2,3), of X B] assms(4) by simp

text \<open>Starting a claimed lookup: the claim becomes an active lookup, or stays to be released.\<close>

lemma start_lookup_inv:
  assumes "env_ok E N" "sockets_ok N" "length h = NODE_ID_LENGTH" "h \<notin> X"
  shows "triple (crawler_inv E N B (insert h X)) (on_manager E (\<lambda>m. start_lookup m h seeds now hint))
    (\<lambda>started. crawler_inv E N B (if started then X else insert h X))"
  unfolding on_manager_def
proof (rule triple_read)
  fix s0 assume inv: "crawler_inv E N B (insert h X) s0"
  let ?m = "cr_lookup_manager s0"
  obtain started m' where f: "start_lookup ?m h seeds now hint = (started, m')" by fastforce
  have own: "manager_ok ?m" "nodes_ok ?m" "lm_node_filter ?m = node_filter_of E N" using crawler_invD(5)[OF inv] by (simp_all add: owns_manager_def)
  have o: "opened ?m h started m'" "nodes_ok m'" using start_lookup_opened[OF own(2) assms(3) f] by auto
  have "manager_ok m'" using start_lookup_ok[OF own(1), of h seeds now hint] f by simp
  with o own(3) have own': "owns_manager E N m'" by (simp add: owns_manager_def opened_def)
  obtain cs where cs: "lm_calls m' = lm_calls ?m @ cs" "list_all (call_ok (lm_node_filter ?m)) cs" "finished_hashes cs = []"
    "active_hashes m' = (if started then insert h (active_hashes ?m) else active_hashes ?m)"
    using o(1) unfolding opened_def by blast
  have claims: "claimed (cr_catalog s0) = active_hashes ?m \<union> insert h X" "insert h X \<inter> active_hashes ?m = {}"
    using inv by (simp_all add: crawler_inv_def claims_ok_def)
  have "crawler_inv E N B (if started then X else insert h X) (s0\<lparr>cr_lookup_manager := m'\<rparr>)"
    using cs(4) claims assms(4) by (intro manager_replaced[OF inv own']) auto
  moreover have ret: "triple (crawler_inv E N B (if started then X else insert h X)) (io_return started)
      (\<lambda>started. crawler_inv E N B (if started then X else insert h X))" by (simp add: triple_def io_return_def)
  ultimately show "triple (\<lambda>s. s = s0) (io_seq (io_update (\<lambda>s. s\<lparr>cr_lookup_manager := snd (start_lookup ?m h seeds now hint)\<rparr>))
       (io_seq (io_for (dispatch_call E) (drop (length (lm_calls ?m)) (lm_calls (snd (start_lookup ?m h seeds now hint)))))
         (io_return (fst (start_lookup ?m h seeds now hint))))) (\<lambda>started. crawler_inv E N B (if started then X else insert h X))"
    unfolding f fst_conv snd_conv cs(1)
    by (intro triple_update_seq[where R = "crawler_inv E N B (if started then X else insert h X)"])
      (simp_all only: append_eq_conv_conj[symmetric] append_take_drop_id drop_append diff_self_eq_0 drop0 drop_all order_refl append_Nil
        triple_seq[OF no_finished_dispatch[OF assms(1,2) cs(2,3)] ret])
qed

lemma seed_nodes_bound:
  assumes "crawler_inv E N B X s"
  shows "length (seed_nodes s h) \<le> LOOKUP_SEED_COUNT + RECENT_NODES_SIZE * length (cr_families s)"
proof -
  have "length (fs_recent_nodes (snd p)) \<le> RECENT_NODES_SIZE" if "p \<in> set (cr_families s)" for p
    using that crawler_invD(4)[OF assms] by (auto simp: families_ok_def family_ok_def)
  then have "(\<Sum>p \<leftarrow> cr_families s. length (fs_recent_nodes (snd p))) \<le> RECENT_NODES_SIZE * length (cr_families s)"
    using sum_list_mono[of "cr_families s" "\<lambda>p. length (fs_recent_nodes (snd p))" "\<lambda>_. RECENT_NODES_SIZE"] by (simp add: sum_list_triv mult.commute)
  then show ?thesis by (simp add: seed_nodes_def Let_def select_closest_nodes_def length_concat comp_def)
qed

lemma start_pending_lookup_inv:
  assumes "env_ok E N" "sockets_ok N" "length h = NODE_ID_LENGTH" "h \<notin> X"
  shows "triple (crawler_inv E N B (insert h X)) (start_pending_lookup E now h) (\<lambda>_. crawler_inv E N B X)"
  unfolding start_pending_lookup_def
proof (rule triple_get_bind)
  let ?Q = "crawler_inv E N B (insert h X)"
  fix hint assume "\<exists>s. ?Q s \<and> hint = map_of (cr_hint_nodes s) h"
  then obtain s where s: "?Q s" "hint = map_of (cr_hint_nodes s) h" by blast
  have hint: "address_family (fst (snd node)) \<in> ns_family ` set N" if "hint = Some node" for node
    using crawler_inv_tables(2)[OF s(1), of h node] s(2) that by (auto simp: hint_ok_def node_fits_def)
  have seeds: "triple ?Q (case hint of
                Some node \<Rightarrow> io_bind (get_family (address_family (fst (snd node)))) (\<lambda>st. io_return (fs_recent_nodes st))
              | None \<Rightarrow> io_bind (io_get (\<lambda>s. seed_nodes s h)) (\<lambda>seeds.
                  io_bind (io_get (\<lambda>s. length (cr_families s))) (\<lambda>n.
                  io_seq (crawl_assert (length h = NODE_ID_LENGTH
                            \<and> length seeds \<le> LOOKUP_SEED_COUNT + RECENT_NODES_SIZE * n)) (io_return seeds)))) (\<lambda>_. ?Q)"
  proof (cases hint)
    case None
    show ?thesis unfolding None option.case
      using seed_nodes_bound[of E N B "insert h X"] assms(3)
      by (auto simp: triple_def io_bind_def io_get_def io_seq_def io_assert_def io_return_def)
  next
    case (Some node)
    show ?thesis unfolding Some option.case
      by (intro triple_bind_fact[OF get_family_inv[OF hint[OF Some]]] triple_return_keep)
  qed
  have "triple ?Q (on_catalog E (\<lambda>_ c. ((), release_lookup_claim c h))) (\<lambda>x s. True \<and> crawler_inv E N B X s)"
    using assms(4) by (intro on_catalog_change[OF assms(1)]) (auto simp: lookup_methods_fine release_lookup_claim_claimed[OF cat_fine_ok])
  then have release: "triple ?Q (io_seq (on_catalog E (\<lambda>_ c. ((), release_lookup_claim c h))) (io_return False)) (\<lambda>_. crawler_inv E N B X)"
    by (intro triple_seq[where R = "crawler_inv E N B X"] triple_return_keep) simp
  show "triple ?Q (io_bind (case hint of
                Some node \<Rightarrow> io_bind (get_family (address_family (fst (snd node)))) (\<lambda>st. io_return (fs_recent_nodes st))
              | None \<Rightarrow> io_bind (io_get (\<lambda>s. seed_nodes s h)) (\<lambda>seeds.
                  io_bind (io_get (\<lambda>s. length (cr_families s))) (\<lambda>n.
                  io_seq (crawl_assert (length h = NODE_ID_LENGTH
                            \<and> length seeds \<le> LOOKUP_SEED_COUNT + RECENT_NODES_SIZE * n)) (io_return seeds)))) (\<lambda>seeds.
     io_seq (crawl_assert (length h = NODE_ID_LENGTH))
     (io_bind (on_manager E (\<lambda>m. start_lookup m h seeds now hint)) (\<lambda>started.
      if started then io_return True
      else io_seq (on_catalog E (\<lambda>_ c. ((), release_lookup_claim c h))) (io_return False))))) (\<lambda>_. crawler_inv E N B X)"
  proof (intro triple_bind[OF seeds] triple_assert_seq[OF assms(3)] triple_bind[OF start_lookup_inv[OF assms]], goal_cases)
    case (1 seeds started)
    show ?case using release by (cases started) (simp_all add: triple_return_keep)
  qed
qed

lemma start_pending_loop_inv:
  assumes "env_ok E N" "sockets_ok N"
  shows "distinct hs \<Longrightarrow> set hs \<inter> X = {} \<Longrightarrow> \<forall>h \<in> set hs. length h = NODE_ID_LENGTH \<Longrightarrow>
    triple (crawler_inv E N B (set hs \<union> X)) (start_pending_loop E now hs) (\<lambda>k s. k \<le> length hs \<and> crawler_inv E N B X s)"
proof (induction hs)
  case Nil
  show ?case by (simp add: triple_return_fact)
next
  case (Cons h hs)
  have "h \<notin> set hs \<union> X" "length h = NODE_ID_LENGTH" using Cons.prems by auto
  note step = start_pending_lookup_inv[OF assms this(2,1)]
  have IH: "triple (crawler_inv E N B (set hs \<union> X)) (start_pending_loop E now hs) (\<lambda>k s. k \<le> length hs \<and> crawler_inv E N B X s)"
    using Cons by simp
  show ?case unfolding start_pending_loop.simps list.set Un_insert_left
    by (intro triple_bind[OF step] triple_bind_fact[OF IH] triple_return_fact) simp
qed

lemma start_pending_lookups_inv:
  assumes "env_ok E N" "sockets_ok N" "0 \<le> now"
  shows "triple (crawler_inv E N B {}) (start_pending_lookups E now) (\<lambda>_. crawler_inv E N B {})"
proof -
  let ?P = "crawler_inv E N B {}"
  have count: "triple ?P (on_catalog E (\<lambda>_ c. (fetchable_count c, c))) (\<lambda>_. ?P)"
    by (rule on_catalog_inv[OF assms(1)]) auto
  have refill: "triple ?P (on_manager E (\<lambda>m. (lm_tokens (refill m now), refill m now))) (\<lambda>_. ?P)"
    by (rule triple_drop_fact[where c = "\<lambda>_. True"], rule on_manager_inv[OF assms(1,2)]) (use manager_ops(5) in auto)
  let ?g = "\<lambda>k hs. distinct hs \<and> length hs \<le> k \<and> (\<forall>h \<in> set hs. length h = NODE_ID_LENGTH)"
  have claim: "triple ?P (on_catalog E (\<lambda>wall c. hashes_needing_peers c k wall None)) (\<lambda>hs s. ?g k hs \<and> crawler_inv E N B (set hs) s)" for k
  proof (rule on_catalog_change[OF assms(1)])
    fix wall c hs c' A
    assume c: "cat_fine c" "claimed c = A \<union> {}" "hashes_needing_peers c k wall None = (hs, c')"
    note claims = hashes_needing_peers_claimed[OF cat_fine_ok[OF c(1)] c(3)]
    have "cat_fine c'" using lookup_methods_fine(4)[OF c(1), of k wall None] c(3) by simp
    moreover have "\<forall>h \<in> set hs. length h = NODE_ID_LENGTH" using claims(5) c(1) by (auto simp: cat_fine_def)
    ultimately show "?g k hs \<and> cat_fine c' \<and> claimed c' = A \<union> set hs \<and> set hs \<inter> A = {}" using claims c(2) by simp
  qed
  have loop: "triple (crawler_inv E N B (set hs)) (start_pending_loop E now hs) (\<lambda>k s. k \<le> length hs \<and> ?P s)" if "?g k hs" for k hs
    using start_pending_loop_inv[OF assms(1,2), of hs "{}"] that by simp
  show ?thesis unfolding start_pending_lookups_def Let_def
  proof (intro triple_assert_seq[OF assms(3)] triple_bind[OF count] triple_get_bind triple_bind[OF refill] triple_if triple_return_keep
      triple_bind_dep[OF claim], goal_cases)
    case (1 fetchable free target tokens hs)
    let ?slots = "min free (min (int target - int fetchable) \<lfloor>tokens\<rfloor>)"
    have "int k \<le> ?slots" if "k \<le> length hs" for k
    proof -
      have "int (length hs) \<le> ?slots" using 1(3,4) nat_le_iff le_nat_iff[of ?slots "length hs"] by linarith
      then show ?thesis using that by linarith
    qed
    then show ?case
      by (intro triple_bind_fact[OF loop[OF 1(4)]] triple_seq[OF count_stat_inv] triple_assert_seq triple_return_keep)
  qed
qed

end
