(* ===== verification/Crawler_Properties.thy ===== *)
theory Crawler_Properties
  imports Crawler_Steps
begin

text \<open>
  The main loop of \<open>dht_crawler.py\<close> and what the crawler guarantees: \<open>run\<close> never raises,
  whatever the network sends, keeps its tables bounded and leaves no lookup claim behind; the
  claims are the active lookups at the end of every round; the replies to the queries of other
  nodes; the announce tokens; the per-address send windows.
\<close>

section \<open>Receiving\<close>

lemma receive_loop_inv:
  assumes "env_ok E N" "sockets_ok N" "ns \<in> set N" "\<forall>r \<in> set results. recv_ok (ce_lib E) r"
  shows "triple (crawler_inv E N B X) (receive_loop E ns n results) (\<lambda>_. crawler_inv E N B X)"
  using assms
proof (induction E ns n results rule: receive_loop.induct)
  case (1 E ns n data addr results)
  then show ?case
    by (auto intro!: triple_seq[OF handle_datagram_inv] triple_bind[OF 1(1)] triple_return_keep)
qed (auto simp: triple_return_keep)

lemma receive_sockets_inv:
  assumes "env_ok E N" "sockets_ok N" "\<forall>p \<in> set ready. fst p \<in> set N \<and> (\<forall>r \<in> set (snd p). recv_ok (ce_lib E) r)"
  shows "triple (crawler_inv E N B X) (receive_sockets E ready) (\<lambda>_. crawler_inv E N B X)"
  using assms
proof (induction E ready rule: receive_sockets.induct)
  case (2 E ns results ready)
  then show ?case by (auto intro!: triple_bind[OF receive_loop_inv] triple_bind[OF 2(1)] triple_return_keep)
qed (simp add: triple_return_keep)

lemma receive_pending_inv:
  assumes "env_ok E N" "sockets_ok N" "0 \<le> timeout"
  shows "triple (crawler_inv E N B X) (receive_pending E timeout) (\<lambda>_. crawler_inv E N B X)"
  unfolding receive_pending_def
proof (intro triple_assert_seq[OF assms(3)] triple_bind_fact[OF outside_inv], clarify)
  fix n
  show "triple (crawler_inv E N B X) (receive_sockets E (ce_select E n)) (\<lambda>_. crawler_inv E N B X)"
    using receive_sockets_inv[OF assms(1,2)] env_okD(6)[OF assms(1)] by blast
qed

section \<open>The main loop\<close>

lemma next_batch_time_value:
  "0 < interval \<Longrightarrow> due \<le> now \<Longrightarrow> next_batch_time due now interval = Inr (if now - due > interval then now + interval else due + interval)"
  by (auto simp: next_batch_time_def)

lemma run_iteration_inv:
  assumes "env_ok E N" "sockets_ok N"
  shows "triple (crawler_inv E N B {}) (run_iteration E next_send) (\<lambda>_. crawler_inv E N B {})"
  unfolding run_iteration_def
proof (rule triple_bind_fact[OF clock_inv[OF assms(1)]], rule triple_get_bind, clarify)
  fix now :: real and s :: crawler
  assume now: "0 \<le> now" and inv: "crawler_inv E N B {} s"
  let ?P = "crawler_inv E N B {}" and ?interval = "cr_interval s"
  have tick: "triple ?P (on_manager E (\<lambda>m. ((), tick m now))) (\<lambda>_. ?P)"
    by (rule on_manager_keep[OF assms]) (rule manager_ops(3))
  have step: "triple ?P (if now \<ge> next_send
      then io_seq (crawl_step E) (io_seq (crawl_assert (now \<ge> 0)) (io_seq (on_manager E (\<lambda>m. ((), tick m now)))
             (io_seq (start_pending_lookups E now)
               (case next_batch_time next_send now ?interval of Inl e \<Rightarrow> io_raise e | Inr t \<Rightarrow> io_return t))))
      else io_return next_send) (\<lambda>_. ?P)"
    using next_batch_time_value[OF crawler_invD(12)[OF inv], of next_send now] now
    by (intro triple_if triple_return_keep triple_seq[OF crawl_step_inv[OF assms]] triple_assert_seq triple_seq[OF tick]
        triple_seq[OF start_pending_lookups_inv[OF assms]]) (simp_all add: triple_return_keep)
  have receive: "triple ?P (receive_pending E (max 0 t)) (\<lambda>_. ?P)" for t by (rule receive_pending_inv[OF assms]) simp
  show "triple ?P (io_bind (if now \<ge> next_send
      then io_seq (crawl_step E) (io_seq (crawl_assert (now \<ge> 0)) (io_seq (on_manager E (\<lambda>m. ((), tick m now)))
             (io_seq (start_pending_lookups E now)
               (case next_batch_time next_send now ?interval of Inl e \<Rightarrow> io_raise e | Inr t \<Rightarrow> io_return t))))
      else io_return next_send) (\<lambda>next. io_bind (outside (ce_clock E)) (\<lambda>now2.
        io_seq (receive_pending E (max 0 (min ?interval (next - now2)))) (io_return next)))) (\<lambda>_. ?P)"
    by (intro triple_bind[OF step] triple_bind_fact[OF outside_inv] triple_seq[OF receive] triple_return_keep)
qed

lemma run_loop_inv:
  assumes "env_ok E N" "sockets_ok N"
  shows "triple (crawler_inv E N B {}) (run_loop E n next_send) (\<lambda>_. crawler_inv E N B {})"
  by (induction n arbitrary: next_send) (auto intro: triple_return_keep triple_bind[OF run_iteration_inv[OF assms]])

section \<open>The start\<close>

lemma new_catalog_fine: "1 \<le> mp \<Longrightarrow> cat_fine (new_catalog me mp mf ml rs) \<and> claimed (new_catalog me mp mf ml rs) = {}"
  by (simp add: cat_fine_def new_catalog_ok claimed_def hashes_with_def) (simp add: new_catalog_def)

lemma new_crawler_inv:
  assumes "env_ok E N" "limits_ok limits" "cat_fine c" "claimed c = {}" "\<forall>p \<in> set hosts. 0 \<le> snd p \<and> snd p \<le> 65535"
    and new: "new_crawler E N c hosts b interval q target limits = Inr s"
  shows "crawler_inv E N {} {} s" "sockets_ok N"
proof -
  let ?fams = "filter (\<lambda>fam. filter (\<lambda>n. ns_family n = fam) N \<noteq> []) [AF_INET, AF_INET6]"
  let ?refused = "\<not> (length N \<ge> 1 \<and> b \<ge> 1 \<and> interval > 0 \<and> q \<ge> 1) \<or> hosts = [] \<or> list_ex (\<lambda>n. length (own_id n) \<noteq> NODE_ID_LENGTH) N"
  have started: "\<not> ?refused"
    using new unfolding new_crawler_def by (rule contrapos_pn) (subst if_P, assumption, simp)
  then have guards: "N \<noteq> []" "1 \<le> b" "0 < interval" "1 \<le> q" "hosts \<noteq> []" "\<forall>n \<in> set N. length (own_id n) = NODE_ID_LENGTH"
    by (auto simp: list_ex_iff)
  have s: "s = \<lparr>cr_node_sockets = N, cr_catalog = c, cr_bootstrap_nodes = hosts,
       cr_resolved_bootstrap_hosts = map (\<lambda>fam. (fam, [])) ?fams, cr_batch_size = b,
       cr_interval = interval, cr_own_suffixes = own_id_suffixes N,
       cr_families = map (\<lambda>fam. (fam, new_family_state fam (filter (\<lambda>n. ns_family n = fam) N) q)) ?fams,
       cr_token_secret = ce_urandom E 0 TOKEN_SECRET_LENGTH, cr_recent_hashes = [], cr_sample_backoff = [],
       cr_fallback_sent = [], cr_recently_queued = [], cr_hint_nodes = [], cr_socket_affinity = [],
       cr_send_windows = [], cr_lookup_fetchable_target = target, cr_stats = (\<lambda>_. 0),
       cr_lookup_manager = new_manager (ce_clock E 1)
         (\<lambda>node. foreign_node (ce_lib E) (own_id_suffixes N) (set ?fams) (PyBytes (fst node)) (snd node)) True limits,
       cr_calls = 2, cr_sent = []\<rparr>"
    using new[unfolded new_crawler_def if_not_P[OF started] Let_def, symmetric] by (simp only: sum.inject)
  have "fam \<in> set ?fams \<longleftrightarrow> fam \<in> ns_family ` set N" for fam
    unfolding set_filter by (cases fam) (force simp: filter_empty_conv)+
  then have fams: "set ?fams = ns_family ` set N" "distinct ?fams" by (blast, intro distinct_filter) simp
  show "sockets_ok N" using guards by (simp add: sockets_ok_def)
  have "length (cr_token_secret s) = TOKEN_SECRET_LENGTH" using env_okD(1)[OF assms(1)] by (simp add: s)
  then have secret: "cr_token_secret s \<noteq> []" by (auto simp: TOKEN_SECRET_LENGTH_def)
  have "families_ok (ce_lib E) N {} (cr_families s)"
    unfolding families_ok_def using fams guards(4)
    by (auto simp: s o_def family_ok_def new_family_state_def image_image)
  then have "config_ok E N {} s" using guards assms(5) secret fams \<open>sockets_ok N\<close> by (simp add: config_ok_def s image_image)
  moreover have "tables_ok E N s" by (simp add: tables_ok_def windows_ok_def s)
  moreover have "owns_manager E N (cr_lookup_manager s)"
    using new_manager_ok[OF assms(2)] fams(1)
    by (simp add: s owns_manager_def nodes_ok_def node_filter_of_def[abs_def]) (simp add: new_manager_def)
  moreover have "claims_ok {} s" using assms(4) by (simp add: claims_ok_def s new_manager_def)
  ultimately show "crawler_inv E N {} {} s" using assms(3) by (simp add: crawler_inv_def s)
qed

section \<open>The lookup manager between its calls\<close>

lemma manager_untouched_basics:
  "untouched cr_lookup_manager (outside f)" "untouched cr_lookup_manager (count_stat k n)"
  "untouched cr_lookup_manager (put_family fam st)" "untouched cr_lookup_manager (on_catalog E h)"
  "untouched cr_lookup_manager (crawl_lift r)"
  by (auto simp: untouched_def outside_def count_stat_def put_family_def on_catalog_def crawl_lift_def io_update_def io_return_def
      io_raise_def split_beta Let_def split: sum.splits krpc_error.splits)

lemma manager_untouched_send:
  "untouched cr_lookup_manager (send_message E ns m a)" "untouched cr_lookup_manager (pick_node_socket fam)"
  unfolding send_message_def allow_send_def pick_node_socket_def Let_def
  by (auto intro!: untouched_rules manager_untouched_basics split: option.split sum.split prod.split)

lemma manager_untouched_dispatch: "untouched cr_lookup_manager (dispatch_call E call)"
  unfolding dispatch_call_def send_lookup_query_def send_reply_def
  by (auto intro!: untouched_rules manager_untouched_basics manager_untouched_send split: option.split lookup_call.split)

lemma abort_inv:
  assumes "env_ok E N" "sockets_ok N"
  shows "triple (crawler_inv E N B {}) (on_manager E (\<lambda>m. ((), abort_all m)))
    (\<lambda>_ s. crawler_inv E N B {} s \<and> lm_active (cr_lookup_manager s) = [])"
proof (rule tripleI)
  fix s assume inv: "crawler_inv E N B {} s"
  let ?f = "\<lambda>m. ((), abort_all m)" and ?m = "cr_lookup_manager s"
  have "triple (crawler_inv E N B {}) (on_manager E ?f) (\<lambda>_. crawler_inv E N B {})"
    by (rule on_manager_keep[OF assms]) (rule manager_ops(4))
  then obtain x s1 where run: "on_manager E ?f s = (Inr x, s1)" "crawler_inv E N B {} s1" using inv by (rule tripleD)
  let ?rest = "io_seq (io_for (dispatch_call E) (drop (length (lm_calls ?m)) (lm_calls (abort_all ?m)))) (io_return ())"
  have "untouched cr_lookup_manager ?rest" by (intro untouched_rules manager_untouched_dispatch)
  then have "cr_lookup_manager (snd (?rest (s\<lparr>cr_lookup_manager := abort_all ?m\<rparr>))) = abort_all ?m" by (simp add: untouched_def)
  moreover have "on_manager E ?f s = ?rest (s\<lparr>cr_lookup_manager := abort_all ?m\<rparr>)"
    by (simp add: on_manager_def io_bind_def[of "io_get _"] io_get_def io_seq_def[of "io_update _"] io_bind_def[of "io_update _"] io_update_def)
  ultimately have "cr_lookup_manager s1 = abort_all ?m" using run(1) by (metis snd_conv)
  moreover have "manager_ok ?m" using crawler_invD(5)[OF inv] by (simp add: owns_manager_def)
  ultimately show "\<exists>x s1. on_manager E ?f s = (Inr x, s1) \<and> crawler_inv E N B {} s1 \<and> lm_active (cr_lookup_manager s1) = []"
    using run abort_all_ok(3) by auto
qed

lemma crawler_run_inv:
  assumes "env_ok E N" "sockets_ok N"
  shows "triple (crawler_inv E N {} {}) (crawler_run E n)
    (\<lambda>counts s. crawler_inv E N {} {} s \<and> lm_active (cr_lookup_manager s) = [])"
  unfolding crawler_run_def
  by (intro triple_seq[OF bootstrap_inv[OF assms]] triple_bind_fact[OF outside_inv] triple_seq[OF run_loop_inv[OF assms]]
      triple_seq[OF abort_inv[OF assms]] triple_get_keep) simp_all

section \<open>What the crawler guarantees\<close>


text \<open>A network that sends junk, a socket, and the crawler over them.\<close>

definition example_socket :: node_socket where
  "example_socket = \<lparr>udp_socket = 3, own_id = replicate 20 1, ns_port = 6881, ns_family = AF_INET\<rparr>"

definition example_env :: crawler_env where
  "example_env = \<lparr>ce_lib = dotted_lib, ce_hmac = (\<lambda>key msg. replicate 20 (of_nat (length msg))), ce_clock = real, ce_wall_clock = real,
     ce_urandom = (\<lambda>n k. replicate k (of_nat n)), ce_sendto = (\<lambda>n. even n), ce_resolver = (\<lambda>_ _ _ _. Some [dotted [8, 8, 4, 4]]),
     ce_others = (\<lambda>_ c. c),
     ce_select = (\<lambda>n. [(example_socket, [Received (ascii ''d1:q4:ping'') (dotted (map unat [1, 2, 3, 4 :: byte]), 6881)])])\<rparr>"

definition example_limits :: lookup_limits where
  "example_limits = \<lparr>ll_alpha = 3, ll_query_timeout = 2, ll_hint_timeout = 1, ll_deadline = 30, ll_max_queries = 20, ll_enough_peers = 10,
     ll_max_value_responses = 4, ll_max_active = 10, ll_queries_per_second = 50, ll_max_per_node = 1, ll_shortlist_size = 16,
     ll_max_peers = 50\<rparr>"

definition example_crawler :: "crawl_error + crawler" where
  "example_crawler = new_crawler example_env [example_socket] (new_catalog 100 8 3 2 60) [(''router'', 6881)] 4 1 100 5 example_limits"

lemma example_env_ok: "env_ok example_env [example_socket]"
proof -
  have "\<exists>b :: bytes. length b = 4 \<and> dotted (map unat [1, 2, 3, 4 :: byte]) = dotted (map unat b)" by (rule exI[of _ "[1, 2, 3, 4]"]) simp
  then have "source_ok dotted_lib (dotted (map unat [1, 2, 3, 4 :: byte]), 6881)"
    by (simp add: source_ok_def text_address_def ipv4_address_def dotted_lib_def)
  then show ?thesis using dotted_lib_inverse by (simp add: env_ok_def example_env_def TOKEN_LENGTH_def)
qed

lemma example_crawler_started: "\<exists>s. example_crawler = Inr s"
  by (simp add: example_crawler_def new_crawler_def example_socket_def NODE_ID_LENGTH_def Let_def)

lemma example_limits_ok: "limits_ok example_limits"
  by (simp add: limits_ok_def example_limits_def)


text \<open>
  C7: At the end of every round the catalog's lookup claims are exactly the lookups the manager
  runs: the claimed hashes are the active ones, the catalog's counter of lookups in progress is
  their number, and it stays within the manager's limit. No claim is lost and none is held twice.
\<close>

theorem crawler_claims_are_lookups:
  assumes "env_ok E N" "limits_ok limits" "1 \<le> max_peers" "\<forall>p \<in> set hosts. 0 \<le> snd p \<and> snd p \<le> 65535"
    and "background_step\<^sup>*\<^sup>* (new_catalog max_entries max_peers max_attempts max_lookups retry) c"
    and "new_crawler E N c hosts batch_size interval max_queue target limits = Inr s"
  shows "\<exists>s'. io_seq (bootstrap E None) (run_loop E rounds next_send) s = (Inr (), s')
    \<and> claimed (cr_catalog s') = fst ` set (lm_active (cr_lookup_manager s'))
    \<and> c_lookups_in_progress (cr_catalog s') = int (length (lm_active (cr_lookup_manager s')))
    \<and> length (lm_active (cr_lookup_manager s')) \<le> ll_max_active (lm_limits (cr_lookup_manager s'))"
proof -
  have "cat_fine c \<and> claimed c = {}"
    using background_steps[OF assms(5)] new_catalog_fine[OF assms(3)] by simp
  then have inv: "crawler_inv E N {} {} s" "sockets_ok N" using new_crawler_inv[OF assms(1,2) _ _ assms(4,6)] by auto
  have "triple (crawler_inv E N {} {}) (io_seq (bootstrap E None) (run_loop E rounds next_send)) (\<lambda>_. crawler_inv E N {} {})"
    by (intro triple_seq[OF bootstrap_inv[OF assms(1) inv(2)]] run_loop_inv[OF assms(1) inv(2)]) simp
  then obtain x s' where run: "io_seq (bootstrap E None) (run_loop E rounds next_send) s = (Inr x, s')" "crawler_inv E N {} {} s'"
    using inv(1) by (rule tripleD)
  then have claims: "claimed (cr_catalog s') = active_hashes (cr_lookup_manager s')" and fine: "cat_ok (cr_catalog s')"
    and m: "manager_ok (cr_lookup_manager s')"
    by (simp_all add: crawler_inv_def claims_ok_def cat_fine_def owns_manager_def)
  have "c_lookups_in_progress (cr_catalog s') = int (card (claimed (cr_catalog s')))"
    using cat_butD(2)[OF fine] tally_card[OF fine] by (simp add: counts_ok_def claimed_def)
  moreover have active: "od_ok (lm_active (cr_lookup_manager s'))"
    "length (lm_active (cr_lookup_manager s')) \<le> ll_max_active (lm_limits (cr_lookup_manager s'))"
    using m by (simp_all add: manager_ok_def lookups_ok_def)
  ultimately have "c_lookups_in_progress (cr_catalog s') = int (length (lm_active (cr_lookup_manager s')))"
    unfolding claims length_index[OF active(1)] by simp
  with run(1) claims active(2) show ?thesis by simp
qed

theorem crawler_claims_are_lookups_witness:
  "\<exists>s s'. example_crawler = Inr s \<and> io_seq (bootstrap example_env None) (run_loop example_env 20 0) s = (Inr (), s')
     \<and> claimed (cr_catalog s') = fst ` set (lm_active (cr_lookup_manager s'))"
proof -
  obtain s where s: "example_crawler = Inr s" using example_crawler_started by blast
  then show ?thesis
    using crawler_claims_are_lookups[OF example_env_ok example_limits_ok _ _ rtranclp.rtrancl_refl s[unfolded example_crawler_def], of 20 0]
    by auto
qed

section \<open>Announced peers\<close>

lemma catalog_untouched_send: "untouched cr_catalog (send_reply E ns m a)"
proof -
  have basics: "untouched cr_catalog (outside f)" "untouched cr_catalog (count_stat k n)" for f :: "nat \<Rightarrow> 'b" and k n
    by (simp_all add: untouched_def outside_def count_stat_def io_update_def)
  have "untouched cr_catalog (outside f)" for f :: "nat \<Rightarrow> bool" by (simp add: untouched_def outside_def)
  moreover have "untouched cr_catalog (crawl_lift m)"
    by (auto simp: untouched_def crawl_lift_def io_return_def io_raise_def split: sum.splits krpc_error.splits)
  ultimately show ?thesis
    unfolding send_reply_def send_message_def allow_send_def
    by (auto intro!: untouched_rules basics split: option.split sum.split prod.split)
qed

text \<open>The peer an announcement names: only with the token of its address, and only when routable.\<close>

definition announced_peer :: "crawler_env \<Rightarrow> bytes \<Rightarrow> pydict \<Rightarrow> address \<Rightarrow> address option" where
  "announced_peer E secret args a =
     (case (if py_get args (ascii ''token'') = PyBytes (take TOKEN_LENGTH (ce_hmac E secret (ascii (fst a))))
            then read_announced_port args (snd a) else None) of
        Some port \<Rightarrow> if is_routable_address (ce_lib E) (fst a) port then Some (fst a, port) else None
      | None \<Rightarrow> None)"

text \<open>
  C22: An \<open>announce_peer\<close> query for a valid info hash records exactly one sighting of that hash,
  and it records a peer only when the query carries the token that \<open>get_peers\<close> hands out to the
  address it comes from, the announced port is in range and the address is routable: no sender
  can make the crawler record a peer at an address it does not receive at.
\<close>

theorem announce_peer_needs_token:
  assumes "env_ok E N" "ns \<in> set N" "length reply_id = NODE_ID_LENGTH" "source_ok (ce_lib E) a" "crawler_inv E N B X s"
    and "py_get args (ascii ''info_hash'') = PyBytes h" "length h = NODE_ID_LENGTH"
  shows "\<exists>s'. handle_announce_peer_query E t reply_id args a ns s = (Inr (), s')
    \<and> cr_catalog s' = snd (record_hash (ce_others E (cr_calls s) (cr_catalog s)) h SOURCE_ANNOUNCE_PEER
        (announced_peer E (cr_token_secret s) args a) (ce_wall_clock E (cr_calls s)) None)"
proof -
  obtain x s' where run: "handle_announce_peer_query E t reply_id args a ns s = (Inr x, s')"
    using handle_announce_peer_query_inv[OF assms(1-4), of B X t args] assms(5) by (rule tripleD)
  let ?token = "take TOKEN_LENGTH (ce_hmac E (cr_token_secret s) (ascii (fst a)))"
  have tok: "make_token (ce_hmac E) (cr_token_secret s) (fst a) = Inr ?token"
    using crawler_invD(10)[OF assms(5)] env_okD(2)[OF assms(1)] by (simp add: make_token_def krpc_assert_def Let_def)
  have hash: "read_info_hash E t args a ns s = (Inr (Some h), s)"
    using assms(6,7) by (simp add: read_info_hash_def is_valid_node_id_def io_return_def)
  have port: "0 \<le> snd a \<and> snd a \<le> 65535" using assms(4) by (simp add: source_ok_def)
  let ?peer = "announced_peer E (cr_token_secret s) args a"
  let ?c' = "snd (record_hash (ce_others E (cr_calls s) (cr_catalog s)) h SOURCE_ANNOUNCE_PEER ?peer (ce_wall_clock E (cr_calls s)) None)"
  have "\<exists>m. handle_announce_peer_query E t reply_id args a ns s =
      io_seq (io_when (?peer \<noteq> None) (count_stat announced_peers 1))
        (io_seq (crawler_record_hash E h SOURCE_ANNOUNCE_PEER ?peer) (send_reply E ns m a)) s"
    unfolding handle_announce_peer_query_def Let_def announced_peer_def
    by (simp only: assert_passed[OF assms(3)] bind_at[of "read_info_hash E t args a ns", OF hash] option.case bind_get crawl_lift_def tok sum.case bind_return
        assert_passed[OF TrueI] port simp_thms) (rule exI, rule refl)
  then obtain m where "handle_announce_peer_query E t reply_id args a ns s =
      io_seq (io_when (?peer \<noteq> None) (count_stat announced_peers 1))
        (io_seq (crawler_record_hash E h SOURCE_ANNOUNCE_PEER ?peer) (send_reply E ns m a)) s" ..
  then have "\<exists>s2. cr_catalog s2 = ?c' \<and> handle_announce_peer_query E t reply_id args a ns s = send_reply E ns m a s2"
    using assms(7) by (cases "?peer = None") (simp add: io_seq_def io_bind_def io_when_def count_stat_def io_update_def io_return_def
      crawler_record_hash_def io_assert_def on_catalog_def split_beta Let_def, rule exI, rule conjI[rotated], rule refl, simp)+
  with run catalog_untouched_send show ?thesis by (simp add: untouched_def) (metis snd_conv)
qed

definition announce_args :: "bytes \<Rightarrow> pydict" where
  "announce_args token = [(KBytes (ascii ''info_hash''), PyBytes (replicate 20 9)), (KBytes (ascii ''port''), PyInt 6881),
     (KBytes (ascii ''token''), PyBytes token)]"

lemma example_source_ok: "source_ok dotted_lib (dotted [1, 2, 3, 4], 6881)"
proof -
  have "\<exists>b :: bytes. length b = 4 \<and> dotted [1, 2, 3, 4] = dotted (map unat b)" by (rule exI[of _ "[1, 2, 3, 4]"]) simp
  then show ?thesis by (simp add: source_ok_def text_address_def ipv4_address_def dotted_lib_def)
qed

theorem announce_peer_needs_token_witness:
  "\<exists>s s'. example_crawler = Inr s
     \<and> handle_announce_peer_query example_env [1, 2] (replicate 20 1) (announce_args [6]) (dotted [1, 2, 3, 4], 6881) example_socket s
         = (Inr (), s')
     \<and> cr_catalog s' = snd (record_hash (cr_catalog s) (replicate 20 9) SOURCE_ANNOUNCE_PEER None 2 None)"
proof -
  obtain s where s: "example_crawler = Inr s" using example_crawler_started by blast
  have inv: "crawler_inv example_env [example_socket] {} {} s"
    using new_crawler_inv(1)[OF example_env_ok example_limits_ok _ _ _ s[unfolded example_crawler_def]] new_catalog_fine by simp
  have calls: "cr_calls s = 2"
    using s by (auto simp: example_crawler_def new_crawler_def example_socket_def NODE_ID_LENGTH_def Let_def)
  have args: "py_get (announce_args tok) (ascii ''info_hash'') = PyBytes (replicate 20 9)"
    "py_get (announce_args tok) (ascii ''token'') = PyBytes tok" for tok
    by (simp_all add: announce_args_def py_get_def)
  have "announced_peer example_env (cr_token_secret s) (announce_args [6]) (dotted [1, 2, 3, 4], 6881) = None"
  proof -
    have "length (take TOKEN_LENGTH (ce_hmac example_env secret msg)) = 8" for secret msg by (simp add: example_env_def TOKEN_LENGTH_def)
    then have "take TOKEN_LENGTH (ce_hmac example_env secret msg) \<noteq> [6]" for secret msg by (metis length_Cons list.size(3) numeral_eq_iff
        One_nat_def numeral_One semiring_norm(83))
    then show ?thesis by (simp add: announced_peer_def args eq_commute[of "[6]"])
  qed
  moreover have env: "ce_lib example_env = dotted_lib" "ce_others example_env n c = c" "ce_wall_clock example_env 2 = 2" for n c
    by (simp_all add: example_env_def)
  ultimately have "\<exists>s'. handle_announce_peer_query example_env [1, 2] (replicate 20 1) (announce_args [6]) (dotted [1, 2, 3, 4], 6881) example_socket s
         = (Inr (), s') \<and> cr_catalog s' = snd (record_hash (cr_catalog s) (replicate 20 9) SOURCE_ANNOUNCE_PEER None 2 None)"
    using announce_peer_needs_token[OF example_env_ok _ _ _ inv args(1), of example_socket "replicate 20 1" "(dotted [1, 2, 3, 4], 6881)" "[1, 2]" "[6]"]
      example_source_ok by (simp only: env calls NODE_ID_LENGTH_def length_replicate list.set insert_iff simp_thms)
  with s show ?thesis by blast
qed

end
