(* ===== verification/Send_Windows.thy ===== *)
theory Send_Windows
  imports Dht_Crawler
begin

text \<open>
  The per-address send windows of \<open>dht_crawler.py\<close> (\<open>allow_send\<close>): over any sequence of send
  requests in clock order the packets to one address stay within twice the cap in any window of
  time. The window of an address is related to the packets that passed by \<open>window_ok\<close>.
\<close>

section \<open>The send windows\<close>

text \<open>The times at which \<open>allow_send\<close> lets a packet to \<open>ip\<close> pass, over a sequence of requests.\<close>

fun admitted :: "string \<Rightarrow> (string, real \<times> nat) odict \<Rightarrow> (real \<times> string) list \<Rightarrow> real list" where
  "admitted ip windows [] = []"
| "admitted ip windows ((now, to) # requests) =
     (let (ok, windows') = allow_send_at windows now to
      in (if ok \<and> to = ip then [now] else []) @ admitted ip windows' requests)"

definition passed_in :: "real \<Rightarrow> real \<Rightarrow> real list \<Rightarrow> nat" where
  "passed_in a b ts = length (filter (\<lambda>t. a \<le> t \<and> t < b) ts)"

lemma passed_in_append [simp]: "passed_in a b (xs @ ys) = passed_in a b xs + passed_in a b ys"
  by (simp add: passed_in_def)

lemma passed_in_single: "passed_in a b [t] = of_bool (a \<le> t \<and> t < b)"
  by (simp add: passed_in_def)

lemma passed_in_mono: "(\<And>t. t \<in> set ts \<Longrightarrow> a \<le> t \<Longrightarrow> t < b \<Longrightarrow> c \<le> t \<and> t < d) \<Longrightarrow> passed_in a b ts \<le> passed_in c d ts"
  by (induction ts) (auto simp: passed_in_def)

lemma passed_in_split: "a \<le> m \<Longrightarrow> m \<le> b \<Longrightarrow> passed_in a b ts = passed_in a m ts + passed_in m b ts"
  by (induction ts) (auto simp: passed_in_def)

text \<open>
  What the window of an address says about the packets that passed: none is later than the
  window, those since its start are at most its count, and those of the ten seconds before its
  start at most the cap.
\<close>

definition window_ok :: "(real \<times> nat) option \<Rightarrow> real list \<Rightarrow> bool" where
  "window_ok w past \<longleftrightarrow> (case w of
       None \<Rightarrow> past = []
     | Some (start, n) \<Rightarrow> n \<le> PER_ADDRESS_MAX_PACKETS
         \<and> (\<forall>t \<in> set past. t < start + PER_ADDRESS_WINDOW_SECONDS)
         \<and> (\<forall>b. passed_in start b past \<le> n)
         \<and> (\<forall>a. start - PER_ADDRESS_WINDOW_SECONDS < a \<longrightarrow> passed_in a start past \<le> PER_ADDRESS_MAX_PACKETS))
     \<and> (\<forall>a. passed_in a (a + PER_ADDRESS_WINDOW_SECONDS) past \<le> 2 * PER_ADDRESS_MAX_PACKETS)"

lemma window_fresh:
  assumes "window_ok w past"
    and gap: "\<And>start n. w = Some (start, n) \<Longrightarrow> now - start \<ge> PER_ADDRESS_WINDOW_SECONDS"
  shows "window_ok (Some (now, 1)) (past @ [now])"
proof -
  let ?W = "PER_ADDRESS_WINDOW_SECONDS" and ?K = "PER_ADDRESS_MAX_PACKETS"
  have k: "1 \<le> ?K" "0 < ?W" by (simp_all add: PER_ADDRESS_MAX_PACKETS_def PER_ADDRESS_WINDOW_SECONDS_def)
  have before: "\<forall>t \<in> set past. t < now"
    using assms by (cases w) (fastforce simp: window_ok_def)+
  have recent: "passed_in a b past \<le> ?K" if "now - ?W < a" for a b
  proof (cases w)
    case None
    then show ?thesis using assms(1) by (simp add: window_ok_def passed_in_def)
  next
    case (Some p)
    obtain start n where p: "w = Some (start, n)" using Some by (cases p) auto
    have "passed_in a b past \<le> passed_in start b past" using gap[OF p] that by (intro passed_in_mono) auto
    also have "\<dots> \<le> ?K" using assms(1) p by (auto simp: window_ok_def intro: order_trans)
    finally show ?thesis .
  qed
  have none: "passed_in now b past = 0" for b using before by (auto simp: passed_in_def filter_empty_conv)
  have "passed_in a (a + ?W) (past @ [now]) \<le> 2 * ?K" for a
  proof (cases "a \<le> now \<and> now < a + ?W")
    case True
    then have "passed_in a (a + ?W) past \<le> ?K" by (intro recent) simp
    then show ?thesis using k True by (simp add: passed_in_single)
  next
    case False
    then show ?thesis using assms(1) by (auto simp: passed_in_single window_ok_def)
  qed
  with recent none before k show ?thesis by (auto simp: window_ok_def passed_in_single intro: order.strict_trans)
qed

lemma window_count:
  assumes "window_ok (Some (start, n)) past" "now - start < PER_ADDRESS_WINDOW_SECONDS" "n < PER_ADDRESS_MAX_PACKETS" "start \<le> now"
  shows "window_ok (Some (start, n + 1)) (past @ [now])"
proof -
  let ?W = "PER_ADDRESS_WINDOW_SECONDS" and ?K = "PER_ADDRESS_MAX_PACKETS"
  have w: "\<forall>b. passed_in start b past \<le> n" "\<forall>a. start - ?W < a \<longrightarrow> passed_in a start past \<le> ?K"
    "\<forall>t \<in> set past. t < start + ?W" "\<forall>a. passed_in a (a + ?W) past \<le> 2 * ?K"
    using assms(1) by (simp_all add: window_ok_def)
  have since: "passed_in a b past \<le> n" if "start \<le> a" for a b
    using w(1) passed_in_mono[of past a b start b] that by (meson order_trans)
  have "passed_in a (a + ?W) (past @ [now]) \<le> 2 * ?K" for a
  proof (cases "a \<le> now \<and> now < a + ?W")
    case True
    have "passed_in a (a + ?W) past \<le> ?K + n"
    proof (cases "start \<le> a")
      case True
      then show ?thesis using since[of a "a + ?W"] by simp
    next
      case False
      then have "passed_in a (a + ?W) past = passed_in a start past + passed_in start (a + ?W) past"
        using True assms(4) by (intro passed_in_split) auto
      moreover have "passed_in a start past \<le> ?K" using w(2) True assms(4) by auto
      ultimately show ?thesis using w(1) by (metis add_mono)
    qed
    then show ?thesis using assms(3) True by (simp add: passed_in_single)
  next
    case False
    then show ?thesis using w(4) by (auto simp: passed_in_single)
  qed
  with w assms show ?thesis by (auto simp: window_ok_def passed_in_single intro: le_SucI)
qed

lemma remember_kept:
  assumes "od_ok m" "card (insert k (fst ` set m)) \<le> limit"
  shows "snd (remember m k v limit) = AList.delete k m @ [(k, v)]"
proof -
  have "length (AList.delete k m) = card (fst ` set m - {k})"
    using length_index[OF od_ok_delete[OF assms(1), of k]] by (simp only: keys_delete)
  also have "Suc \<dots> = card (insert k (fst ` set m))" by (simp add: card.insert_remove)
  finally show ?thesis using assms(2) by (simp add: remember_eq Let_def)
qed

lemma allow_send_at_step:
  assumes "od_ok d" "card (insert ip (fst ` set d)) \<le> SEND_WINDOW_ENTRIES" "allow_send_at d now ip = (ok, d')"
  shows "od_ok d'" "fst ` set d' = insert ip (fst ` set d)" "k \<noteq> ip \<Longrightarrow> map_of d' k = map_of d k"
proof -
  note kept = remember_kept[OF assms(1,2)]
  have "ip \<in> fst ` set d" if "map_of d ip = Some w" for w using map_of_SomeD[OF that] by force
  then consider v where "d' = snd (remember d ip v SEND_WINDOW_ENTRIES)" | "ip \<in> fst ` set d" "d' = d"
    | v where "ip \<in> fst ` set d" "d' = AList.update ip v d"
    using assms(3) by (auto simp: allow_send_at_def split: option.splits if_splits)
  then have "od_ok d' \<and> fst ` set d' = insert ip (fst ` set d) \<and> (k \<noteq> ip \<longrightarrow> map_of d' k = map_of d k)" for k
  proof cases
    case 1
    have "fst ` set (AList.delete ip d @ [(ip, v)]) = insert ip (fst ` set d)"
      unfolding set_append image_Un keys_delete by auto
    moreover have "k \<noteq> ip \<Longrightarrow> map_of (AList.delete ip d @ [(ip, v)]) k = map_of d k"
      by (simp add: map_add_def delete_conv' split: option.split)
    ultimately show ?thesis using od_ok_remember[OF assms(1), of ip v SEND_WINDOW_ENTRIES] unfolding 1 kept by blast
  next
    case 2
    then show ?thesis using assms(1) by (simp add: insert_absorb)
  next
    case 3
    then show ?thesis using assms(1) by (simp add: od_ok_update keys_update update_conv')
  qed
  then show "od_ok d'" "fst ` set d' = insert ip (fst ` set d)" "k \<noteq> ip \<Longrightarrow> map_of d' k = map_of d k" by blast+
qed

text \<open>One request keeps the window of an address true to the packets that passed.\<close>

lemma window_step:
  assumes "od_ok d" "card (insert to (fst ` set d)) \<le> SEND_WINDOW_ENTRIES" "allow_send_at d now to = (ok, d')"
    and w: "window_ok (map_of d ip) past" "\<And>start n. map_of d ip = Some (start, n) \<Longrightarrow> start \<le> now"
  shows "window_ok (map_of d' ip) (past @ (if ok \<and> to = ip then [now] else []))"
    "map_of d' ip = Some (start, n) \<Longrightarrow> start \<le> now"
proof -
  have both: "window_ok (map_of d' ip) (past @ (if ok \<and> to = ip then [now] else [])) \<and> (\<forall>start n. map_of d' ip = Some (start, n) \<longrightarrow> start \<le> now)"
  proof (cases "to = ip")
    case False
    then show ?thesis using allow_send_at_step(3)[OF assms(1-3), of ip] w by auto
  next
    case True
    have new: "map_of (snd (remember d ip v SEND_WINDOW_ENTRIES)) ip = Some v" for v
      using remember_kept[OF assms(1), of ip] assms(2) True by (simp add: map_add_def delete_conv')
    show ?thesis
    proof (cases "map_of d ip")
      case None
      then have "ok" "map_of d' ip = Some (now, 1)" using assms(3) new True by (auto simp: allow_send_at_def)
      then show ?thesis using window_fresh[OF w(1), of now] None True by simp
    next
      case (Some p)
      obtain start n where p: "map_of d ip = Some (start, n)" using Some by (cases p) auto
      consider "now - start \<ge> PER_ADDRESS_WINDOW_SECONDS" "ok" "map_of d' ip = Some (now, 1)"
        | "ok = False" "d' = d"
        | "now - start < PER_ADDRESS_WINDOW_SECONDS" "n < PER_ADDRESS_MAX_PACKETS" "ok" "map_of d' ip = Some (start, n + 1)"
        using assms(3) p new True by (fastforce simp: allow_send_at_def update_conv' split: if_splits)
      then show ?thesis
      proof cases
        case 1
        then show ?thesis using window_fresh[OF w(1), of now] p True by simp
      next
        case 2
        then show ?thesis using w by auto
      next
        case 3
        then show ?thesis using window_count[OF w(1)[unfolded p]] w(2)[OF p] True by auto
      qed
    qed
  qed
  then show "window_ok (map_of d' ip) (past @ (if ok \<and> to = ip then [now] else []))"
    "map_of d' ip = Some (start, n) \<Longrightarrow> start \<le> now" by blast+
qed

lemma admitted_window:
  assumes "od_ok d" "card (fst ` set d \<union> snd ` set requests) \<le> SEND_WINDOW_ENTRIES" "sorted (map fst requests)"
    and "window_ok (map_of d ip) past" "\<And>start n r. map_of d ip = Some (start, n) \<Longrightarrow> r \<in> set requests \<Longrightarrow> start \<le> fst r"
  shows "\<exists>w. window_ok w (past @ admitted ip d requests)"
  using assms
proof (induction ip d requests arbitrary: past rule: admitted.induct)
  case (2 ip d now to requests)
  obtain ok d' where step: "allow_send_at d now to = (ok, d')" by fastforce
  have "card (insert to (fst ` set d)) \<le> card (fst ` set d \<union> snd ` set ((now, to) # requests))" by (intro card_mono) auto
  then have room: "card (insert to (fst ` set d)) \<le> SEND_WINDOW_ENTRIES" using 2(3) by simp
  have early: "start \<le> now" if "map_of d ip = Some (start, n)" for start n using 2(6)[OF that, of "(now, to)"] by simp
  note one = allow_send_at_step[OF 2(2) room step]
  have four: "window_ok (map_of d' ip) (past @ (if ok \<and> to = ip then [now] else []))"
    by (rule window_step(1)[OF 2(2) room step 2(5)]) (rule early)
  have five: "start \<le> now" if "map_of d' ip = Some (start, n)" for start n
    by (rule window_step(2)[OF 2(2) room step 2(5) _ that]) (rule early)
  have "\<exists>w. window_ok w ((past @ (if ok \<and> to = ip then [now] else [])) @ admitted ip d' requests)"
  proof (rule 2(1)[OF step[symmetric] refl one(1) _ _ four])
    show "card (fst ` set d' \<union> snd ` set requests) \<le> SEND_WINDOW_ENTRIES" using 2(3) one(2) by simp
    show "sorted (map fst requests)" using 2(4) by simp
    show "start \<le> fst r" if "map_of d' ip = Some (start, n)" "r \<in> set requests" for start n r
      using five[OF that(1)] 2(4) that(2) by fastforce
  qed
  then show ?case by (simp add: step)
qed auto

text \<open>
  C21: The crawler never floods an address. Over any sequence of send requests in the order of the
  clock, to at most as many addresses as the table of windows holds, at most twice
  \<open>PER_ADDRESS_MAX_PACKETS\<close> packets to one address pass in any \<open>PER_ADDRESS_WINDOW_SECONDS\<close>
  seconds (the cap of one window, at most two of which meet such an interval).
\<close>

theorem send_rate_bounded:
  assumes "sorted (map fst requests)" "card (snd ` set requests) \<le> SEND_WINDOW_ENTRIES"
  shows "passed_in t (t + PER_ADDRESS_WINDOW_SECONDS) (admitted ip [] requests) \<le> 2 * PER_ADDRESS_MAX_PACKETS"
proof -
  have "\<exists>w. window_ok w ([] @ admitted ip [] requests)"
    using assms by (intro admitted_window) (simp_all add: window_ok_def passed_in_def)
  then show ?thesis by (auto simp: window_ok_def)
qed

theorem send_rate_bounded_witness:
  "passed_in 0 (0 + PER_ADDRESS_WINDOW_SECONDS) (admitted ''a'' [] (replicate 100 (0, ''a''))) \<le> 2 * PER_ADDRESS_MAX_PACKETS"
  using send_rate_bounded[of "replicate 100 (0, ''a'')" 0 "''a''"] by (simp add: SEND_WINDOW_ENTRIES_def)

end
