(* ===== verification/Search_Terms.thy ===== *)
theory Search_Terms
  imports Utf8_Text
begin

text \<open>
  The text side of \<open>torrent_database.py\<close>: the terms of a text, the typo index (a deletion
  neighbourhood per term) and the FTS5 expressions. \<open>unicodedata\<close>, \<open>str.casefold\<close>,
  \<open>str.isdigit\<close> and the word characters of \<open>re\<close> are the fields of \<open>unicode_lib\<close>; the table
  \<open>terms\<close> is its list of rows. The main results: \<open>within_one_edit\<close> decides exactly the pairs
  that are one substitution, insertion, deletion or swap of neighbours apart, and the lookup in the
  typo index misses none of them.
\<close>

definition MIN_TERM_LENGTH :: nat where "MIN_TERM_LENGTH = 3"
definition MAX_TERM_LENGTH :: nat where "MAX_TERM_LENGTH = 32"
definition MIN_TYPO_LENGTH :: nat where "MIN_TYPO_LENGTH = 4"
definition MAX_TYPO_TERMS :: nat where "MAX_TYPO_TERMS = 20"

lemmas term_consts = MIN_TERM_LENGTH_def MAX_TERM_LENGTH_def MIN_TYPO_LENGTH_def MAX_TYPO_TERMS_def

datatype term_error = TermAssertion

record unicode_lib =
  ul_nfkd :: "ustr \<Rightarrow> ustr"
  ul_combining :: "nat \<Rightarrow> bool"
  ul_casefold :: "ustr \<Rightarrow> ustr"
  ul_word :: "nat \<Rightarrow> bool"
  ul_isdigit :: "ustr \<Rightarrow> bool"

section \<open>Operations\<close>

text \<open>\<open>TERM_PATTERN.findall\<close>: the maximal runs of word characters.\<close>

function find_terms :: "(nat \<Rightarrow> bool) \<Rightarrow> ustr \<Rightarrow> ustr list" where
  "find_terms word [] = []"
| "find_terms word (c # cs) =
     (if word c then (c # takeWhile word cs) # find_terms word (dropWhile word cs) else find_terms word cs)"
  by pat_completeness auto
termination
  by (relation "measure (\<lambda>(_, cs). length cs)") (auto simp: less_Suc_eq_le length_dropWhile_le)

definition text_terms :: "unicode_lib \<Rightarrow> ustr \<Rightarrow> term_error + ustr list" where
  "text_terms lib value =
     (let decomposed = ul_nfkd lib value;
          stripped = filter (\<lambda>c. \<not> ul_combining lib c) decomposed;
          result = find_terms (ul_word lib) (ul_casefold lib stripped)
      in if list_all (\<lambda>t. t = ul_casefold lib t) result then Inr result else Inl TermAssertion)"

definition deletions :: "ustr \<Rightarrow> ustr list" where
  "deletions term = remdups (map (\<lambda>i. take i term @ drop (i + 1) term) [0..<length term])"

function prefix_index :: "ustr \<Rightarrow> ustr \<Rightarrow> nat \<Rightarrow> nat" where
  "prefix_index shorter longer index =
     (if index < length shorter \<and> shorter ! index = longer ! index then prefix_index shorter longer (index + 1) else index)"
  by pat_completeness auto
termination
  by (relation "measure (\<lambda>(shorter, _, index). length shorter - index)") auto

declare prefix_index.simps [simp del]

definition within_one_edit :: "ustr \<Rightarrow> ustr \<Rightarrow> bool" where
  "within_one_edit first second =
     (if \<bar>int (length first) - int (length second)\<bar> > 1 then False
      else if length first = length second
      then let differences = filter (\<lambda>i. first ! i \<noteq> second ! i) [0..<length first];
               swapped = (length differences = 2 \<and> differences ! 1 = differences ! 0 + 1
                          \<and> first ! (differences ! 0) = second ! (differences ! 1) \<and> first ! (differences ! 1) = second ! (differences ! 0))
           in length differences \<le> 1 \<or> swapped
      else let (shorter, longer) = (if length first < length second then (first, second) else (second, first));
               index = prefix_index shorter longer 0
           in drop index shorter = drop (index + 1) longer)"

definition term_rows :: "ustr list \<Rightarrow> (ustr \<times> ustr) list" where
  "term_rows terms = concat (map (\<lambda>term.
     if MIN_TERM_LENGTH \<le> length term \<and> length term \<le> MAX_TERM_LENGTH
     then (term, term) # map (\<lambda>variant. (variant, term)) (sort (deletions term)) else []) (sort (remdups terms)))"

definition typo_candidates :: "(ustr \<times> ustr) list \<Rightarrow> ustr \<Rightarrow> ustr list" where
  "typo_candidates table term =
     (let variants = sort (remdups (term # deletions term))
      in sort (remdups (map snd (filter (\<lambda>row. fst row \<in> set variants) table))))"

definition typo_terms :: "unicode_lib \<Rightarrow> (ustr \<times> ustr) list \<Rightarrow> ustr \<Rightarrow> ustr list" where
  "typo_terms lib table term =
     (if length term < MIN_TYPO_LENGTH \<or> ul_isdigit lib term then []
      else take MAX_TYPO_TERMS (filter (\<lambda>t. t \<noteq> term \<and> within_one_edit term t) (typo_candidates table term)))"

section \<open>One edit\<close>

text \<open>The reference: equal, or one substitution, insertion, deletion or swap of neighbours apart.\<close>

inductive one_edit :: "ustr \<Rightarrow> ustr \<Rightarrow> bool" where
  same: "one_edit a a"
| substitution: "one_edit (p @ x # s) (p @ y # s)"
| insertion: "one_edit (p @ s) (p @ x # s)"
| deletion: "one_edit (p @ x # s) (p @ s)"
| transposition: "one_edit (p @ x # y # s) (p @ y # x # s)"

lemma prefix_index_bound: "index \<le> length shorter \<Longrightarrow> prefix_index shorter longer index \<le> length shorter"
  by (induction shorter longer index rule: prefix_index.induct) (subst prefix_index.simps, auto)

lemma prefix_index_common:
  "index \<le> length shorter \<Longrightarrow> take index shorter = take index longer \<Longrightarrow> length shorter < length longer \<Longrightarrow>
     take (prefix_index shorter longer index) shorter = take (prefix_index shorter longer index) longer"
proof (induction shorter longer index rule: prefix_index.induct)
  case (1 shorter longer index)
  show ?case
  proof (cases "index < length shorter \<and> shorter ! index = longer ! index")
    case True
    then have "take (index + 1) shorter = take (index + 1) longer" using 1(3,4) by (simp add: take_Suc_conv_app_nth)
    with 1 True show ?thesis by (subst (1 2) prefix_index.simps) simp
  next
    case False
    with 1(3) show ?thesis by (subst (1 2) prefix_index.simps) auto
  qed
qed

text \<open>The scan never stops before the place where a longer text has its extra character.\<close>

lemma prefix_index_past:
  "index \<le> k \<Longrightarrow> k \<le> length shorter \<Longrightarrow> take k shorter = take k longer \<Longrightarrow> k \<le> length longer \<Longrightarrow> k \<le> prefix_index shorter longer index"
proof (induction shorter longer index rule: prefix_index.induct)
  case (1 shorter longer index)
  show ?case
  proof (cases "index < k")
    case True
    then have "shorter ! index = longer ! index" using 1(4) by (metis nth_take)
    with True 1 show ?thesis by (subst prefix_index.simps) simp
  next
    case False
    with 1(2) have "index = k" by simp
    moreover have "k \<le> prefix_index shorter longer k"
      by (induction shorter longer k rule: prefix_index.induct) (subst prefix_index.simps, auto)
    ultimately show ?thesis by simp
  qed
qed

lemma longer_by_one:
  assumes "length longer = length shorter + 1"
  shows "(let k = prefix_index shorter longer 0 in drop k shorter = drop (k + 1) longer) \<longleftrightarrow> (\<exists>p x s. shorter = p @ s \<and> longer = p @ x # s)"
proof
  let ?k = "prefix_index shorter longer 0"
  assume "let k = ?k in drop k shorter = drop (k + 1) longer"
  then have rest: "drop ?k shorter = drop (Suc ?k) longer" by (simp add: Let_def)
  have k: "?k < length longer" "take ?k shorter = take ?k longer"
    using prefix_index_bound[of 0 shorter longer] prefix_index_common[of 0 shorter longer] assms by simp_all
  have "shorter = take ?k longer @ drop (Suc ?k) longer" using k(2) rest by (metis append_take_drop_id)
  moreover have "longer = take ?k longer @ longer ! ?k # drop (Suc ?k) longer" using k(1) by (simp add: id_take_nth_drop)
  ultimately show "\<exists>p x s. shorter = p @ s \<and> longer = p @ x # s" by blast
next
  assume "\<exists>p x s. shorter = p @ s \<and> longer = p @ x # s"
  then obtain p x s where ps: "shorter = p @ s" "longer = p @ x # s" by blast
  then have "length p \<le> prefix_index shorter longer 0" by (intro prefix_index_past) auto
  then show "let k = prefix_index shorter longer 0 in drop k shorter = drop (k + 1) longer"
    using ps by (simp add: Suc_diff_le)
qed

text \<open>Equal lengths: the list of the places that differ.\<close>

definition diffs :: "ustr \<Rightarrow> ustr \<Rightarrow> nat list" where
  "diffs a b = filter (\<lambda>i. a ! i \<noteq> b ! i) [0..<length a]"

lemma diffs_sub: "length a = length b \<Longrightarrow> (\<And>j. j < length a \<Longrightarrow> j \<notin> set js \<Longrightarrow> a ! j = b ! j) \<Longrightarrow> set (diffs a b) \<subseteq> set js"
  by (auto simp: diffs_def)

lemma diffs_agree: "j < length a \<Longrightarrow> j \<notin> set (diffs a b) \<Longrightarrow> a ! j = b ! j"
  by (auto simp: diffs_def)

lemma short_diffs:
  assumes "length a = length b" "length (diffs a b) \<le> 1"
  shows "one_edit a b"
proof (cases "diffs a b")
  case Nil
  then have "a = b" using assms(1) diffs_agree[of _ a b] by (intro nth_equalityI) auto
  then show ?thesis by (simp add: same)
next
  case (Cons i js)
  with assms(2) have i: "diffs a b = [i]" by (cases js) auto
  then have "i \<in> set (diffs a b)" by simp
  then have len: "i < length a" by (simp add: diffs_def)
  have "b ! j = a[i := b ! i] ! j" if "j < length b" for j
    using that assms(1) diffs_agree[of j a b] i len by (cases "j = i") simp_all
  then have "b = a[i := b ! i]" using assms(1) by (intro nth_equalityI) auto
  then have "b = take i a @ b ! i # drop (Suc i) a" using len upd_conv_take_nth_drop by metis
  moreover have "a = take i a @ a ! i # drop (Suc i) a" using len by (rule id_take_nth_drop)
  ultimately show ?thesis using substitution by metis
qed

lemma swapped_diffs:
  assumes "length a = length b" "diffs a b = [i, i + 1]" "a ! i = b ! (i + 1)" "a ! (i + 1) = b ! i"
  shows "one_edit a b"
proof -
  have "i + 1 \<in> set (diffs a b)" using assms(2) by simp
  then have len: "Suc i < length a" by (simp add: diffs_def)
  have "b ! j = (take i a @ a ! Suc i # a ! i # drop (Suc (Suc i)) a) ! j" if "j < length b" for j
  proof (cases "Suc i < j")
    case True
    then obtain k where "j = Suc (Suc (i + k))" by (auto simp: less_iff_Suc_add)
    then show ?thesis using that assms len diffs_agree[of j a b] by (simp add: nth_append)
  next
    case False
    then have "j < i \<or> j = i \<or> j = Suc i" by auto
    then show ?thesis using that assms len diffs_agree[of j a b] by (auto simp: nth_append)
  qed
  then have "b = take i a @ a ! Suc i # a ! i # drop (Suc (Suc i)) a" using len assms(1) by (intro nth_equalityI) auto
  moreover have "a = take i a @ a ! i # a ! Suc i # drop (Suc (Suc i)) a"
    using len id_take_nth_drop[of i a] by (simp add: Cons_nth_drop_Suc)
  ultimately show ?thesis using transposition by metis
qed

lemma one_edit_same_length:
  assumes "length a = length b"
  shows "one_edit a b \<longleftrightarrow> length (diffs a b) \<le> 1
    \<or> (\<exists>i. diffs a b = [i, i + 1] \<and> a ! i = b ! (i + 1) \<and> a ! (i + 1) = b ! i)"
proof
  have few: "length (diffs a b) \<le> 1" if "set (diffs a b) \<subseteq> set [i]" for i
  proof -
    have "card (set (diffs a b)) \<le> card {i}" using that by (intro card_mono) auto
    moreover have "distinct (diffs a b)" by (simp add: diffs_def)
    ultimately show ?thesis by (simp add: distinct_card)
  qed
  assume "one_edit a b"
  then show "length (diffs a b) \<le> 1 \<or> (\<exists>i. diffs a b = [i, i + 1] \<and> a ! i = b ! (i + 1) \<and> a ! (i + 1) = b ! i)"
    using assms
  proof cases
    case same
    then show ?thesis by (simp add: diffs_def)
  next
    case (substitution p x s y)
    then have "set (diffs a b) \<subseteq> set [length p]" using assms by (intro diffs_sub) (auto simp: nth_append nth_Cons')
    then show ?thesis using few by blast
  next
    case (transposition p x y s)
    show ?thesis
    proof (cases "x = y")
      case True
      then show ?thesis using transposition by (simp add: diffs_def)
    next
      case False
      have "set (diffs a b) = set [length p, length p + 1]"
        using transposition False by (auto simp: diffs_def nth_append nth_Cons' le_Suc_eq Suc_lessI split: if_splits)
      moreover have "sorted (diffs a b)" "distinct (diffs a b)" by (simp_all add: diffs_def sorted_wrt_filter)
      ultimately have "diffs a b = [length p, length p + 1]" by (intro sorted_distinct_set_unique) auto
      then show ?thesis using transposition by (auto simp: nth_append)
    qed
  qed auto
next
  assume "length (diffs a b) \<le> 1 \<or> (\<exists>i. diffs a b = [i, i + 1] \<and> a ! i = b ! (i + 1) \<and> a ! (i + 1) = b ! i)"
  then show "one_edit a b" using short_diffs[OF assms] swapped_diffs[OF assms] by blast
qed

lemma one_edit_longer:
  assumes "length b = length a + 1"
  shows "one_edit a b \<longleftrightarrow> (\<exists>p x s. a = p @ s \<and> b = p @ x # s)" "one_edit b a \<longleftrightarrow> (\<exists>p x s. a = p @ s \<and> b = p @ x # s)"
  using assms by (auto elim!: one_edit.cases intro: one_edit.intros)

lemma within_one_edit_decides: "within_one_edit a b \<longleftrightarrow> one_edit a b"
proof -
  consider "length a = length b" | "length b = length a + 1" | "length a = length b + 1" | "\<bar>int (length a) - int (length b)\<bar> > 1"
    by linarith
  then show ?thesis
  proof cases
    case 1
    have "within_one_edit a b \<longleftrightarrow> length (diffs a b) \<le> 1
      \<or> (length (diffs a b) = 2 \<and> diffs a b ! 1 = diffs a b ! 0 + 1 \<and> a ! (diffs a b ! 0) = b ! (diffs a b ! 1)
         \<and> a ! (diffs a b ! 1) = b ! (diffs a b ! 0))"
      using 1 by (simp add: within_one_edit_def diffs_def Let_def)
    also have "\<dots> \<longleftrightarrow> one_edit a b"
      unfolding one_edit_same_length[OF 1] by (auto simp: numeral_2_eq_2 length_Suc_conv)
    finally show ?thesis .
  next
    case 2
    then show ?thesis using longer_by_one[of b a] one_edit_longer(1)[of b a] by (simp add: within_one_edit_def)
  next
    case 3
    then show ?thesis using longer_by_one[of a b] one_edit_longer(2)[of a b] by (simp add: within_one_edit_def)
  next
    case 4
    then show ?thesis by (auto simp: within_one_edit_def elim!: one_edit.cases)
  qed
qed

text \<open>
  C3: \<open>within_one_edit\<close> decides exactly the reference relation: two texts are equal, or one
  substitution, insertion, deletion or swap of two neighbouring characters apart.
\<close>

theorem within_one_edit_iff: "within_one_edit first second \<longleftrightarrow> one_edit first second"
  by (rule within_one_edit_decides)

section \<open>The typo index\<close>

lemma deletions_split: "v \<in> set (deletions t) \<longleftrightarrow> (\<exists>p x s. t = p @ x # s \<and> v = p @ s)"
proof
  assume "v \<in> set (deletions t)"
  then obtain i where i: "i < length t" "v = take i t @ drop (Suc i) t" by (auto simp: deletions_def)
  moreover have "t = take i t @ t ! i # drop (Suc i) t" using i(1) by (rule id_take_nth_drop)
  ultimately show "\<exists>p x s. t = p @ x # s \<and> v = p @ s" by blast
next
  assume "\<exists>p x s. t = p @ x # s \<and> v = p @ s"
  then obtain p x s where "t = p @ x # s" "v = p @ s" by blast
  then show "v \<in> set (deletions t)" by (force simp: deletions_def image_iff intro!: bexI[of _ "length p"])
qed

text \<open>The idea of the index: texts one edit apart share a variant.\<close>

lemma one_edit_shared_variant:
  assumes "one_edit a b"
  shows "\<exists>v. v \<in> insert a (set (deletions a)) \<and> v \<in> insert b (set (deletions b))"
  using assms
proof cases
  case (substitution p x s y)
  then have "p @ s \<in> set (deletions a)" "p @ s \<in> set (deletions b)" unfolding deletions_split by blast+
  then show ?thesis by blast
next
  case (insertion p s x)
  then have "a \<in> set (deletions b)" unfolding deletions_split by blast
  then show ?thesis by blast
next
  case (deletion p x s)
  then have "b \<in> set (deletions a)" unfolding deletions_split by blast
  then show ?thesis by blast
next
  case (transposition p x y s)
  then have "p @ y # s \<in> set (deletions a)" unfolding deletions_split by blast
  moreover have "\<exists>q z r. b = q @ z # r \<and> p @ y # s = q @ r"
    using transposition by (intro exI[of _ "p @ [y]"] exI[of _ x] exI[of _ s]) simp
  then have "p @ y # s \<in> set (deletions b)" unfolding deletions_split by blast
  ultimately show ?thesis by blast
qed auto

lemma term_rows_iff:
  "(v, t) \<in> set (term_rows terms) \<longleftrightarrow>
     t \<in> set terms \<and> MIN_TERM_LENGTH \<le> length t \<and> length t \<le> MAX_TERM_LENGTH \<and> v \<in> insert t (set (deletions t))"
  by (auto simp: term_rows_def split: if_splits)

lemma typo_candidates_iff:
  "t \<in> set (typo_candidates table q) \<longleftrightarrow> (\<exists>v. (v, t) \<in> set table \<and> v \<in> insert q (set (deletions q)))"
  by (force simp: typo_candidates_def Let_def image_iff)

text \<open>
  C36: The typo lookup is exact. Over a \<open>terms\<close> table that holds the rows of the indexed terms, a
  query term of at least four characters that is not a number gets, in sorted order, all the
  indexed terms of indexable length that differ from it by one edit, cut to the first twenty: the
  deletion neighbourhoods miss none and let none through that is further away.
\<close>

theorem typo_terms_exact:
  assumes "set table = set (term_rows terms)" "MIN_TYPO_LENGTH \<le> length q" "\<not> ul_isdigit lib q"
  shows "\<exists>found. typo_terms lib table q = take MAX_TYPO_TERMS found \<and> sorted found \<and> distinct found
    \<and> set found = {t \<in> set terms. MIN_TERM_LENGTH \<le> length t \<and> length t \<le> MAX_TERM_LENGTH \<and> t \<noteq> q \<and> one_edit q t}"
proof -
  let ?found = "filter (\<lambda>t. t \<noteq> q \<and> within_one_edit q t) (typo_candidates table q)"
  have "sorted ?found" "distinct ?found" by (simp_all add: typo_candidates_def Let_def sorted_wrt_filter)
  moreover have "set ?found = {t \<in> set terms. MIN_TERM_LENGTH \<le> length t \<and> length t \<le> MAX_TERM_LENGTH \<and> t \<noteq> q \<and> one_edit q t}"
    using one_edit_shared_variant by (auto simp: typo_candidates_iff assms(1) term_rows_iff within_one_edit_decides)
  moreover have "typo_terms lib table q = take MAX_TYPO_TERMS ?found" using assms(2,3) by (simp add: typo_terms_def not_less)
  ultimately show ?thesis by blast
qed

definition plain_unicode :: unicode_lib where
  "plain_unicode = \<lparr>ul_nfkd = id, ul_combining = (\<lambda>_. False), ul_casefold = map (\<lambda>c. if 65 \<le> c \<and> c \<le> 90 then c + 32 else c),
     ul_word = (\<lambda>c. 48 \<le> c \<and> c \<le> 57 \<or> 65 \<le> c \<and> c \<le> 90 \<or> 97 \<le> c \<and> c \<le> 122),
     ul_isdigit = (\<lambda>t. t \<noteq> [] \<and> list_all (\<lambda>c. 48 \<le> c \<and> c \<le> 57) t)\<rparr>"

theorem typo_terms_exact_witness:
  "\<exists>found. typo_terms plain_unicode (term_rows [[100, 101, 102, 103], [97, 98, 99, 100]]) [97, 98, 100, 99] = take MAX_TYPO_TERMS found
     \<and> sorted found \<and> distinct found \<and> set found = {t \<in> set [[100, 101, 102, 103], [97, 98, 99, 100]]. MIN_TERM_LENGTH \<le> length t \<and> length t \<le> MAX_TERM_LENGTH
         \<and> t \<noteq> [97, 98, 100, 99] \<and> one_edit [97, 98, 100, 99] t}"
proof -
  have q: "MIN_TYPO_LENGTH \<le> length [97, 98, 100, 99 :: nat]" "\<not> ul_isdigit plain_unicode [97, 98, 100, 99]"
    by (simp_all add: plain_unicode_def MIN_TYPO_LENGTH_def)
  show ?thesis by (rule typo_terms_exact[OF refl q])
qed

section \<open>The terms of a text\<close>

lemma find_terms_parts: "t \<in> set (find_terms word cs) \<Longrightarrow> t \<noteq> [] \<and> (\<forall>c \<in> set t. word c \<and> c \<in> set cs)"
proof (induction word cs rule: find_terms.induct)
  case (2 word c cs)
  show ?case
  proof (cases "word c")
    case True
    then consider "t = c # takeWhile word cs" | "t \<in> set (find_terms word (dropWhile word cs))" using 2(3) by auto
    then show ?thesis
    proof cases
      case 1
      then show ?thesis using True set_takeWhileD[of _ word cs] by simp
    next
      case 2
      then have "t \<noteq> [] \<and> (\<forall>d \<in> set t. word d \<and> d \<in> set (dropWhile word cs))" by (rule "2.IH"(1)[OF True])
      then show ?thesis using set_dropWhileD[of _ word cs] by simp
    qed
  next
    case False
    then have "t \<in> set (find_terms word cs)" using "2.prems" by simp
    then have "t \<noteq> [] \<and> (\<forall>d \<in> set t. word d \<and> d \<in> set cs)" by (rule "2.IH"(2)[OF False])
    then show ?thesis by simp
  qed
qed simp

text \<open>
  When case folding works character by character and folding twice is folding once (as the
  Unicode folding does), the assertion of \<open>text_terms\<close> holds for every text: it returns
  non-empty runs of word characters, each its own case folding.
\<close>

theorem text_terms_folded:
  assumes "\<And>t. ul_casefold lib t = concat (map fold_char t)" "\<And>c d. d \<in> set (fold_char c) \<Longrightarrow> fold_char d = [d]"
  shows "\<exists>terms. text_terms lib value = Inr terms
    \<and> (\<forall>t \<in> set terms. t \<noteq> [] \<and> list_all (ul_word lib) t \<and> ul_casefold lib t = t)"
proof -
  let ?folded = "ul_casefold lib (filter (\<lambda>c. \<not> ul_combining lib c) (ul_nfkd lib value))"
  have single: "concat (map fold_char t) = t" if "\<forall>d \<in> set t. fold_char d = [d]" for t
    using that by (induction t) auto
  have fixed: "fold_char d = [d]" if "d \<in> set ?folded" for d using that assms(2) by (auto simp: assms(1))
  have parts: "t \<noteq> [] \<and> list_all (ul_word lib) t \<and> ul_casefold lib t = t" if "t \<in> set (find_terms (ul_word lib) ?folded)" for t
    using find_terms_parts[OF that] fixed single[of t] by (auto simp: list_all_iff assms(1)[of t])
  then show ?thesis by (auto simp: text_terms_def Let_def list_all_iff)
qed

theorem text_terms_folded_witness:
  "text_terms plain_unicode [65, 98, 46, 67] = Inr [[97, 98], [99]]
    \<and> (\<exists>terms. text_terms plain_unicode [65, 98, 46, 67] = Inr terms \<and> (\<forall>t \<in> set terms. t \<noteq> []))"
proof
  show "text_terms plain_unicode [65, 98, 46, 67] = Inr [[97, 98], [99]]"
    by (simp add: text_terms_def plain_unicode_def)
  have "ul_casefold plain_unicode t = concat (map (\<lambda>c. [if 65 \<le> c \<and> c \<le> 90 then c + 32 else c]) t)" for t
    by (induction t) (simp_all add: plain_unicode_def)
  then show "\<exists>terms. text_terms plain_unicode [65, 98, 46, 67] = Inr terms \<and> (\<forall>t \<in> set terms. t \<noteq> [])"
    using text_terms_folded[of plain_unicode "\<lambda>c. [if 65 \<le> c \<and> c \<le> 90 then c + 32 else c]" "[65, 98, 46, 67]"]
    by (force split: if_splits)
qed

end
