(* ===== verification/Torrent_Database.thy ===== *)
theory Torrent_Database
  imports Search_Terms Fallible_State Torrent_Catalog
begin

text \<open>
  The store of \<open>torrent_database.py\<close>: the tables as lists of rows, one SQL statement per call of
  \<open>execute\<close> (each may raise \<open>sqlite3.Error\<close>), transactions with their rollback, and the methods
  the index thread and the web interface call. The full-text search itself (FTS5) is not modelled.
  The main results: a write happens completely or not at all and adds exactly the counters it was
  given, and the totals row always says how many torrents there are and how large they are.
\<close>

definition SCHEMA_VERSION :: nat where "SCHEMA_VERSION = 1"
definition MAX_SEARCHABLE_FILES :: nat where "MAX_SEARCHABLE_FILES = 20"
definition MAX_LOOKUP_PARAMETERS :: nat where "MAX_LOOKUP_PARAMETERS = 500"
definition MAX_SQLITE_INTEGER :: int where "MAX_SQLITE_INTEGER = 2 ^ 63 - 1"

section \<open>The tables\<close>

text \<open>A row of \<open>torrents\<close>, with the file list as \<open>json.dumps\<close> writes it.\<close>

record torrent_row =
  tr_id :: nat
  tr_info_hash :: string
  tr_name :: ustr
  tr_size :: int
  tr_file_count :: int
  tr_piece_length :: int
  tr_is_private :: int
  tr_fetched_at :: real
  tr_seen_count :: int
  tr_announce_count :: int
  tr_first_seen :: real
  tr_last_seen :: real
  tr_files_json :: ustr

record totals_row =
  tot_documents :: int
  tot_size :: int
  tot_last_id :: nat

record database =
  db_version :: nat
  db_objects :: bool
  db_torrents :: "torrent_row list"
  db_fts :: "(nat \<times> ustr \<times> ustr) list"
  db_terms :: "(ustr \<times> ustr) list"
  db_totals :: "totals_row option"

text \<open>The dictionary \<open>build_document\<close> makes, and the one of \<open>build_counter_update\<close>.\<close>

record document =
  dc_info_hash :: string
  dc_name :: ustr
  dc_size :: int
  dc_file_count :: int
  dc_piece_length :: int
  dc_is_private :: bool
  dc_fetched_at :: real
  dc_seen_count :: int
  dc_announce_count :: int
  dc_first_seen :: real
  dc_last_seen :: real
  dc_files :: "(ustr \<times> int) list"

record counter_update =
  cu_info_hash :: string
  cu_seen_delta :: int
  cu_announce_delta :: int
  cu_last_seen :: real

type_synonym counters = "int \<times> int \<times> real"

section \<open>Statements and transactions\<close>

text \<open>
  What SQLite and the standard library answer: which statement raises, whether a \<open>COMMIT\<close> that
  raises leaves the transaction open, and \<open>json\<close>.
\<close>

record db_env =
  de_fails :: "nat \<Rightarrow> bool"
  de_stays_open :: "nat \<Rightarrow> bool"
  de_unicode :: unicode_lib
  de_dumps :: "(ustr \<times> int) list \<Rightarrow> ustr"
  de_loads :: "ustr \<Rightarrow> (ustr \<times> int) list"

datatype db_error = DbError | DbSchemaMismatch | DbTypeError | DbAssertion

text \<open>
  The file (\<open>ds_main\<close>), whether there is a writer connection, and what an open transaction of the
  writer has made of the file.
\<close>

record db_state =
  ds_main :: database
  ds_writer :: bool
  ds_open :: "database option"
  ds_calls :: nat

type_synonym 'a db = "(db_error, db_state, 'a) fallible"

abbreviation db_assert :: "bool \<Rightarrow> unit db" where
  "db_assert c \<equiv> io_assert c DbAssertion"

text \<open>One statement on what the connection sees; outside a transaction it commits at once.\<close>

definition execute :: "db_env \<Rightarrow> (database \<Rightarrow> 'a \<times> database) \<Rightarrow> 'a db" where
  "execute E f s =
     (let s1 = s\<lparr>ds_calls := ds_calls s + 1\<rparr>
      in if de_fails E (ds_calls s) then (Inl DbError, s1)
         else case ds_open s of
                Some d \<Rightarrow> (Inr (fst (f d)), s1\<lparr>ds_open := Some (snd (f d))\<rparr>)
              | None \<Rightarrow> (Inr (fst (f (ds_main s))), s1\<lparr>ds_main := snd (f (ds_main s))\<rparr>))"

text \<open>
  \<open>with self.transaction(): body\<close>. A \<open>ROLLBACK\<close> only raises when SQLite has already rolled back,
  and then its error replaces the first one.
\<close>

definition transaction :: "db_env \<Rightarrow> 'a db \<Rightarrow> 'a db" where
  "transaction E body s =
     (if \<not> (ds_writer s \<and> ds_open s = None) then (Inl DbAssertion, s)
      else let n = ds_calls s; s1 = s\<lparr>ds_calls := n + 1\<rparr>
           in if de_fails E n then (Inl DbError, s1)
              else case body (s1\<lparr>ds_open := Some (ds_main s1)\<rparr>) of
                     (Inl e, s2) \<Rightarrow>
                       (Inl (if de_fails E (ds_calls s2) then DbError else e), s2\<lparr>ds_open := None, ds_calls := ds_calls s2 + 1\<rparr>)
                   | (Inr x, s2) \<Rightarrow>
                       let m = ds_calls s2; s3 = s2\<lparr>ds_calls := m + 1\<rparr>
                       in if de_fails E m then (Inl DbError, if de_stays_open E m then s3 else s3\<lparr>ds_open := None\<rparr>)
                          else (Inr x, s3\<lparr>ds_main := the (ds_open s3), ds_open := None\<rparr>))"

section \<open>Writing\<close>

definition find_row :: "string \<Rightarrow> database \<Rightarrow> torrent_row option" where
  "find_row h d = find (\<lambda>r. tr_info_hash r = h) (db_torrents d)"

definition update_rows :: "(torrent_row \<Rightarrow> bool) \<Rightarrow> (torrent_row \<Rightarrow> torrent_row) \<Rightarrow> database \<Rightarrow> database" where
  "update_rows c f d = d\<lparr>db_torrents := map (\<lambda>r. if c r then f r else r) (db_torrents d)\<rparr>"

definition next_id :: "database \<Rightarrow> nat" where
  "next_id d = Max (insert 0 (tr_id ` set (db_torrents d))) + 1"

definition document_row :: "db_env \<Rightarrow> nat \<Rightarrow> document \<Rightarrow> torrent_row" where
  "document_row E i doc =
     \<lparr>tr_id = i, tr_info_hash = dc_info_hash doc, tr_name = dc_name doc, tr_size = dc_size doc,
      tr_file_count = dc_file_count doc, tr_piece_length = dc_piece_length doc, tr_is_private = of_bool (dc_is_private doc),
      tr_fetched_at = dc_fetched_at doc, tr_seen_count = dc_seen_count doc, tr_announce_count = dc_announce_count doc,
      tr_first_seen = dc_first_seen doc, tr_last_seen = dc_last_seen doc, tr_files_json = de_dumps E (dc_files doc)\<rparr>"

text \<open>The terms of all texts in turn: the first failing assertion is the result.\<close>

fun collect_terms :: "unicode_lib \<Rightarrow> ustr list \<Rightarrow> term_error + ustr list" where
  "collect_terms lib [] = Inr []"
| "collect_terms lib (t # ts) =
     (case text_terms lib t of Inl e \<Rightarrow> Inl e
      | Inr xs \<Rightarrow> (case collect_terms lib ts of Inl e \<Rightarrow> Inl e | Inr ys \<Rightarrow> Inr (xs @ ys)))"

definition insert_document :: "db_env \<Rightarrow> document \<Rightarrow> unit db" where
  "insert_document E doc =
     io_bind (io_get (\<lambda>s. ds_writer s \<and> ds_open s \<noteq> None)) (\<lambda>writing.
     io_seq (db_assert writing)
     (io_bind (execute E (\<lambda>d. (next_id d, d\<lparr>db_torrents := db_torrents d @ [document_row E (next_id d) doc]\<rparr>))) (\<lambda>i.
      let paths = map fst (take MAX_SEARCHABLE_FILES (dc_files doc))
      in io_seq (execute E (\<lambda>d. ((), d\<lparr>db_fts := db_fts d @ [(i, dc_name doc, join_with 10 paths)]\<rparr>)))
         (case collect_terms (de_unicode E) (dc_name doc # paths) of
            Inl TermAssertion \<Rightarrow> io_raise DbAssertion
          | Inr terms \<Rightarrow>
              io_seq (execute E (\<lambda>d. ((), d\<lparr>db_terms := db_terms d @ filter (\<lambda>r. r \<notin> set (db_terms d)) (term_rows terms)\<rparr>)))
                (execute E (\<lambda>d. ((), d\<lparr>db_totals := map_option (\<lambda>t.
                   \<lparr>tot_documents = tot_documents t + 1, tot_size = tot_size t + dc_size doc, tot_last_id = max (tot_last_id t) i\<rparr>)
                   (db_totals d)\<rparr>)))))))"

fun write_loop :: "db_env \<Rightarrow> document list \<Rightarrow> (string \<times> counters) list \<Rightarrow> (string \<times> counters) list db" where
  "write_loop E [] previous = io_return previous"
| "write_loop E (doc # docs) previous =
     io_bind (execute E (\<lambda>d. (find_row (dc_info_hash doc) d, d))) (\<lambda>row.
       case row of
         None \<Rightarrow> io_seq (insert_document E doc) (write_loop E docs previous)
       | Some r \<Rightarrow>
           io_seq (execute E (\<lambda>d. ((), update_rows (\<lambda>x. tr_id x = tr_id r)
               (\<lambda>x. x\<lparr>tr_seen_count := tr_seen_count x + dc_seen_count doc, tr_announce_count := tr_announce_count x + dc_announce_count doc,
                  tr_first_seen := min (tr_first_seen x) (dc_first_seen doc), tr_last_seen := max (tr_last_seen x) (dc_last_seen doc)\<rparr>) d)))
             (write_loop E docs (AList.update (dc_info_hash doc) (tr_seen_count r, tr_announce_count r, tr_first_seen r) previous)))"

definition write_documents :: "db_env \<Rightarrow> document list \<Rightarrow> (string \<times> counters) list db" where
  "write_documents E docs =
     io_bind (io_get ds_writer) (\<lambda>writer.
     io_seq (db_assert (writer \<and> list_all (\<lambda>doc. length (dc_info_hash doc) = 40) docs))
     (io_bind (transaction E (write_loop E docs [])) (\<lambda>previous.
      io_seq (db_assert (length previous \<le> length docs)) (io_return previous))))"

fun update_loop :: "db_env \<Rightarrow> counter_update list \<Rightarrow> string list \<Rightarrow> string list db" where
  "update_loop E [] missing = io_return missing"
| "update_loop E (u # us) missing =
     io_bind (execute E (\<lambda>d. (length (filter (\<lambda>r. tr_info_hash r = cu_info_hash u) (db_torrents d)),
        update_rows (\<lambda>x. tr_info_hash x = cu_info_hash u)
          (\<lambda>x. x\<lparr>tr_seen_count := tr_seen_count x + cu_seen_delta u, tr_announce_count := tr_announce_count x + cu_announce_delta u,
             tr_last_seen := max (tr_last_seen x) (cu_last_seen u)\<rparr>) d))) (\<lambda>rowcount.
     update_loop E us (if rowcount = 0 then missing @ [cu_info_hash u] else missing))"

definition update_counters :: "db_env \<Rightarrow> counter_update list \<Rightarrow> string list db" where
  "update_counters E updates =
     io_bind (io_get ds_writer) (\<lambda>writer.
     io_seq (db_assert writer)
     (io_bind (transaction E (update_loop E updates [])) (\<lambda>missing.
      io_seq (db_assert (length missing \<le> length updates)) (io_return missing))))"

section \<open>Opening\<close>

text \<open>\<open>TOTALS_SQL\<close>: the totals row takes in the torrents it has not counted yet.\<close>

definition fix_totals :: "database \<Rightarrow> database" where
  "fix_totals d =
     (let t = (case db_totals d of None \<Rightarrow> \<lparr>tot_documents = 0, tot_size = 0, tot_last_id = 0\<rparr> | Some t \<Rightarrow> t);
          fresh = filter (\<lambda>r. tr_id r > tot_last_id t) (db_torrents d)
      in d\<lparr>db_totals := Some \<lparr>tot_documents = tot_documents t + int (length fresh), tot_size = tot_size t + (\<Sum>r \<leftarrow> fresh. tr_size r),
             tot_last_id = max (tot_last_id t) (Max (insert 0 (tr_id ` set (db_torrents d))))\<rparr>\<rparr>)"

text \<open>A failure closes the connection: there is no writer then.\<close>

definition open_writer :: "db_env \<Rightarrow> bool db" where
  "open_writer E =
     io_bind (io_get ds_writer) (\<lambda>writer.
     io_seq (db_assert (\<not> writer))
     (io_bind (execute E (\<lambda>d. (db_version d, d))) (\<lambda>version.
      io_bind (execute E (\<lambda>d. (db_objects d, d))) (\<lambda>objects.
      if version \<notin> {0, SCHEMA_VERSION} \<or> version = 0 \<and> objects then io_raise DbSchemaMismatch
      else io_seq (execute E (\<lambda>d. ((), d)))
          (io_seq (execute E (\<lambda>d. ((), d)))
          (io_seq (io_when (version = 0) (execute E (\<lambda>d. ((), d\<lparr>db_version := SCHEMA_VERSION, db_objects := True, db_torrents := [],
              db_fts := [], db_terms := [], db_totals := None\<rparr>))))
          (io_seq (execute E (\<lambda>d. ((), fix_totals d)))
          (io_seq (io_update (\<lambda>s. s\<lparr>ds_writer := True\<rparr>)) (io_return (version = 0))))))))))"

definition close_database :: "unit db" where
  "close_database = io_update (\<lambda>s. s\<lparr>ds_writer := False, ds_open := None\<rparr>)"

section \<open>Reading\<close>

text \<open>A query of a reader connection sees what is committed.\<close>

definition db_query :: "db_env \<Rightarrow> (database \<Rightarrow> 'a) \<Rightarrow> 'a db" where
  "db_query E f s =
     (let s1 = s\<lparr>ds_calls := ds_calls s + 1\<rparr>
      in if de_fails E (ds_calls s) then (Inl DbError, s1) else (Inr (f (ds_main s)), s1))"

definition connect_reader :: "db_env \<Rightarrow> unit db" where
  "connect_reader E = io_seq (db_query E (\<lambda>_. ())) (db_query E (\<lambda>_. ()))"

function lookup_loop :: "db_env \<Rightarrow> string list \<Rightarrow> (string \<times> counters) list \<Rightarrow> (string \<times> counters) list db" where
  "lookup_loop E hashes result =
     (if hashes = [] then io_return result
      else io_bind (db_query E (\<lambda>d. filter (\<lambda>r. tr_info_hash r \<in> set (take MAX_LOOKUP_PARAMETERS hashes)) (db_torrents d))) (\<lambda>rows.
        lookup_loop E (drop MAX_LOOKUP_PARAMETERS hashes)
          (foldl (\<lambda>m r. AList.update (tr_info_hash r) (tr_seen_count r, tr_announce_count r, tr_first_seen r) m) result rows)))"
  by pat_completeness auto
termination
  by (relation "measure (\<lambda>(_, hashes, _). length hashes)") (auto simp: MAX_LOOKUP_PARAMETERS_def)

declare lookup_loop.simps [simp del]

definition lookup_counters :: "db_env \<Rightarrow> string list \<Rightarrow> bool \<Rightarrow> (string \<times> counters) list db" where
  "lookup_counters E hashes has_reader =
     io_seq (db_assert (list_all (\<lambda>h. length h = 40) hashes))
     (io_seq (io_when (\<not> has_reader) (connect_reader E))
     (io_bind (lookup_loop E hashes []) (\<lambda>result.
      io_seq (db_assert (length result \<le> length hashes)) (io_return result))))"

definition count_documents :: "db_env \<Rightarrow> nat db" where
  "count_documents E = io_seq (connect_reader E) (db_query E (\<lambda>d. length (db_torrents d)))"

definition document_totals :: "db_env \<Rightarrow> bool \<Rightarrow> (int \<times> int) db" where
  "document_totals E has_reader =
     io_seq (io_when (\<not> has_reader) (connect_reader E))
     (io_bind (db_query E db_totals) (\<lambda>row. case row of
        None \<Rightarrow> io_raise DbTypeError
      | Some t \<Rightarrow> io_seq (db_assert (tot_documents t \<ge> 0 \<and> tot_size t \<ge> 0)) (io_return (tot_documents t, tot_size t))))"

definition get_document :: "db_env \<Rightarrow> string \<Rightarrow> document option db" where
  "get_document E h =
     io_seq (db_assert (length h = 40))
     (io_seq (connect_reader E)
     (io_bind (db_query E (find_row h)) (\<lambda>row. case row of
        None \<Rightarrow> io_return None
      | Some r \<Rightarrow> io_seq (db_assert (tr_info_hash r = h)) (io_return (Some
          \<lparr>dc_info_hash = tr_info_hash r, dc_name = tr_name r, dc_size = tr_size r, dc_file_count = tr_file_count r,
           dc_piece_length = tr_piece_length r, dc_is_private = (tr_is_private r \<noteq> 0), dc_fetched_at = tr_fetched_at r,
           dc_seen_count = tr_seen_count r, dc_announce_count = tr_announce_count r, dc_first_seen = tr_first_seen r,
           dc_last_seen = tr_last_seen r, dc_files = de_loads E (tr_files_json r)\<rparr>)))))"

definition document_detail_record :: "document \<Rightarrow> detail_record" where
  "document_detail_record doc =
     \<lparr>dr_info_hash = dc_info_hash doc, dr_seen_count = dc_seen_count doc, dr_announce_count = dc_announce_count doc,
      dr_first_seen = dc_first_seen doc, dr_last_seen = dc_last_seen doc, dr_fetch_state = FETCH_DONE, dr_fetch_attempts = 0,
      dr_last_error = '''', dr_lookups_started = 0, dr_peers = [],
      dr_metadata = Some \<lparr>dm_name = dc_name doc, dm_size = dc_size doc, dm_piece_length = dc_piece_length doc,
        dm_file_count = dc_file_count doc, dm_files = map (\<lambda>(path, n). \<lparr>tf_path = path, tf_length = n\<rparr>) (dc_files doc),
        dm_is_private = dc_is_private doc, dm_fetched_at = dc_fetched_at doc, dm_source_peer = None\<rparr>\<rparr>"

section \<open>Queries as text\<close>

definition RANK_ORDER :: string where "RANK_ORDER = ''t.seen_count DESC, t.last_seen DESC''"

fun sort_column :: "sort_field \<Rightarrow> string" where
  "sort_column SortName = ''name''"
| "sort_column SortSize = ''size''"
| "sort_column SortFileCount = ''file_count''"
| "sort_column SortSeenCount = ''seen_count''"
| "sort_column SortAnnounceCount = ''announce_count''"
| "sort_column SortLastSeen = ''last_seen''"

definition SORT_EXPRESSIONS :: "sort_field \<Rightarrow> string" where
  "SORT_EXPRESSIONS sort_by = (if sort_by = SortName then ''name COLLATE NOCASE'' else sort_column sort_by)"

text \<open>\<open>sep.join(parts)\<close> for a separator of any length.\<close>

fun join_parts :: "'a list \<Rightarrow> 'a list list \<Rightarrow> 'a list" where
  "join_parts sep [] = []"
| "join_parts sep [part] = part"
| "join_parts sep (part # parts) = part @ sep @ join_parts sep parts"

definition order_clause :: "sort_field option \<Rightarrow> bool \<Rightarrow> string" where
  "order_clause sort_by descending =
     (case sort_by of
        None \<Rightarrow> RANK_ORDER
      | Some f \<Rightarrow>
          let direction = (if descending then ''DESC'' else ''ASC'');
              expressions = SORT_EXPRESSIONS f # filter (\<lambda>c. c \<noteq> sort_column f) [''seen_count'', ''last_seen'']
          in join_parts '', '' (map (\<lambda>e. ''t.'' @ e @ '' '' @ direction) expressions))"

text \<open>\<open>match_expression\<close>, on code points: quotes are 34, parentheses 40 and 41, the star 42.\<close>

definition ustring :: "string \<Rightarrow> ustr" where
  "ustring cs = map of_char cs"

definition quoted :: "ustr \<Rightarrow> ustr" where
  "quoted t = 34 # t @ [34]"

definition match_group :: "ustr list \<Rightarrow> ustr list list option \<Rightarrow> nat \<Rightarrow> ustr" where
  "match_group terms alternatives position =
     40 # join_parts (ustring '' OR '')
       ((quoted (terms ! position) @ (if position = length terms - 1 then [42] else []))
        # map quoted (case alternatives of None \<Rightarrow> [] | Some alts \<Rightarrow> alts ! position)) @ [41]"

definition match_expression :: "ustr list \<Rightarrow> ustr list list option \<Rightarrow> db_error + ustr" where
  "match_expression terms alternatives =
     (if \<not> (terms \<noteq> [] \<and> (\<forall>alts. alternatives = Some alts \<longrightarrow> length alts = length terms)) then Inl DbAssertion
      else let result = join_parts (ustring '' AND '') (map (match_group terms alternatives) [0..<length terms])
           in if count_list result 40 = length terms then Inr result else Inl DbAssertion)"

end
