(* ===== verification/Database_Properties.thy ===== *)
theory Database_Properties
  imports Torrent_Database
begin

text \<open>
  What \<open>torrent_database.py\<close> guarantees: the statements of a transaction work on one view of the
  file (\<open>inside\<close>), which the transaction publishes or drops as a whole.
\<close>

section \<open>Inside a transaction\<close>

definition inside :: "'a db \<Rightarrow> (database \<Rightarrow> 'a \<Rightarrow> database \<Rightarrow> bool) \<Rightarrow> bool" where
  "inside body R \<longleftrightarrow> (\<forall>s d. ds_open s = Some d \<and> ds_writer s \<longrightarrow>
     ds_main (snd (body s)) = ds_main s \<and> ds_writer (snd (body s))
     \<and> (\<exists>d'. ds_open (snd (body s)) = Some d' \<and> (\<forall>x. fst (body s) = Inr x \<longrightarrow> R d x d')))"

lemma insideD:
  assumes "inside body R" "ds_open s = Some d" "ds_writer s" "body s = (res, s')"
  shows "ds_main s' = ds_main s" "ds_writer s'" "\<exists>d'. ds_open s' = Some d' \<and> (\<forall>x. res = Inr x \<longrightarrow> R d x d')"
  using assms unfolding inside_def by (metis fst_conv snd_conv)+

lemma inside_execute: "(\<And>d. R d (fst (f d)) (snd (f d))) \<Longrightarrow> inside (execute E f) R"
  by (auto simp: inside_def execute_def Let_def)

lemma inside_return: "(\<And>d. R d x d) \<Longrightarrow> inside (io_return x) R"
  by (auto simp: inside_def io_return_def)

lemma inside_raise: "inside (io_raise e) R"
  by (auto simp: inside_def io_raise_def)

lemma inside_bind:
  assumes "inside m R" "\<And>x. inside (f x) (S x)" "\<And>d x d' y d''. R d x d' \<Longrightarrow> S x d' y d'' \<Longrightarrow> T d y d''"
  shows "inside (io_bind m f) T"
  unfolding inside_def
proof (intro allI impI)
  fix s :: db_state and d assume s: "ds_open s = Some d \<and> ds_writer s"
  obtain r s1 where m: "m s = (r, s1)" by fastforce
  obtain d1 where one: "ds_main s1 = ds_main s" "ds_writer s1" "ds_open s1 = Some d1" "\<And>x. r = Inr x \<Longrightarrow> R d x d1"
    using insideD[OF assms(1) _ _ m] s by blast
  show "ds_main (snd (io_bind m f s)) = ds_main s \<and> ds_writer (snd (io_bind m f s))
     \<and> (\<exists>d'. ds_open (snd (io_bind m f s)) = Some d' \<and> (\<forall>x. fst (io_bind m f s) = Inr x \<longrightarrow> T d x d'))"
  proof (cases r)
    case (Inl e)
    then show ?thesis using m one by (simp add: io_bind_def)
  next
    case (Inr x)
    obtain q s2 where f: "f x s1 = (q, s2)" by fastforce
    then obtain d2 where "ds_main s2 = ds_main s1" "ds_writer s2" "ds_open s2 = Some d2" "\<And>y. q = Inr y \<Longrightarrow> S x d1 y d2"
      using insideD[OF assms(2) one(3,2) f] by blast
    then show ?thesis using m f one Inr assms(3) by (simp add: io_bind_def)
  qed
qed

lemma inside_seq:
  "inside m (\<lambda>d x d'. R d d') \<Longrightarrow> inside n S \<Longrightarrow> (\<And>d d' y d''. R d d' \<Longrightarrow> S d' y d'' \<Longrightarrow> T d y d'') \<Longrightarrow> inside (io_seq m n) T"
  unfolding io_seq_def by (rule inside_bind[where R = "\<lambda>d x d'. R d d'" and S = "\<lambda>_. S"]) auto

lemma inside_weaken: "inside m R \<Longrightarrow> (\<And>d x d'. R d x d' \<Longrightarrow> S d x d') \<Longrightarrow> inside m S"
  unfolding inside_def by metis

text \<open>A transaction publishes what its body made of the file, or nothing.\<close>

lemma transaction_result:
  assumes "inside body R" "ds_writer s" "ds_open s = None" "transaction E body s = (res, s')"
  shows "ds_writer s'" "res = Inl e \<Longrightarrow> ds_main s' = ds_main s" "res = Inr x \<Longrightarrow> ds_open s' = None \<and> R (ds_main s) x (ds_main s')"
proof -
  let ?s1 = "s\<lparr>ds_calls := ds_calls s + 1, ds_open := Some (ds_main s)\<rparr>"
  obtain r s2 where b: "body ?s1 = (r, s2)" by fastforce
  obtain d2 where two: "ds_main s2 = ds_main s" "ds_writer s2" "ds_open s2 = Some d2" "\<And>x. r = Inr x \<Longrightarrow> R (ds_main s) x d2"
    using insideD[OF assms(1) _ _ b] assms(2) by fastforce
  have "ds_writer s' \<and> (\<forall>e. res = Inl e \<longrightarrow> ds_main s' = ds_main s) \<and> (\<forall>x. res = Inr x \<longrightarrow> ds_open s' = None \<and> R (ds_main s) x (ds_main s'))"
    using assms(2-4) b two
    by (auto simp: transaction_def Let_def split: if_splits sum.splits)
  then show "ds_writer s'" "res = Inl e \<Longrightarrow> ds_main s' = ds_main s" "res = Inr x \<Longrightarrow> ds_open s' = None \<and> R (ds_main s) x (ds_main s')"
    by blast+
qed

section \<open>The tables\<close>

text \<open>
  Every torrent once, under an id of its own, and a totals row that counts them and their sizes.
\<close>

definition db_ok :: "database \<Rightarrow> bool" where
  "db_ok d \<longleftrightarrow> distinct (map tr_info_hash (db_torrents d)) \<and> distinct (map tr_id (db_torrents d))
     \<and> (\<exists>t. db_totals d = Some t \<and> tot_documents t = int (length (db_torrents d)) \<and> tot_size t = (\<Sum>r \<leftarrow> db_torrents d. tr_size r)
          \<and> (\<forall>r \<in> set (db_torrents d). tr_id r \<le> tot_last_id t))"

definition seen_of :: "database \<Rightarrow> string \<Rightarrow> int" where
  "seen_of d h = (\<Sum>r \<leftarrow> db_torrents d. if tr_info_hash r = h then tr_seen_count r else 0)"

definition announces_of :: "database \<Rightarrow> string \<Rightarrow> int" where
  "announces_of d h = (\<Sum>r \<leftarrow> db_torrents d. if tr_info_hash r = h then tr_announce_count r else 0)"

definition counters_of :: "torrent_row \<Rightarrow> counters" where
  "counters_of r = (tr_seen_count r, tr_announce_count r, tr_first_seen r)"

lemma sum_update_one:
  "distinct (map key xs) \<Longrightarrow> r \<in> set xs \<Longrightarrow>
     (\<Sum>x \<leftarrow> xs. g (if key x = key r then f x else x)) = (\<Sum>x \<leftarrow> xs. g x) + g (f r) - (g r :: int)"
proof (induction xs)
  case (Cons y ys)
  show ?case
  proof (cases "y = r")
    case True
    then have "key x \<noteq> key r" if "x \<in> set ys" for x using Cons.prems(1) that by (auto simp: rev_image_eqI)
    then have "map (\<lambda>x. g (if key x = key r then f x else x)) ys = map g ys" by simp
    then have "(\<Sum>x \<leftarrow> ys. g (if key x = key r then f x else x)) = (\<Sum>x \<leftarrow> ys. g x)" by (rule arg_cong)
    then show ?thesis using True by simp
  next
    case False
    then have "r \<in> set ys" using Cons.prems by simp
    moreover have "key y \<noteq> key r" using Cons.prems False by (auto simp: image_iff)
    ultimately show ?thesis using Cons by simp
  qed
qed simp

lemma find_row_None: "find_row h d = None \<longleftrightarrow> h \<notin> tr_info_hash ` set (db_torrents d)"
  by (auto simp: find_row_def find_None_iff)

lemma find_row_Some: "find_row h d = Some r \<Longrightarrow> r \<in> set (db_torrents d) \<and> tr_info_hash r = h"
  by (auto simp: find_row_def find_Some_iff)

lemma find_row_update:
  "(\<And>r. r \<in> set (db_torrents d) \<Longrightarrow> c r \<Longrightarrow> tr_info_hash r \<noteq> h) \<Longrightarrow> (\<And>r. tr_info_hash (f r) = tr_info_hash r) \<Longrightarrow>
     find_row h (update_rows c f d) = find_row h d"
proof -
  have "(\<And>r. r \<in> set rs \<Longrightarrow> c r \<Longrightarrow> tr_info_hash r \<noteq> h) \<Longrightarrow> (\<And>r. tr_info_hash (f r) = tr_info_hash r) \<Longrightarrow>
     find (\<lambda>r. tr_info_hash r = h) (map (\<lambda>r. if c r then f r else r) rs) = find (\<lambda>r. tr_info_hash r = h) rs" for rs
    by (induction rs) auto
  then show "(\<And>r. r \<in> set (db_torrents d) \<Longrightarrow> c r \<Longrightarrow> tr_info_hash r \<noteq> h) \<Longrightarrow> (\<And>r. tr_info_hash (f r) = tr_info_hash r) \<Longrightarrow>
     find_row h (update_rows c f d) = find_row h d" by (simp add: find_row_def update_rows_def)
qed

lemma db_ok_update:
  assumes "\<And>r. tr_info_hash (f r) = tr_info_hash r" "\<And>r. tr_id (f r) = tr_id r" "\<And>r. tr_size (f r) = tr_size r"
  shows "db_ok (update_rows c f d) = db_ok d"
proof -
  let ?rows = "map (\<lambda>r. if c r then f r else r) (db_torrents d)"
  have "map tr_info_hash ?rows = map tr_info_hash (db_torrents d)" "map tr_id ?rows = map tr_id (db_torrents d)"
    "map tr_size ?rows = map tr_size (db_torrents d)" using assms by auto
  moreover have "(\<forall>r \<in> set ?rows. tr_id r \<le> n) = (\<forall>r \<in> set (db_torrents d). tr_id r \<le> n)" for n
    using assms(2) by (simp only: set_map ball_simps image_iff) metis
  moreover have "db_torrents (update_rows c f d) = ?rows" "db_totals (update_rows c f d) = db_totals d"
    by (simp_all add: update_rows_def)
  ultimately show ?thesis by (simp only: db_ok_def length_map)
qed

lemma seen_update:
  assumes "distinct (map key (db_torrents d))" "r \<in> set (db_torrents d)" "\<And>r. tr_info_hash (f r) = tr_info_hash r"
    "tr_seen_count (f r) = tr_seen_count r + ds" "tr_announce_count (f r) = tr_announce_count r + da"
  shows "seen_of (update_rows (\<lambda>x. key x = key r) f d) h = seen_of d h + (if tr_info_hash r = h then ds else 0)"
    "announces_of (update_rows (\<lambda>x. key x = key r) f d) h = announces_of d h + (if tr_info_hash r = h then da else 0)"
  using sum_update_one[OF assms(1,2), of "\<lambda>x. if tr_info_hash x = h then tr_seen_count x else 0" f]
    sum_update_one[OF assms(1,2), of "\<lambda>x. if tr_info_hash x = h then tr_announce_count x else 0" f] assms(3-5)
  by (auto simp: seen_of_def announces_of_def update_rows_def o_def)

section \<open>Inserting\<close>

lemma inside_writing:
  "inside (f True) T \<Longrightarrow> inside (io_bind (io_get (\<lambda>s. ds_writer s \<and> ds_open s \<noteq> None)) f) T"
  by (auto simp: inside_def io_bind_def io_get_def)

lemma inside_assert: "inside m T \<Longrightarrow> inside (io_seq (db_assert c) m) T"
  by (auto simp: inside_def io_seq_def io_bind_def io_assert_def io_return_def io_raise_def)

definition inserted :: "db_env \<Rightarrow> document \<Rightarrow> database \<Rightarrow> database \<Rightarrow> bool" where
  "inserted E doc d d' \<longleftrightarrow> db_torrents d' = db_torrents d @ [document_row E (next_id d) doc]
     \<and> db_totals d' = map_option (\<lambda>t. \<lparr>tot_documents = tot_documents t + 1, tot_size = tot_size t + dc_size doc,
         tot_last_id = max (tot_last_id t) (next_id d)\<rparr>) (db_totals d)"

lemma insert_document_inside: "inside (insert_document E doc) (\<lambda>d _ d'. inserted E doc d d')"
  unfolding insert_document_def Let_def
proof (intro inside_writing inside_assert, rule inside_bind[where R = "\<lambda>d i d'. i = next_id d \<and> d' = d\<lparr>db_torrents := db_torrents d @ [document_row E (next_id d) doc]\<rparr>"
      and S = "\<lambda>i d _ d'. db_torrents d' = db_torrents d \<and> db_totals d' = map_option (\<lambda>t. \<lparr>tot_documents = tot_documents t + 1,
         tot_size = tot_size t + dc_size doc, tot_last_id = max (tot_last_id t) i\<rparr>) (db_totals d)"], goal_cases)
  case (2 i)
  let ?same = "\<lambda>d d'. db_torrents d' = db_torrents d \<and> db_totals d' = db_totals d"
  let ?counted = "\<lambda>d _ d'. db_torrents d' = db_torrents d \<and> db_totals d' = map_option (\<lambda>t. \<lparr>tot_documents = tot_documents t + 1,
         tot_size = tot_size t + dc_size doc, tot_last_id = max (tot_last_id t) i\<rparr>) (db_totals d)"
  have last: "inside (execute E (\<lambda>d. ((), d\<lparr>db_totals := map_option (\<lambda>t. \<lparr>tot_documents = tot_documents t + 1,
      tot_size = tot_size t + dc_size doc, tot_last_id = max (tot_last_id t) i\<rparr>) (db_totals d)\<rparr>))) ?counted"
    by (rule inside_execute) simp
  have rows: "inside (execute E (\<lambda>d. ((), d\<lparr>db_terms := g d\<rparr>))) (\<lambda>d _ d'. ?same d d')" "inside (execute E (\<lambda>d. ((), d\<lparr>db_fts := h d\<rparr>))) (\<lambda>d _ d'. ?same d d')"
    for g h by (rule inside_execute, simp)+
  show ?case
    by (rule inside_seq[OF rows(2), where S = ?counted])
      (auto intro!: inside_raise inside_seq[OF rows(1) last] split: sum.split term_error.split)
qed (auto intro: inside_execute simp: inserted_def)

lemma next_id_fresh: "r \<in> set (db_torrents d) \<Longrightarrow> tr_id r < next_id d"
  by (simp add: next_id_def less_Suc_eq_le)

lemma find_snoc: "\<not> P x \<Longrightarrow> find P (xs @ [x]) = find P xs"
  by (induction xs) auto

lemma inserted_ok:
  assumes "inserted E doc d d'" "db_ok d" "find_row (dc_info_hash doc) d = None"
  shows "db_ok d'" "seen_of d' h = seen_of d h + (if dc_info_hash doc = h then dc_seen_count doc else 0)"
    "announces_of d' h = announces_of d h + (if dc_info_hash doc = h then dc_announce_count doc else 0)"
    "h \<noteq> dc_info_hash doc \<Longrightarrow> find_row h d' = find_row h d"
proof -
  have t: "db_torrents d' = db_torrents d @ [document_row E (next_id d) doc]" using assms(1) by (simp add: inserted_def)
  have "next_id d \<notin> tr_id ` set (db_torrents d)" using next_id_fresh[of _ d] by force
  moreover have "dc_info_hash doc \<notin> tr_info_hash ` set (db_torrents d)" using assms(3) by (simp add: find_row_None)
  ultimately show "db_ok d'" using assms(1,2) by (auto simp: db_ok_def inserted_def document_row_def le_max_iff_disj)
  show "seen_of d' h = seen_of d h + (if dc_info_hash doc = h then dc_seen_count doc else 0)"
    "announces_of d' h = announces_of d h + (if dc_info_hash doc = h then dc_announce_count doc else 0)"
    by (simp_all add: seen_of_def announces_of_def t document_row_def)
  show "find_row h d' = find_row h d" if "h \<noteq> dc_info_hash doc"
    unfolding find_row_def t by (rule find_snoc) (use that in \<open>simp add: document_row_def\<close>)
qed

section \<open>Writing documents\<close>

text \<open>The total of a field over the documents of a hash.\<close>

definition doc_total :: "(document \<Rightarrow> int) \<Rightarrow> document list \<Rightarrow> string \<Rightarrow> int" where
  "doc_total f docs h = (\<Sum>doc \<leftarrow> docs. if dc_info_hash doc = h then f doc else 0)"

lemma doc_total_simps [simp]: "doc_total f [] h = 0"
  "doc_total f (doc # docs) h = (if dc_info_hash doc = h then f doc else 0) + doc_total f docs h"
  by (simp_all add: doc_total_def)

definition documents_added :: "document list \<Rightarrow> (string \<times> counters) list \<Rightarrow> database \<Rightarrow> (string \<times> counters) list \<Rightarrow> database \<Rightarrow> bool" where
  "documents_added docs previous d result d' \<longleftrightarrow> length result \<le> length previous + length docs \<and> (db_ok d \<longrightarrow> db_ok d'
     \<and> (\<forall>h. seen_of d' h = seen_of d h + doc_total dc_seen_count docs h \<and> announces_of d' h = announces_of d h + doc_total dc_announce_count docs h)
     \<and> (\<forall>h. h \<notin> dc_info_hash ` set docs \<longrightarrow> find_row h d' = find_row h d \<and> map_of result h = map_of previous h)
     \<and> (\<forall>h \<in> dc_info_hash ` set docs. find_row h d' \<noteq> None)
     \<and> (distinct (map dc_info_hash docs) \<longrightarrow> (\<forall>h \<in> dc_info_hash ` set docs. map_of result h =
          (case find_row h d of Some r \<Rightarrow> Some (counters_of r) | None \<Rightarrow> map_of previous h))))"

text \<open>One document of the loop, whether its torrent was there or not.\<close>

definition document_added :: "document \<Rightarrow> database \<Rightarrow> database \<Rightarrow> bool" where
  "document_added doc d d' \<longleftrightarrow> (db_ok d \<longrightarrow> db_ok d'
     \<and> (\<forall>h. seen_of d' h = seen_of d h + (if dc_info_hash doc = h then dc_seen_count doc else 0))
     \<and> (\<forall>h. announces_of d' h = announces_of d h + (if dc_info_hash doc = h then dc_announce_count doc else 0))
     \<and> (\<forall>h. h \<noteq> dc_info_hash doc \<longrightarrow> find_row h d' = find_row h d) \<and> find_row (dc_info_hash doc) d' \<noteq> None)"

lemma document_added_insert:
  assumes "inserted E doc d d'" "find_row (dc_info_hash doc) d = None"
  shows "document_added doc d d'"
proof -
  have "dc_info_hash doc \<in> tr_info_hash ` set (db_torrents d')" using assms(1) by (simp add: inserted_def document_row_def)
  then have "find_row (dc_info_hash doc) d' \<noteq> None" by (simp add: find_row_None)
  then show ?thesis using inserted_ok[OF assms(1) _ assms(2)] unfolding document_added_def by blast
qed

lemma document_added_update:
  assumes "find_row (dc_info_hash doc) d = Some r" "\<And>x. tr_info_hash (f x) = tr_info_hash x" "\<And>x. tr_id (f x) = tr_id x" "\<And>x. tr_size (f x) = tr_size x"
    "\<And>x. tr_seen_count (f x) = tr_seen_count x + dc_seen_count doc" "\<And>x. tr_announce_count (f x) = tr_announce_count x + dc_announce_count doc"
  shows "document_added doc d (update_rows (\<lambda>x. tr_id x = tr_id r) f d)"
  unfolding document_added_def
proof (intro impI conjI allI)
  let ?d' = "update_rows (\<lambda>x. tr_id x = tr_id r) f d"
  assume ok: "db_ok d"
  have r: "r \<in> set (db_torrents d)" "tr_info_hash r = dc_info_hash doc" using find_row_Some[OF assms(1)] by simp_all
  have ids: "distinct (map tr_id (db_torrents d))" using ok by (simp add: db_ok_def)
  show "db_ok ?d'" using ok db_ok_update[OF assms(2-4)] by simp
  show "seen_of ?d' h = seen_of d h + (if dc_info_hash doc = h then dc_seen_count doc else 0)"
    "announces_of ?d' h = announces_of d h + (if dc_info_hash doc = h then dc_announce_count doc else 0)" for h
    using seen_update[OF ids r(1) assms(2,5,6)] r(2) by simp_all
  have only: "x = r" if "x \<in> set (db_torrents d)" "tr_id x = tr_id r" for x using ids r(1) that by (auto simp: distinct_map inj_on_def)
  show "find_row h ?d' = find_row h d" if "h \<noteq> dc_info_hash doc" for h
    by (rule find_row_update[OF _ assms(2)]) (use only r(2) that in auto)
  have "dc_info_hash doc \<in> tr_info_hash ` set (db_torrents ?d')"
  proof -
    have "f r \<in> set (db_torrents ?d')" using r(1) by (force simp: update_rows_def)
    then show ?thesis using r(2) assms(2) by (metis image_eqI)
  qed
  then show "find_row (dc_info_hash doc) ?d' \<noteq> None" by (simp add: find_row_None)
qed

lemma documents_added_step:
  assumes one: "document_added doc d d1" and rest: "documents_added docs prev1 d1 result d'"
    and prev: "prev1 = (case find_row (dc_info_hash doc) d of None \<Rightarrow> previous
        | Some r \<Rightarrow> AList.update (dc_info_hash doc) (counters_of r) previous)"
  shows "documents_added (doc # docs) previous d result d'"
  unfolding documents_added_def
proof (intro conjI impI allI ballI)
  let ?h = "dc_info_hash doc" and ?hs = "dc_info_hash ` set docs"
  have len: "length prev1 \<le> length previous + 1"
  proof (cases "find_row ?h d")
    case (Some r)
    have "length (AList.update ?h (counters_of r) previous) \<le> length previous + 1" by (induction previous) auto
    with Some prev show ?thesis by simp
  qed (simp add: prev)
  then show "length result \<le> length previous + length (doc # docs)" using rest by (simp add: documents_added_def)
  have map: "map_of prev1 h = (if h = ?h \<and> find_row ?h d \<noteq> None then Some (counters_of (the (find_row ?h d))) else map_of previous h)" for h
    by (auto simp: prev update_conv' split: option.split)
  assume ok: "db_ok d"
  then have one': "db_ok d1" "\<And>h. seen_of d1 h = seen_of d h + (if ?h = h then dc_seen_count doc else 0)"
    "\<And>h. announces_of d1 h = announces_of d h + (if ?h = h then dc_announce_count doc else 0)"
    "\<And>h. h \<noteq> ?h \<Longrightarrow> find_row h d1 = find_row h d" "find_row ?h d1 \<noteq> None"
    using one by (simp_all add: document_added_def)
  with rest have rest': "db_ok d'" "\<And>h. seen_of d' h = seen_of d1 h + doc_total dc_seen_count docs h"
    "\<And>h. announces_of d' h = announces_of d1 h + doc_total dc_announce_count docs h"
    "\<And>h. h \<notin> ?hs \<Longrightarrow> find_row h d' = find_row h d1 \<and> map_of result h = map_of prev1 h" "\<And>h. h \<in> ?hs \<Longrightarrow> find_row h d' \<noteq> None"
    "\<And>h. distinct (map dc_info_hash docs) \<Longrightarrow> h \<in> ?hs \<Longrightarrow> map_of result h =
        (case find_row h d1 of Some r \<Rightarrow> Some (counters_of r) | None \<Rightarrow> map_of prev1 h)"
    unfolding documents_added_def by blast+
  show "db_ok d'" "seen_of d' h = seen_of d h + doc_total dc_seen_count (doc # docs) h"
    "announces_of d' h = announces_of d h + doc_total dc_announce_count (doc # docs) h" for h
    using rest'(1-3) one'(2,3) by simp_all
  show "find_row h d' = find_row h d" "map_of result h = map_of previous h" if "h \<notin> dc_info_hash ` set (doc # docs)" for h
    using that rest'(4)[of h] one'(4)[of h] map[of h] by simp_all
  show "find_row h d' \<noteq> None" if "h \<in> dc_info_hash ` set (doc # docs)" for h
    using that rest'(4)[of h] rest'(5)[of h] one'(5) by (cases "h \<in> ?hs") auto
  show "map_of result h = (case find_row h d of Some r \<Rightarrow> Some (counters_of r) | None \<Rightarrow> map_of previous h)"
    if dist: "distinct (map dc_info_hash (doc # docs))" and h: "h \<in> dc_info_hash ` set (doc # docs)" for h
  proof (cases "h \<in> ?hs")
    case True
    moreover have "?h \<notin> ?hs" using dist by simp
    ultimately have "h \<noteq> ?h" by metis
    then show ?thesis using rest'(6)[OF _ True] dist one'(4)[of h] map[of h] by (simp split: option.split)
  next
    case False
    then have "h = ?h" using h by simp
    then show ?thesis using rest'(4)[OF False] map[of h] by (cases "find_row ?h d") auto
  qed
qed

lemma write_loop_inside: "inside (write_loop E docs previous) (documents_added docs previous)"
proof (induction docs arbitrary: previous)
  case Nil
  show ?case by (auto intro!: inside_return simp: documents_added_def)
next
  case (Cons doc docs)
  let ?h = "dc_info_hash doc"
  let ?f = "\<lambda>x. x\<lparr>tr_seen_count := tr_seen_count x + dc_seen_count doc, tr_announce_count := tr_announce_count x + dc_announce_count doc,
                  tr_first_seen := min (tr_first_seen x) (dc_first_seen doc), tr_last_seen := max (tr_last_seen x) (dc_last_seen doc)\<rparr>"
  let ?cont = "\<lambda>row. case row of
         None \<Rightarrow> io_seq (insert_document E doc) (write_loop E docs previous)
       | Some r \<Rightarrow> io_seq (execute E (\<lambda>d. ((), update_rows (\<lambda>x. tr_id x = tr_id r) ?f d)))
             (write_loop E docs (AList.update ?h (counters_of r) previous))"
  have step: "inside (?cont row) (\<lambda>d result d'. find_row ?h d = row \<longrightarrow> documents_added (doc # docs) previous d result d')" for row
  proof (cases row)
    case None
    show ?thesis unfolding None option.case
      by (rule inside_seq[OF insert_document_inside Cons]) (auto intro: documents_added_step document_added_insert)
  next
    case (Some r)
    have "inside (execute E (\<lambda>d. ((), update_rows (\<lambda>x. tr_id x = tr_id r) ?f d))) (\<lambda>d _ d'. find_row ?h d = Some r \<longrightarrow> document_added doc d d')"
      by (rule inside_execute) (auto intro: document_added_update)
    then show ?thesis unfolding Some option.case
      by (rule inside_seq[OF _ Cons]) (auto intro: documents_added_step)
  qed
  have "inside (io_bind (execute E (\<lambda>d. (find_row ?h d, d))) ?cont) (documents_added (doc # docs) previous)"
    by (rule inside_bind[where R = "\<lambda>d row d'. row = find_row ?h d \<and> d' = d", OF inside_execute step]) auto
  then show ?case by (simp only: write_loop.simps counters_of_def)
qed

section \<open>Updating counters\<close>

definition update_total :: "(counter_update \<Rightarrow> int) \<Rightarrow> counter_update list \<Rightarrow> string \<Rightarrow> int" where
  "update_total f us h = (\<Sum>u \<leftarrow> us. if cu_info_hash u = h then f u else 0)"

lemma update_total_simps [simp]: "update_total f [] h = 0"
  "update_total f (u # us) h = (if cu_info_hash u = h then f u else 0) + update_total f us h"
  by (simp_all add: update_total_def)

definition has_row :: "string \<Rightarrow> database \<Rightarrow> bool" where
  "has_row h d \<longleftrightarrow> h \<in> tr_info_hash ` set (db_torrents d)"

definition counters_added :: "counter_update list \<Rightarrow> string list \<Rightarrow> database \<Rightarrow> string list \<Rightarrow> database \<Rightarrow> bool" where
  "counters_added us missing d result d' \<longleftrightarrow> length result \<le> length missing + length us \<and> (db_ok d \<longrightarrow> db_ok d'
     \<and> result = missing @ map cu_info_hash (filter (\<lambda>u. \<not> has_row (cu_info_hash u) d) us)
     \<and> (\<forall>h. has_row h d' = has_row h d
          \<and> seen_of d' h = seen_of d h + (if has_row h d then update_total cu_seen_delta us h else 0)
          \<and> announces_of d' h = announces_of d h + (if has_row h d then update_total cu_announce_delta us h else 0)))"

lemma counters_added_step:
  assumes "\<And>x. tr_info_hash (f x) = tr_info_hash x" "\<And>x. tr_id (f x) = tr_id x" "\<And>x. tr_size (f x) = tr_size x"
    "\<And>x. tr_seen_count (f x) = tr_seen_count x + cu_seen_delta u" "\<And>x. tr_announce_count (f x) = tr_announce_count x + cu_announce_delta u"
    and rest: "counters_added us (if length (filter (\<lambda>r. tr_info_hash r = cu_info_hash u) (db_torrents d)) = 0 then missing @ [cu_info_hash u] else missing)
      (update_rows (\<lambda>x. tr_info_hash x = cu_info_hash u) f d) result d'"
  shows "counters_added (u # us) missing d result d'"
  unfolding counters_added_def
proof (intro conjI impI allI)
  let ?h = "cu_info_hash u"
  let ?d1 = "update_rows (\<lambda>x. tr_info_hash x = ?h) f d"
  let ?m1 = "if has_row ?h d then missing else missing @ [?h]"
  have found: "length (filter (\<lambda>r. tr_info_hash r = ?h) (db_torrents d)) = 0 \<longleftrightarrow> \<not> has_row ?h d"
    unfolding has_row_def length_0_conv filter_empty_conv by (metis imageE imageI)
  have rest1: "counters_added us ?m1 ?d1 result d'" using rest unfolding found by (simp split: if_splits)
  then show "length result \<le> length missing + length (u # us)" by (auto simp: counters_added_def split: if_splits)
  have "map tr_info_hash (db_torrents ?d1) = map tr_info_hash (db_torrents d)" using assms(1) by (simp add: update_rows_def)
  then have rows: "has_row h ?d1 = has_row h d" for h unfolding has_row_def by (metis set_map)
  assume ok: "db_ok d"
  then have ok1: "db_ok ?d1" using db_ok_update[OF assms(1-3)] by simp
  have one: "seen_of ?d1 h = seen_of d h + (if has_row h d \<and> ?h = h then cu_seen_delta u else 0)"
    "announces_of ?d1 h = announces_of d h + (if has_row h d \<and> ?h = h then cu_announce_delta u else 0)" for h
  proof (atomize (full), cases "has_row ?h d")
    case True
    then obtain r where r: "r \<in> set (db_torrents d)" "tr_info_hash r = ?h" by (auto simp: has_row_def)
    have "distinct (map tr_info_hash (db_torrents d))" using ok by (simp add: db_ok_def)
    from seen_update[OF this r(1) assms(1,4,5)] True r(2)
    show "seen_of ?d1 h = seen_of d h + (if has_row h d \<and> ?h = h then cu_seen_delta u else 0) \<and>
      announces_of ?d1 h = announces_of d h + (if has_row h d \<and> ?h = h then cu_announce_delta u else 0)" by auto
  next
    case False
    then have "tr_info_hash x \<noteq> ?h" if "x \<in> set (db_torrents d)" for x using that unfolding has_row_def by (metis imageI)
    then have "map (\<lambda>x. if tr_info_hash x = ?h then f x else x) (db_torrents d) = db_torrents d" by (intro map_idI) simp
    then have "?d1 = d" by (simp add: update_rows_def)
    then show "seen_of ?d1 h = seen_of d h + (if has_row h d \<and> ?h = h then cu_seen_delta u else 0) \<and>
      announces_of ?d1 h = announces_of d h + (if has_row h d \<and> ?h = h then cu_announce_delta u else 0)" using False by auto
  qed
  from rest1 ok1 have rest2: "db_ok d'" "result = ?m1 @ map cu_info_hash (filter (\<lambda>u. \<not> has_row (cu_info_hash u) ?d1) us)"
    "\<And>h. has_row h d' = has_row h ?d1"
    "\<And>h. seen_of d' h = seen_of ?d1 h + (if has_row h ?d1 then update_total cu_seen_delta us h else 0)"
    "\<And>h. announces_of d' h = announces_of ?d1 h + (if has_row h ?d1 then update_total cu_announce_delta us h else 0)"
    unfolding counters_added_def by blast+
  show "db_ok d'" by (rule rest2(1))
  show "result = missing @ map cu_info_hash (filter (\<lambda>u. \<not> has_row (cu_info_hash u) d) (u # us))" using rest2(2) by (simp add: rows)
  show "has_row h d' = has_row h d" for h using rest2(3) rows by simp
  show "seen_of d' h = seen_of d h + (if has_row h d then update_total cu_seen_delta (u # us) h else 0)"
    "announces_of d' h = announces_of d h + (if has_row h d then update_total cu_announce_delta (u # us) h else 0)" for h
    using rest2(4,5) one rows by auto
qed

lemma update_loop_inside: "inside (update_loop E us missing) (counters_added us missing)"
proof (induction us arbitrary: missing)
  case Nil
  show ?case by (auto intro!: inside_return simp: counters_added_def)
next
  case (Cons u us)
  let ?c = "\<lambda>x. tr_info_hash x = cu_info_hash u"
  let ?f = "\<lambda>x. x\<lparr>tr_seen_count := tr_seen_count x + cu_seen_delta u, tr_announce_count := tr_announce_count x + cu_announce_delta u,
             tr_last_seen := max (tr_last_seen x) (cu_last_seen u)\<rparr>"
  show ?case unfolding update_loop.simps
    by (rule inside_bind[where R = "\<lambda>d n d'. n = length (filter ?c (db_torrents d)) \<and> d' = update_rows ?c ?f d", OF inside_execute Cons])
      (auto intro: counters_added_step[of ?f])
qed

section \<open>What a write does\<close>

lemma write_documents_result:
  assumes "ds_open s = None" "ds_writer s" "write_documents E docs s = (res, s')"
  shows "ds_writer s'" "res = Inl e \<Longrightarrow> ds_main s' = ds_main s"
    "res = Inr previous \<Longrightarrow> ds_open s' = None \<and> documents_added docs [] (ds_main s) previous (ds_main s')"
proof -
  obtain r s1 where t: "transaction E (write_loop E docs []) s = (r, s1)" by fastforce
  note facts = transaction_result[OF write_loop_inside assms(2,1) t]
  have "res = Inl DbAssertion \<and> s' = s \<or> (res, s') = (r, s1)"
    using assms(2,3) t facts(3)
    by (auto simp: write_documents_def io_bind_def io_get_def io_seq_def io_assert_def io_return_def io_raise_def documents_added_def
      split: if_splits sum.splits)
  then show "ds_writer s'" "res = Inl e \<Longrightarrow> ds_main s' = ds_main s"
    "res = Inr previous \<Longrightarrow> ds_open s' = None \<and> documents_added docs [] (ds_main s) previous (ds_main s')"
    using facts assms(2) by auto
qed

lemma update_counters_result:
  assumes "ds_open s = None" "ds_writer s" "update_counters E us s = (res, s')"
  shows "ds_writer s'" "res = Inl e \<Longrightarrow> ds_main s' = ds_main s"
    "res = Inr missing \<Longrightarrow> ds_open s' = None \<and> counters_added us [] (ds_main s) missing (ds_main s')"
proof -
  obtain r s1 where t: "transaction E (update_loop E us []) s = (r, s1)" by fastforce
  note facts = transaction_result[OF update_loop_inside assms(2,1) t]
  have "(res, s') = (r, s1)"
    using assms(2,3) t facts(3)
    by (auto simp: update_counters_def io_bind_def io_get_def io_seq_def io_assert_def io_return_def io_raise_def counters_added_def
      split: if_splits sum.splits)
  then show "ds_writer s'" "res = Inl e \<Longrightarrow> ds_main s' = ds_main s"
    "res = Inr missing \<Longrightarrow> ds_open s' = None \<and> counters_added us [] (ds_main s) missing (ds_main s')"
    using facts by auto
qed


definition quiet_db :: db_env where
  "quiet_db = \<lparr>de_fails = (\<lambda>_. False), de_stays_open = (\<lambda>_. False), de_unicode = plain_unicode, de_dumps = (\<lambda>_. []), de_loads = (\<lambda>_. [])\<rparr>"

definition empty_database :: database where
  "empty_database = \<lparr>db_version = 1, db_objects = True, db_torrents = [], db_fts = [], db_terms = [],
     db_totals = Some \<lparr>tot_documents = 0, tot_size = 0, tot_last_id = 0\<rparr>\<rparr>"

definition empty_state :: db_state where
  "empty_state = \<lparr>ds_main = empty_database, ds_writer = True, ds_open = None, ds_calls = 0\<rparr>"

definition example_document :: document where
  "example_document = \<lparr>dc_info_hash = replicate 40 CHR ''a'', dc_name = [], dc_size = 7, dc_file_count = 1, dc_piece_length = 1,
     dc_is_private = False, dc_fetched_at = 0, dc_seen_count = 5, dc_announce_count = 2, dc_first_seen = 0, dc_last_seen = 1, dc_files = []\<rparr>"

lemma empty_database_ok: "db_ok empty_database"
  by (simp add: db_ok_def empty_database_def)


section \<open>The totals\<close>



section \<open>A commit that stays open\<close>

text \<open>
  \<open>transaction\<close> rolls back when its body raises, not when its \<open>COMMIT\<close> does. A commit that
  raises and leaves the transaction open makes every later write fail its own assertion.
\<close>

lemma failed_commit_blocks_writes:
  assumes "write_documents E docs s = (Inl DbError, s1)" "ds_open s1 \<noteq> None"
  shows "fst (write_documents E' docs' s1) = Inl DbAssertion" "fst (update_counters E' us s1) = Inl DbAssertion"
  using assms(2)
  by (auto simp: write_documents_def update_counters_def transaction_def io_bind_def io_get_def io_seq_def io_assert_def io_return_def io_raise_def)

lemma failed_commit_happens:
  "\<exists>s1. write_documents (quiet_db\<lparr>de_fails := (\<lambda>n. n = 1), de_stays_open := (\<lambda>_. True)\<rparr>) [] empty_state = (Inl DbError, s1) \<and> ds_open s1 \<noteq> None"
  by (simp add: write_documents_def transaction_def io_bind_def io_seq_def io_get_def io_assert_def io_return_def quiet_db_def empty_state_def Let_def)

end
