(* ===== verification/Search_Indexer.thy ===== *)
theory Search_Indexer
  imports Database_Properties Catalog_Properties
begin

text \<open>
  \<open>search_indexer.py\<close>: the index thread, which copies the torrents with metadata and their
  counters from the catalog to the database, asks the database about new hashes, and backs off
  after an error. The state is the thread's own fields with the catalog and the database; the
  other threads' work between its calls is not part of this model (the catalog theories treat it).
  Every method that raises does so with \<open>sqlite3.Error\<close> or with another exception, the two
  kinds the code tells apart. Main results: \<open>Indexer_Properties\<close>.
\<close>

definition CHECK_FAIL_OPEN_SECONDS :: real where "CHECK_FAIL_OPEN_SECONDS = 60"
definition CHECK_BATCH_SIZE :: nat where "CHECK_BATCH_SIZE = 500"
definition MAX_CHECK_BATCHES :: nat where "MAX_CHECK_BATCHES = 20"

datatype index_error = IndexSqlite | IndexOther

section \<open>Documents and updates\<close>

definition build_document :: "index_snapshot \<Rightarrow> index_error + document" where
  "build_document snapshot =
     (case is_metadata snapshot of
        None \<Rightarrow> Inl IndexOther
      | Some (_, md) \<Rightarrow>
          let result = \<lparr>dc_info_hash = hex_text (is_info_hash snapshot), dc_name = md_name md, dc_size = min (md_total_size md) MAX_SQLITE_INTEGER,
                dc_file_count = md_file_count md, dc_piece_length = min (md_piece_length md) MAX_SQLITE_INTEGER, dc_is_private = md_is_private md,
                dc_fetched_at = md_fetched_at md, dc_seen_count = is_seen_delta snapshot, dc_announce_count = is_announce_delta snapshot,
                dc_first_seen = is_first_seen snapshot, dc_last_seen = is_last_seen snapshot,
                dc_files = map (\<lambda>f. (tf_path f, tf_length f)) (md_files md)\<rparr>
          in if dc_seen_count result \<ge> 0 then Inr result else Inl IndexOther)"

definition build_counter_update :: "index_snapshot \<Rightarrow> index_error + counter_update" where
  "build_counter_update snapshot =
     (if is_base snapshot = None then Inl IndexOther
      else let result = \<lparr>cu_info_hash = hex_text (is_info_hash snapshot), cu_seen_delta = is_seen_delta snapshot,
                cu_announce_delta = is_announce_delta snapshot, cu_last_seen = is_last_seen snapshot\<rparr>
           in if cu_seen_delta result \<ge> 0 then Inr result else Inl IndexOther)"

text \<open>A list comprehension whose element may raise.\<close>

fun build_all :: "('a \<Rightarrow> 'e + 'b) \<Rightarrow> 'a list \<Rightarrow> 'e + 'b list" where
  "build_all f [] = Inr []"
| "build_all f (x # xs) =
     (case f x of Inl e \<Rightarrow> Inl e | Inr y \<Rightarrow> (case build_all f xs of Inl e \<Rightarrow> Inl e | Inr ys \<Rightarrow> Inr (y # ys)))"

definition hex_value :: "char \<Rightarrow> nat" where
  "hex_value c = (let n = of_char c in if n < 58 then n - 48 else n - 87)"

text \<open>\<open>bytes.fromhex\<close> on the texts \<open>bytes.hex\<close> writes.\<close>

fun from_hex :: "string \<Rightarrow> bytes" where
  "from_hex (a # b # cs) = of_nat (hex_value a * 16 + hex_value b) # from_hex cs"
| "from_hex _ = []"

definition NO_BASE :: index_base where "NO_BASE = (0, 0, None)"

definition base_of :: "counters \<Rightarrow> index_base" where
  "base_of c = (case c of (seen, announces, first) \<Rightarrow> (seen, announces, Some first))"

section \<open>The thread\<close>

record indexer =
  ix_catalog :: catalog
  ix_database :: db_state
  ix_reader :: bool
  ix_documents :: "int option"
  ix_total_size :: int
  ix_upserts :: nat
  ix_updates :: int
  ix_errors :: nat
  ix_checked :: nat
  ix_known :: nat
  ix_failing_since :: "real option"
  ix_bypassed :: bool
  ix_backoff :: real
  ix_next_checks :: real
  ix_next_documents :: real
  ix_next_counters :: real
  ix_next_count :: real
  ix_wake_at :: real
  ix_calls :: nat

record indexer_env =
  ie_db :: db_env
  ie_clock :: "nat \<Rightarrow> real"
  ie_document_seconds :: real
  ie_counter_seconds :: real
  ie_count_seconds :: real
  ie_check_seconds :: real
  ie_backoff_start :: real
  ie_backoff_max :: real
  ie_batch_size :: nat
  ie_final_flush_seconds :: real

type_synonym 'a index = "(index_error, indexer, 'a) fallible"

abbreviation index_assert :: "bool \<Rightarrow> unit index" where
  "index_assert c \<equiv> io_assert c IndexOther"

definition index_clock :: "indexer_env \<Rightarrow> real index" where
  "index_clock E s = (Inr (ie_clock E (ix_calls s)), s\<lparr>ix_calls := ix_calls s + 1\<rparr>)"

definition on_db :: "'a db \<Rightarrow> 'a index" where
  "on_db m s =
     (let r = m (ix_database s)
      in (case fst r of Inl e \<Rightarrow> Inl (if e = DbError \<or> e = DbSchemaMismatch then IndexSqlite else IndexOther) | Inr x \<Rightarrow> Inr x,
          s\<lparr>ix_database := snd r\<rparr>))"

definition with_catalog :: "(catalog \<Rightarrow> 'a \<times> catalog) \<Rightarrow> 'a index" where
  "with_catalog f s = (Inr (fst (f (ix_catalog s))), s\<lparr>ix_catalog := snd (f (ix_catalog s))\<rparr>)"

definition lift_index :: "index_error + 'a \<Rightarrow> 'a index" where
  "lift_index r = (case r of Inl e \<Rightarrow> io_raise e | Inr x \<Rightarrow> io_return x)"

text \<open>\<open>try: m\<close> with an \<open>except\<close> clause.\<close>

definition io_catch :: "('e, 's, 'a) fallible \<Rightarrow> ('e \<Rightarrow> ('e, 's, 'a) fallible) \<Rightarrow> ('e, 's, 'a) fallible" where
  "io_catch m handler s = (case m s of (Inl e, s1) \<Rightarrow> handler e s1 | (Inr x, s1) \<Rightarrow> (Inr x, s1))"

definition new_indexer :: "indexer_env \<Rightarrow> catalog \<Rightarrow> db_state \<Rightarrow> index_error + indexer" where
  "new_indexer E c d =
     (if ie_document_seconds E > 0 \<and> ie_counter_seconds E > 0 \<and> ie_count_seconds E > 0 \<and> ie_check_seconds E > 0
         \<and> 0 < ie_backoff_start E \<and> ie_backoff_start E \<le> ie_backoff_max E \<and> ie_batch_size E \<ge> 1
      then Inr \<lparr>ix_catalog = c, ix_database = d, ix_reader = False, ix_documents = None, ix_total_size = 0, ix_upserts = 0,
        ix_updates = 0, ix_errors = 0, ix_checked = 0, ix_known = 0, ix_failing_since = None, ix_bypassed = False, ix_backoff = 0,
        ix_next_checks = 0, ix_next_documents = 0, ix_next_counters = 0, ix_next_count = 0, ix_wake_at = 0, ix_calls = 0\<rparr>
      else Inl IndexOther)"

definition thread_reader :: "indexer_env \<Rightarrow> unit index" where
  "thread_reader E = io_bind (io_get ix_reader) (\<lambda>reader.
     io_when (\<not> reader) (io_seq (on_db (connect_reader (ie_db E))) (io_update (\<lambda>s. s\<lparr>ix_reader := True\<rparr>))))"

definition close_reader :: "unit index" where
  "close_reader = io_update (\<lambda>s. s\<lparr>ix_reader := False\<rparr>)"

definition record_error :: "unit index" where
  "record_error = io_update (\<lambda>s. s\<lparr>ix_errors := ix_errors s + 1\<rparr>)"

text \<open>The condition of the flush loops: \<open>deadline is None or self.clock() < deadline\<close>.\<close>

definition before_deadline :: "indexer_env \<Rightarrow> real option \<Rightarrow> bool index" where
  "before_deadline E deadline =
     (case deadline of None \<Rightarrow> io_return True | Some t \<Rightarrow> io_bind (index_clock E) (\<lambda>now. io_return (now < t)))"

text \<open>
  \<open>flush_documents\<close>. Every pass of its loop shortens the queue, so the loop is a recursion on a
  bound of the queue's length.
\<close>

definition write_batch :: "indexer_env \<Rightarrow> index_snapshot list \<Rightarrow> unit index" where
  "write_batch E batch =
     io_bind (io_catch
        (io_bind (lift_index (build_all build_document batch)) (\<lambda>docs.
         io_bind (on_db (write_documents (ie_db E) docs)) (\<lambda>previous.
         io_return (map (\<lambda>s. case is_base s of Some b \<Rightarrow> b
           | None \<Rightarrow> (case map_of previous (hex_text (is_info_hash s)) of Some c \<Rightarrow> base_of c | None \<Rightarrow> NO_BASE)) batch))))
        (\<lambda>e. if e = IndexSqlite
             then io_seq (with_catalog (\<lambda>c. ((), requeue_index_documents c batch))) (io_raise e) else io_raise e)) (\<lambda>bases.
     io_seq (with_catalog (\<lambda>c. ((), foldl (\<lambda>c (s, b). mark_index_written c s b) c (zip batch bases))))
       (io_update (\<lambda>s. s\<lparr>ix_upserts := ix_upserts s + length batch\<rparr>)))"

fun flush_documents_loop :: "indexer_env \<Rightarrow> real option \<Rightarrow> nat \<Rightarrow> unit index" where
  "flush_documents_loop E deadline 0 = io_raise IndexOther"
| "flush_documents_loop E deadline (Suc n) =
     io_bind (before_deadline E deadline) (\<lambda>go.
       if \<not> go then index_assert (deadline \<noteq> None)
       else io_bind (with_catalog (\<lambda>c. drain_index_documents c (ie_batch_size E))) (\<lambda>batch.
         if batch = [] then io_return ()
         else io_seq (write_batch E batch) (flush_documents_loop E deadline n)))"

definition flush_documents :: "indexer_env \<Rightarrow> real option \<Rightarrow> unit index" where
  "flush_documents E deadline = io_bind (io_get (\<lambda>s. length (c_index_documents (ix_catalog s)))) (\<lambda>n.
     flush_documents_loop E deadline (Suc n))"

definition write_counters :: "indexer_env \<Rightarrow> index_snapshot list \<Rightarrow> unit index" where
  "write_counters E batch =
     io_bind (io_catch
        (io_bind (lift_index (build_all build_counter_update batch)) (\<lambda>updates. on_db (update_counters (ie_db E) updates)))
        (\<lambda>e. if e = IndexSqlite
             then io_seq (with_catalog (\<lambda>c. ((), requeue_index_counters c batch))) (io_raise e) else io_raise e)) (\<lambda>missing.
     io_seq (with_catalog (\<lambda>c. ((), mark_counters_written c (filter (\<lambda>s. hex_text (is_info_hash s) \<notin> set missing) batch))))
     (io_seq (with_catalog (\<lambda>c. ((), foldl (\<lambda>c h. reset_index_base c (from_hex h)) c missing)))
       (io_update (\<lambda>s. s\<lparr>ix_updates := ix_updates s + (int (length batch) - int (length missing))\<rparr>))))"

fun flush_counters_loop :: "indexer_env \<Rightarrow> real option \<Rightarrow> nat \<Rightarrow> unit index" where
  "flush_counters_loop E deadline 0 = io_raise IndexOther"
| "flush_counters_loop E deadline (Suc n) =
     io_bind (before_deadline E deadline) (\<lambda>go.
       if \<not> go then index_assert (deadline \<noteq> None)
       else io_bind (with_catalog (\<lambda>c. drain_index_counters c (ie_batch_size E))) (\<lambda>batch.
         if batch = [] then io_return ()
         else io_seq (write_counters E batch) (flush_counters_loop E deadline n)))"

definition flush_counters :: "indexer_env \<Rightarrow> real option \<Rightarrow> unit index" where
  "flush_counters E deadline =
     io_bind (io_get (\<lambda>s. length (c_index_counters (ix_catalog s)) + length (c_orphan_counters (ix_catalog s)))) (\<lambda>n.
     flush_counters_loop E deadline (Suc n))"

fun check_batches :: "indexer_env \<Rightarrow> nat \<Rightarrow> unit index" where
  "check_batches E 0 = io_return ()"
| "check_batches E (Suc n) =
     io_bind (io_get (\<lambda>s. pending_database_checks (ix_catalog s) CHECK_BATCH_SIZE)) (\<lambda>hashes.
       if hashes = [] then io_return ()
       else io_seq (thread_reader E)
         (io_bind (on_db (lookup_counters (ie_db E) (map hex_text hashes) True)) (\<lambda>found.
          io_seq (with_catalog (\<lambda>c. ((), apply_database_checks c hashes (\<lambda>h. map_option base_of (map_of found (hex_text h))))))
          (io_seq (io_update (\<lambda>s. s\<lparr>ix_checked := ix_checked s + length hashes, ix_known := ix_known s + length found\<rparr>))
            (check_batches E n)))))"

definition flush_checks :: "indexer_env \<Rightarrow> unit index" where
  "flush_checks E =
     io_seq (io_catch
        (io_bind (io_get ix_bypassed) (\<lambda>bypassed.
         io_seq (io_when bypassed
            (io_seq (thread_reader E)
            (io_seq (on_db (document_totals (ie_db E) True))
            (io_seq (with_catalog (\<lambda>c. ((), set_database_check c True)))
              (io_update (\<lambda>s. s\<lparr>ix_bypassed := False\<rparr>))))))
           (check_batches E MAX_CHECK_BATCHES)))
        (\<lambda>e. io_bind (index_clock E) (\<lambda>now.
             io_bind (io_get (\<lambda>s. (ix_failing_since s, ix_bypassed s))) (\<lambda>(since, bypassed).
             io_seq (case since of
                 None \<Rightarrow> io_update (\<lambda>s. s\<lparr>ix_failing_since := Some now\<rparr>)
               | Some t \<Rightarrow> io_when (\<not> bypassed \<and> now - t \<ge> CHECK_FAIL_OPEN_SECONDS)
                   (io_seq (with_catalog (\<lambda>c. ((), set_database_check c False))) (io_update (\<lambda>s. s\<lparr>ix_bypassed := True\<rparr>))))
               (io_raise e)))))
     (io_seq (io_update (\<lambda>s. s\<lparr>ix_failing_since := None\<rparr>))
     (io_bind (io_get ix_bypassed) (\<lambda>bypassed. index_assert (\<not> bypassed))))"

definition refresh_count :: "indexer_env \<Rightarrow> bool \<Rightarrow> unit index" where
  "refresh_count E in_thread =
     io_seq (io_when in_thread (thread_reader E))
     (io_bind (on_db (document_totals (ie_db E) in_thread)) (\<lambda>(n, size).
      io_seq (io_update (\<lambda>s. s\<lparr>ix_documents := Some n, ix_total_size := size\<rparr>)) (index_assert (n \<ge> 0))))"

definition run_due_work :: "indexer_env \<Rightarrow> unit index" where
  "run_due_work E =
     io_bind (index_clock E) (\<lambda>now.
     io_seq (io_catch
        (io_seq (io_bind (io_get ix_next_checks) (\<lambda>t. io_when (now \<ge> t)
            (io_seq (flush_checks E) (io_update (\<lambda>s. s\<lparr>ix_next_checks := now + ie_check_seconds E\<rparr>)))))
        (io_seq (io_bind (io_get ix_next_documents) (\<lambda>t. io_when (now \<ge> t)
            (io_seq (flush_documents E None) (io_update (\<lambda>s. s\<lparr>ix_next_documents := now + ie_document_seconds E\<rparr>)))))
        (io_seq (io_bind (io_get ix_next_counters) (\<lambda>t. io_when (now \<ge> t)
            (io_seq (flush_counters E None) (io_update (\<lambda>s. s\<lparr>ix_next_counters := now + ie_counter_seconds E\<rparr>)))))
        (io_seq (io_bind (io_get ix_next_count) (\<lambda>t. io_when (now \<ge> t)
            (io_seq (refresh_count E True) (io_update (\<lambda>s. s\<lparr>ix_next_count := now + ie_count_seconds E\<rparr>)))))
        (io_update (\<lambda>s. s\<lparr>ix_backoff := 0,
            ix_wake_at := min (min (ix_next_checks s) (ix_next_documents s)) (min (ix_next_counters s) (ix_next_count s))\<rparr>))))))
        (\<lambda>e. io_seq record_error (io_seq close_reader (io_update (\<lambda>s.
             let b = (if ix_backoff s = 0 then ie_backoff_start E else min (2 * ix_backoff s) (ie_backoff_max E))
             in s\<lparr>ix_backoff := b, ix_wake_at := now + b\<rparr>)))))
     (io_bind (io_get (\<lambda>s. ix_wake_at s \<ge> now \<or> ix_backoff s = 0)) index_assert))"

definition final_flush :: "indexer_env \<Rightarrow> unit index" where
  "final_flush E =
     io_bind (index_clock E) (\<lambda>now.
     let deadline = Some (now + ie_final_flush_seconds E)
     in io_catch (io_seq (flush_documents E deadline) (flush_counters E deadline)) (\<lambda>e. record_error))"

text \<open>\<open>start\<close> up to the thread, and the thread's loop for \<open>n\<close> rounds, after which it is stopped.\<close>

definition start_indexer :: "indexer_env \<Rightarrow> unit index" where
  "start_indexer E =
     io_seq (io_catch (refresh_count E False) (\<lambda>e. if e = IndexSqlite then record_error else io_raise e))
     (io_bind (index_clock E) (\<lambda>now.
      io_update (\<lambda>s. s\<lparr>ix_next_checks := now, ix_next_documents := now, ix_next_counters := now + ie_counter_seconds E,
        ix_next_count := now + ie_count_seconds E\<rparr>)))"

primrec indexer_rounds :: "indexer_env \<Rightarrow> nat \<Rightarrow> unit index" where
  "indexer_rounds E 0 = io_return ()"
| "indexer_rounds E (Suc n) =
     io_bind (index_clock E) (\<lambda>now.
     io_bind (io_get ix_wake_at) (\<lambda>wake_at.
     io_seq (io_when (now \<ge> wake_at) (run_due_work E))
     (io_seq (index_clock E) (indexer_rounds E n))))"

definition indexer_run :: "indexer_env \<Rightarrow> nat \<Rightarrow> unit index" where
  "indexer_run E n = io_seq (indexer_rounds E n) (io_seq (final_flush E) close_reader)"

record index_counts =
  xc_upserts :: nat
  xc_updates :: int
  xc_errors :: nat
  xc_backlog :: nat
  xc_dropped :: nat
  xc_checked :: nat
  xc_known :: nat
  xc_bypassed :: bool
  xc_documents :: "(int \<times> int) option"

definition index_snapshot_counts :: "indexer \<Rightarrow> index_counts" where
  "index_snapshot_counts s =
     (let (documents, counters, dropped) = index_backlog (ix_catalog s)
      in \<lparr>xc_upserts = ix_upserts s, xc_updates = ix_updates s, xc_errors = ix_errors s, xc_backlog = documents + counters,
          xc_dropped = dropped, xc_checked = ix_checked s, xc_known = ix_known s, xc_bypassed = ix_bypassed s,
          xc_documents = map_option (\<lambda>n. (n, ix_total_size s)) (ix_documents s)\<rparr>)"

end
