(* ===== verification/Indexer_Ledger.thy ===== *)
theory Indexer_Ledger
  imports Search_Indexer
begin

text \<open>
  The books of the index thread: what the catalog counts as written for a hash (\<open>flushed_seen\<close>)
  against what the database holds, and that every flush of documents and counters keeps the
  difference, whatever statement fails.
\<close>

section \<open>Hexadecimal\<close>

lemma hex_value_digit: "n < 16 \<Longrightarrow> hex_value (hex_digit n) = n"
proof -
  assume "n < 16"
  moreover have "list_all (\<lambda>n. hex_value (hex_digit n) = n) [0..<16]" by code_simp
  ultimately show ?thesis by (simp add: list_all_iff)
qed

lemma from_hex_text: "from_hex (hex_text h) = h"
proof (induction h)
  case (Cons b h)
  have "unat b < 256" by (rule unat_byte)
  then have "unat b div 16 < 16" "unat b mod 16 < 16" by auto
  then have "hex_value (hex_digit (unat b div 16)) * 16 + hex_value (hex_digit (unat b mod 16)) = unat b"
    by (simp only: hex_value_digit) simp
  then have "of_nat (hex_value (hex_digit (unat b div 16)) * 16 + hex_value (hex_digit (unat b mod 16))) = b" by simp
  with Cons show ?case by (simp add: hex_text_def)
qed (simp add: hex_text_def)

lemma hex_text_inj [simp]: "hex_text g = hex_text h \<longleftrightarrow> g = h"
  by (metis from_hex_text)

section \<open>What the catalog counts as written\<close>

definition tracked :: "catalog \<Rightarrow> bool" where
  "tracked c \<longleftrightarrow> finite {r. te_flushed_seen (c_heap c r) \<noteq> 0}"

definition flushed_seen :: "catalog \<Rightarrow> bytes \<Rightarrow> int" where
  "flushed_seen c h = (\<Sum>r | te_flushed_seen (c_heap c r) \<noteq> 0. if te_info_hash (c_heap c r) = h then int (te_flushed_seen (c_heap c r)) else 0)"

text \<open>Operations that leave the written counters alone.\<close>

definition still :: "catalog \<Rightarrow> catalog \<Rightarrow> bool" where
  "still c c' \<longleftrightarrow> (\<forall>r. te_info_hash (c_heap c' r) = te_info_hash (c_heap c r) \<and> te_flushed_seen (c_heap c' r) = te_flushed_seen (c_heap c r))"

lemma still_flushed: "still c c' \<Longrightarrow> flushed_seen c' h = flushed_seen c h \<and> tracked c' = tracked c"
  by (auto simp: still_def flushed_seen_def tracked_def intro!: sum.cong)

lemma still_refl [simp]: "still c c" by (simp add: still_def)

lemma still_trans: "still c c1 \<Longrightarrow> still c1 c2 \<Longrightarrow> still c c2" by (simp add: still_def)

lemma still_foldl: "(\<And>c x. still c (f c x)) \<Longrightarrow> still c (foldl f c xs)"
  by (induction xs arbitrary: c) (auto intro: still_trans)

lemma still_state: "still c (set_state_locked c r st)" and still_index: "still c (index_entry_locked c r)"
  by (simp_all add: still_def)

lemma still_drop: "still c (drop_unwritten_metadata_locked c r)"
  by (simp add: still_def drop_unwritten_metadata_locked_def Let_def)

lemma still_queue: "still c (queue_document_locked c r)"
proof -
  have "still c' (drop_unwritten_metadata_locked c' r')" for c' r' by (rule still_drop)
  then show ?thesis by (simp add: queue_document_locked_def Let_def still_def)
qed

lemma still_drain_documents: "still c (snd (drain_index_documents c n))" and still_requeue_documents: "still c (requeue_index_documents c ss)"
  by (simp_all add: still_def drain_index_documents_def requeue_index_documents_def)

lemma still_requeue_counters: "still c (requeue_index_counters c ss)"
  unfolding requeue_index_counters_def
  by (rule still_foldl) (simp add: still_def requeue_index_counter_def add_orphan_locked_def Let_def)

lemma still_drain_loop: "still c (snd (drain_counters c limit result))"
proof (induction c limit result rule: drain_counters.induct)
  case (1 c limit result)
  show ?case
  proof (cases "c_index_counters c")
    case Nil
    then show ?thesis by (subst drain_counters.simps) simp
  next
    case (Cons p counters)
    obtain h r where p: "p = (h, r)" by (cases p)
    have "still (c\<lparr>c_index_counters := counters\<rparr>) (queue_document_locked (c\<lparr>c_index_counters := counters\<rparr>) r)"
      by (rule still_queue)
    with "1.IH"[OF Cons p[symmetric]] Cons p show ?thesis
      by (subst drain_counters.simps) (simp add: Let_def still_def)
  qed
qed

lemma still_drain_counters: "still c (snd (drain_index_counters c limit))"
  using still_drain_loop[of "c\<lparr>c_orphan_counters := _\<rparr>" limit]
  by (simp add: drain_index_counters_def still_def split_beta)

text \<open>A snapshot of an entry: its hash is the entry's.\<close>

definition faithful :: "catalog \<Rightarrow> index_snapshot \<Rightarrow> bool" where
  "faithful c s \<longleftrightarrow> is_info_hash s = te_info_hash (c_heap c (is_entry s))"

lemma still_faithful: "still c c' \<Longrightarrow> faithful c' s = faithful c s"
  by (simp add: still_def faithful_def)

lemma snapshot_faithful [simp]: "faithful c (index_snapshot_of c r)"
  by (simp add: faithful_def index_snapshot_of_def Let_def)

lemma drain_documents_faithful: "\<forall>s \<in> set (fst (drain_index_documents c limit)). faithful c s"
  by (auto simp: drain_index_documents_def)

lemma drain_loop_faithful:
  "\<forall>s \<in> set result. faithful c s \<Longrightarrow> \<forall>s \<in> set (fst (drain_counters c limit result)). faithful c s"
proof (induction c limit result rule: drain_counters.induct)
  case (1 c limit result)
  show ?case
  proof (cases "c_index_counters c")
    case Nil
    then show ?thesis using "1.prems" by (subst drain_counters.simps) simp
  next
    case (Cons p counters)
    obtain h r where p: "p = (h, r)" by (cases p)
    let ?c1 = "c\<lparr>c_index_counters := counters\<rparr>"
    have same: "faithful ?c1 s = faithful c s" "faithful (queue_document_locked ?c1 r) s = faithful c s" for s
      using still_faithful[OF still_queue[of ?c1 r]] by (simp_all add: faithful_def)
    have result: "\<forall>s \<in> set result. faithful ?c1 s" "\<forall>s \<in> set (result @ [index_snapshot_of ?c1 r]). faithful ?c1 s"
      using "1.prems" same(1) snapshot_faithful[of ?c1 r] by (simp_all del: snapshot_faithful)
    note IH = "1.IH"[OF Cons p[symmetric]]
    let ?e = "c_heap ?c1 r"
    consider "\<not> length result < limit" | "length result < limit" "te_index_base ?e = None"
      | "length result < limit" "te_index_base ?e \<noteq> None" "te_seen_count ?e > te_flushed_seen ?e \<or> te_announce_count ?e > te_flushed_announce ?e"
      | "length result < limit" "te_index_base ?e \<noteq> None" "\<not> (te_seen_count ?e > te_flushed_seen ?e \<or> te_announce_count ?e > te_flushed_announce ?e)"
      by blast
    then show ?thesis
    proof cases
      case 1
      then show ?thesis using Cons p "1.prems" by (subst drain_counters.simps) simp
    next
      case 2
      let ?c2 = "if te_metadata ?e \<noteq> None then queue_document_locked ?c1 r else ?c1"
      have "\<forall>s \<in> set (fst (drain_counters ?c2 limit result)). faithful ?c2 s"
        by (rule IH(1)) (use 2 result(1) same in simp_all)
      moreover have "faithful ?c2 s = faithful c s" for s using same by simp
      moreover have "drain_counters c limit result = drain_counters ?c2 limit result"
        using Cons p 2 by (subst drain_counters.simps) (simp add: Let_def)
      ultimately show ?thesis by metis
    next
      case 3
      have "\<forall>s \<in> set (fst (drain_counters ?c1 limit (result @ [index_snapshot_of ?c1 r]))). faithful ?c1 s"
        by (rule IH(2)) (use 3 result(2) in simp_all)
      moreover have "drain_counters c limit result = drain_counters ?c1 limit (result @ [index_snapshot_of ?c1 r])"
        using Cons p 3 by (subst drain_counters.simps) (auto simp: Let_def)
      ultimately show ?thesis using same by metis
    next
      case 4
      have "\<forall>s \<in> set (fst (drain_counters ?c1 limit result)). faithful ?c1 s"
        by (rule IH(3)) (use 4 result(1) in simp_all)
      moreover have "drain_counters c limit result = drain_counters ?c1 limit result"
        using Cons p 4 by (subst drain_counters.simps) (auto simp: Let_def)
      ultimately show ?thesis using same by metis
    qed
  qed
qed

lemma drain_orphans_faithful:
  "\<forall>s \<in> set result. faithful c s \<Longrightarrow> \<forall>s \<in> set (fst (drain_orphans c rs limit result)). faithful c s"
proof (induction c rs limit result rule: drain_orphans.induct)
  case (2 c r rs limit result)
  show ?case
  proof (cases "length result < limit")
    case True
    let ?result = "if is_seen_delta (index_snapshot_of c r) \<noteq> 0 \<or> is_announce_delta (index_snapshot_of c r) \<noteq> 0
      then result @ [index_snapshot_of c r] else result"
    have "\<forall>s \<in> set ?result. faithful c s" using 2(2) by simp
    then have "\<forall>s \<in> set (fst (drain_orphans c rs limit ?result)). faithful c s" using 2(1) True by blast
    then show ?thesis using True by (simp add: Let_def)
  next
    case False
    then show ?thesis using 2(2) by simp
  qed
qed simp

lemma drain_counters_faithful: "\<forall>s \<in> set (fst (drain_index_counters c limit)). faithful c s"
proof -
  obtain result orphans where o: "drain_orphans c (c_orphan_counters c) limit [] = (result, orphans)" by fastforce
  let ?c1 = "c\<lparr>c_orphan_counters := orphans\<rparr>"
  have same: "faithful ?c1 s = faithful c s" for s by (simp add: faithful_def)
  have "\<forall>s \<in> set result. faithful ?c1 s" using drain_orphans_faithful[of "[]" c "c_orphan_counters c" limit] o same by simp
  from drain_loop_faithful[OF this] show ?thesis using o same by (simp add: drain_index_counters_def)
qed

section \<open>Marking as written\<close>

lemma flushed_seen_over:
  assumes "finite R" "{r. te_flushed_seen (c_heap c r) \<noteq> 0} \<subseteq> R"
  shows "flushed_seen c h = (\<Sum>r \<in> R. if te_info_hash (c_heap c r) = h then int (te_flushed_seen (c_heap c r)) else 0)"
  unfolding flushed_seen_def using assms by (intro sum.mono_neutral_left) auto

lemma add_flushed_seen:
  assumes "tracked c" "faithful c s" "0 \<le> is_seen_delta s"
  shows "flushed_seen (add_flushed c s) h = flushed_seen c h + (if is_info_hash s = h then is_seen_delta s else 0)"
    "tracked (add_flushed c s)" "faithful (add_flushed c s) t = faithful c t"
proof -
  let ?r = "is_entry s" and ?R = "insert (is_entry s) {r. te_flushed_seen (c_heap c r) \<noteq> 0}"
  have heap: "te_info_hash (c_heap (add_flushed c s) r) = te_info_hash (c_heap c r)"
    "int (te_flushed_seen (c_heap (add_flushed c s) r)) = int (te_flushed_seen (c_heap c r)) + (if r = ?r then is_seen_delta s else 0)" for r
    using assms(3) by (simp_all add: add_flushed_def)
  have R: "finite ?R" "{r. te_flushed_seen (c_heap c r) \<noteq> 0} \<subseteq> ?R" using assms(1) by (auto simp: tracked_def)
  have R': "{r. te_flushed_seen (c_heap (add_flushed c s) r) \<noteq> 0} \<subseteq> ?R" by (auto simp: add_flushed_def split: if_splits)
  then show "tracked (add_flushed c s)" unfolding tracked_def using R(1) by (rule finite_subset)
  show "faithful (add_flushed c s) t = faithful c t" by (simp add: faithful_def heap)
  have "flushed_seen (add_flushed c s) h = (\<Sum>r \<in> ?R. (if te_info_hash (c_heap c r) = h then int (te_flushed_seen (c_heap c r)) else 0)
      + (if r = ?r then (if is_info_hash s = h then is_seen_delta s else 0) else 0))"
    unfolding flushed_seen_over[OF R(1) R'] heap using assms(2) by (intro sum.cong) (auto simp: faithful_def)
  also have "\<dots> = flushed_seen c h + (if is_info_hash s = h then is_seen_delta s else 0)"
    unfolding sum.distrib flushed_seen_over[OF R] using R(1) by simp
  finally show "flushed_seen (add_flushed c s) h = flushed_seen c h + (if is_info_hash s = h then is_seen_delta s else 0)" .
qed

lemma mark_written_still: "still (add_flushed c s) (mark_index_written c s base)"
  by (simp add: mark_index_written_def Let_def still_def release_metadata_locked_def)

definition delta_total :: "index_snapshot list \<Rightarrow> bytes \<Rightarrow> int" where
  "delta_total ss h = (\<Sum>s \<leftarrow> ss. if is_info_hash s = h then is_seen_delta s else 0)"

lemma marks_flushed:
  assumes "\<And>c s x. still (add_flushed c s) (f c (s, x))"
  shows "tracked c \<Longrightarrow> \<forall>p \<in> set ps. faithful c (fst p) \<and> 0 \<le> is_seen_delta (fst p) \<Longrightarrow>
    tracked (foldl f c ps) \<and> flushed_seen (foldl f c ps) h = flushed_seen c h + delta_total (map fst ps) h"
proof (induction ps arbitrary: c)
  case (Cons p ps)
  obtain s x where p: "p = (s, x)" by (cases p)
  have s: "faithful c s" "0 \<le> is_seen_delta s" using Cons.prems p by auto
  note add = add_flushed_seen[OF Cons.prems(1) s]
  have "tracked (f c p)" "flushed_seen (f c p) h = flushed_seen c h + (if is_info_hash s = h then is_seen_delta s else 0)"
    using still_flushed[OF assms[of c s x]] add(1,2) p by simp_all
  moreover have "\<forall>q \<in> set ps. faithful (f c p) (fst q) \<and> 0 \<le> is_seen_delta (fst q)"
    using Cons.prems(2) still_faithful[OF assms[of c s x]] add(3) p by auto
  ultimately show ?case using Cons.IH[of "f c p"] p by (simp add: delta_total_def)
qed (simp add: delta_total_def)

section \<open>The ledger\<close>

definition index_ok :: "indexer \<Rightarrow> bool" where
  "index_ok s \<longleftrightarrow> cat_ok (ix_catalog s) \<and> tracked (ix_catalog s) \<and> db_ok (ds_main (ix_database s))
     \<and> ds_writer (ix_database s)"

text \<open>Sightings of a hash in the database that the catalog does not count as written.\<close>

definition ledger :: "indexer \<Rightarrow> bytes \<Rightarrow> int" where
  "ledger s h = seen_of (ds_main (ix_database s)) (hex_text h) - flushed_seen (ix_catalog s) h"

definition in_database :: "indexer \<Rightarrow> bytes \<Rightarrow> bool" where
  "in_database s h \<longleftrightarrow> has_row (hex_text h) (ds_main (ix_database s))"

text \<open>
  A command that keeps the ledger, whether it raises or not: of every hash (\<open>all\<close>), or of the
  hashes in the database.
\<close>

definition balanced :: "bool \<Rightarrow> 'a index \<Rightarrow> bool" where
  "balanced all m \<longleftrightarrow> (\<forall>s res s'. index_ok s \<longrightarrow> m s = (res, s') \<longrightarrow>
     (\<forall>h. in_database s h \<longrightarrow> in_database s' h) \<and> (\<forall>h. all \<or> in_database s h \<longrightarrow> ledger s' h = ledger s h)
     \<and> index_ok s')"

lemma balancedI:
  assumes "\<And>s res s'. index_ok s \<Longrightarrow> m s = (res, s') \<Longrightarrow>
     (\<forall>h. in_database s h \<longrightarrow> in_database s' h) \<and> (\<forall>h. all \<or> in_database s h \<longrightarrow> ledger s' h = ledger s h) \<and> index_ok s'"
  shows "balanced all m"
  using assms by (simp add: balanced_def)

lemma balanced_bind:
  assumes "balanced all m" "\<And>x. balanced all (f x)"
  shows "balanced all (io_bind m f)"
proof (rule balancedI)
  fix s res s' assume ok: "index_ok s" and run: "io_bind m f s = (res, s')"
  obtain r s1 where m: "m s = (r, s1)" by fastforce
  note one = assms(1)[unfolded balanced_def, rule_format, OF ok m]
  show "(\<forall>h. in_database s h \<longrightarrow> in_database s' h) \<and> (\<forall>h. all \<or> in_database s h \<longrightarrow> ledger s' h = ledger s h) \<and> index_ok s'"
  proof (cases r)
    case (Inl e)
    then show ?thesis using one m run by (auto simp: io_bind_def)
  next
    case (Inr x)
    then have "f x s1 = (res, s')" using m run by (simp add: io_bind_def)
    from assms(2)[unfolded balanced_def, rule_format, OF _ this] one Inr show ?thesis by auto
  qed
qed

lemma balanced_seq: "balanced all m \<Longrightarrow> balanced all n \<Longrightarrow> balanced all (io_seq m n)"
  unfolding io_seq_def by (rule balanced_bind)

lemma balanced_simple:
  "balanced all (io_return x)" "balanced all (io_raise e)" "balanced all (io_get g)" "balanced all (io_assert c e)" "balanced all (index_clock E)"
  by (auto simp: balanced_def io_return_def io_raise_def io_get_def io_assert_def index_clock_def index_ok_def ledger_def in_database_def)

lemma balanced_update: "(\<And>s. ix_catalog (f s) = ix_catalog s \<and> ix_database (f s) = ix_database s) \<Longrightarrow> balanced all (io_update f)"
  by (auto simp: balanced_def io_update_def index_ok_def ledger_def in_database_def)

lemma balanced_before_deadline: "balanced all (before_deadline E deadline)"
  by (auto simp: before_deadline_def intro!: balanced_bind balanced_simple split: option.split)

section \<open>Documents\<close>

lemma build_all_document:
  "build_all build_document batch = Inr docs \<Longrightarrow> map dc_info_hash docs = map (\<lambda>s. hex_text (is_info_hash s)) batch
     \<and> doc_total dc_seen_count docs (hex_text h) = delta_total batch h
     \<and> (\<forall>s \<in> set batch. 0 \<le> is_seen_delta s \<and> is_metadata s \<noteq> None)"
proof (induction batch arbitrary: docs)
  case (Cons s batch)
  obtain doc rest where d: "build_document s = Inr doc" "build_all build_document batch = Inr rest" "docs = doc # rest"
    using Cons.prems by (auto split: sum.splits)
  then have "dc_info_hash doc = hex_text (is_info_hash s)" "dc_seen_count doc = is_seen_delta s" "0 \<le> is_seen_delta s" "is_metadata s \<noteq> None"
    by (auto simp: build_document_def Let_def split: option.splits prod.splits if_splits)
  with Cons.IH[OF d(2)] d(3) show ?case by (simp add: delta_total_def)
qed (simp add: delta_total_def)

lemma has_row_find: "has_row h d \<longleftrightarrow> find_row h d \<noteq> None"
  by (simp add: has_row_def find_row_None)

lemma documents_added_rows:
  assumes "documents_added docs previous d result d'" "db_ok d" "has_row h d"
  shows "has_row h d'"
proof (cases "h \<in> dc_info_hash ` set docs")
  case True
  then show ?thesis unfolding has_row_find using assms(1,2) unfolding documents_added_def by blast
next
  case False
  then show ?thesis using assms unfolding has_row_find documents_added_def by metis
qed

definition mark_pair :: "catalog \<Rightarrow> index_snapshot \<times> index_base \<Rightarrow> catalog" where
  "mark_pair c p = mark_index_written c (fst p) (snd p)"

lemma mark_pair_eq: "(\<lambda>c (s, b). mark_index_written c s b) = mark_pair"
  by (simp add: fun_eq_iff mark_pair_def)

lemma mark_pair_docs: "length (c_index_documents (foldl mark_pair c ps)) \<le> length (c_index_documents c)"
proof (induction ps arbitrary: c)
  case (Cons p ps)
  have "length (c_index_documents (mark_pair c p)) \<le> length (c_index_documents c)"
    by (simp add: mark_pair_def mark_index_written_def Let_def release_metadata_locked_def add_flushed_def length_delete_le)
  with Cons[of "mark_pair c p"] show ?case by simp
qed simp

lemma mark_pair_steps: "\<forall>p \<in> set ps. is_metadata (fst p) \<noteq> None \<Longrightarrow> cat_ok c \<Longrightarrow> cat_ok (foldl mark_pair c ps)"
proof (induction ps arbitrary: c)
  case (Cons p ps)
  have "cat_ok (mark_pair c p)"
    unfolding mark_pair_def by (rule catalog_step_ok[OF step_mark_index_written]) (use Cons.prems in auto)
  with Cons show ?case by simp
qed simp

lemma write_documents_any:
  assumes "ds_writer s" "write_documents E docs s = (res, s')"
  shows "ds_writer s'" "res = Inl e \<Longrightarrow> ds_main s' = ds_main s"
    "res = Inr previous \<Longrightarrow> documents_added docs [] (ds_main s) previous (ds_main s')"
proof -
  have "(ds_writer s' \<and> (res = Inl e \<longrightarrow> ds_main s' = ds_main s)) \<and> (res = Inr previous \<longrightarrow> documents_added docs [] (ds_main s) previous (ds_main s'))"
  proof (cases "ds_open s")
    case None
    from write_documents_result[OF None assms] show ?thesis by blast
  next
    case (Some d)
    then have "res = Inl DbAssertion \<and> s' = s"
      using assms by (auto simp: write_documents_def transaction_def io_bind_def io_get_def io_seq_def io_assert_def io_return_def io_raise_def split: if_splits)
    then show ?thesis using assms(1) by simp
  qed
  then show "ds_writer s'" "res = Inl e \<Longrightarrow> ds_main s' = ds_main s"
    "res = Inr previous \<Longrightarrow> documents_added docs [] (ds_main s) previous (ds_main s')" by blast+
qed

lemma update_counters_any:
  assumes "ds_writer s" "update_counters E us s = (res, s')"
  shows "ds_writer s'" "res = Inl e \<Longrightarrow> ds_main s' = ds_main s"
    "res = Inr missing \<Longrightarrow> counters_added us [] (ds_main s) missing (ds_main s')"
proof -
  have "(ds_writer s' \<and> (res = Inl e \<longrightarrow> ds_main s' = ds_main s)) \<and> (res = Inr missing \<longrightarrow> counters_added us [] (ds_main s) missing (ds_main s'))"
  proof (cases "ds_open s")
    case None
    from update_counters_result[OF None assms] show ?thesis by blast
  next
    case (Some d)
    then have "res = Inl DbAssertion \<and> s' = s"
      using assms by (auto simp: update_counters_def transaction_def io_bind_def io_get_def io_seq_def io_assert_def io_return_def io_raise_def split: if_splits)
    then show ?thesis using assms(1) by simp
  qed
  then show "ds_writer s'" "res = Inl e \<Longrightarrow> ds_main s' = ds_main s"
    "res = Inr missing \<Longrightarrow> counters_added us [] (ds_main s) missing (ds_main s')" by blast+
qed

lemma write_batch_result:
  assumes ok: "index_ok s" and batch: "\<forall>b \<in> set batch. faithful (ix_catalog s) b \<and> unwritten (ix_catalog s) b" and run: "write_batch E batch s = (res, s')"
  shows "(\<forall>h. in_database s h \<longrightarrow> in_database s' h) \<and> (\<forall>h. ledger s' h = ledger s h) \<and> index_ok s'" "(\<forall>x. res = Inr x
    \<longrightarrow> length (c_index_documents (ix_catalog s')) \<le> length (c_index_documents (ix_catalog s)))"
proof -
  let ?c = "ix_catalog s" and ?d = "ix_database s"
  have failed: "(\<forall>h. in_database s h \<longrightarrow> in_database s' h) \<and> (\<forall>h. ledger s' h = ledger s h) \<and> index_ok s'"
    if "ds_main (ix_database s') = ds_main ?d" "ds_writer (ix_database s')" "ix_catalog s' = ?c \<or> ix_catalog s' = requeue_index_documents ?c batch"
  proof -
    have "still ?c (ix_catalog s')" using that(3) still_requeue_documents[of ?c batch] by auto
    moreover have "cat_ok (requeue_index_documents ?c batch)"
      by (rule catalog_step_ok[OF step_requeue_index_documents]) (use batch ok in \<open>simp_all add: index_ok_def\<close>)
    then have "cat_ok (ix_catalog s')" using that(3) ok by (auto simp: index_ok_def)
    ultimately show ?thesis using that(1,2) ok still_flushed by (simp add: in_database_def ledger_def index_ok_def)
  qed
  have writer: "ds_writer ?d" using ok by (simp add: index_ok_def)
  have "((\<forall>h. in_database s h \<longrightarrow> in_database s' h) \<and> (\<forall>h. ledger s' h = ledger s h) \<and> index_ok s')
    \<and> (\<forall>x. res = Inr x \<longrightarrow> length (c_index_documents (ix_catalog s')) \<le> length (c_index_documents (ix_catalog s)))"
  proof (cases "build_all build_document batch")
    case (Inl e)
    then have out: "res = Inl e" "ds_main (ix_database s') = ds_main ?d" "ds_writer (ix_database s')"
      "ix_catalog s' = ?c \<or> ix_catalog s' = requeue_index_documents ?c batch"
      using run writer by (auto simp: write_batch_def io_bind_def io_catch_def lift_index_def io_raise_def io_seq_def with_catalog_def split: if_splits)
    show ?thesis using failed[OF out(2-4)] out(1) by simp
  next
    case (Inr docs)
    obtain r d' where w: "write_documents (ie_db E) docs ?d = (r, d')" by fastforce
    note written = write_documents_any[OF writer w]
    show ?thesis
    proof (cases r)
      case err: (Inl e)
      then have out: "\<exists>e. res = Inl e" "ds_main (ix_database s') = ds_main ?d" "ds_writer (ix_database s')"
        "ix_catalog s' = ?c \<or> ix_catalog s' = requeue_index_documents ?c batch"
        using run Inr w written(1) written(2)[OF err]
        by (auto simp: write_batch_def io_bind_def io_catch_def lift_index_def io_raise_def io_return_def io_seq_def with_catalog_def on_db_def split: if_splits)
      show ?thesis using failed[OF out(2-4)] out(1) by auto
    next
      case wrote: (Inr previous)
      define bases where "bases = map (\<lambda>s. case is_base s of Some b \<Rightarrow> b
           | None \<Rightarrow> (case map_of previous (hex_text (is_info_hash s)) of Some c \<Rightarrow> base_of c | None \<Rightarrow> NO_BASE)) batch"
      let ?c' = "foldl mark_pair ?c (zip batch bases)"
      have s': "ix_catalog s' = ?c'" "ix_database s' = d'" "res = Inr ()"
        using run Inr w wrote unfolding write_batch_def mark_pair_eq
        by (auto simp: io_bind_def io_catch_def lift_index_def io_return_def io_seq_def with_catalog_def on_db_def io_update_def bases_def)
      have docs: "\<forall>b \<in> set batch. 0 \<le> is_seen_delta b \<and> is_metadata b \<noteq> None" using build_all_document[OF Inr] by blast
      have len: "length bases = length batch" by (simp add: bases_def)
      have added: "documents_added docs [] (ds_main ?d) previous (ds_main d')" using written(3)[OF wrote] .
      have db: "db_ok (ds_main ?d)" using ok by (simp add: index_ok_def)
      have seen: "seen_of (ds_main d') (hex_text h) = seen_of (ds_main ?d) (hex_text h) + delta_total batch h" "db_ok (ds_main d')" for h
        using added db build_all_document[OF Inr, of h] by (simp_all add: documents_added_def)
      have "still (add_flushed c b) (mark_pair c (b, x))" for c b x unfolding mark_pair_def by (simp add: mark_written_still)
      moreover have "\<forall>p \<in> set (zip batch bases). faithful ?c (fst p) \<and> 0 \<le> is_seen_delta (fst p)"
        using batch docs by (auto dest: set_zip_leftD)
      ultimately have "tracked ?c' \<and> flushed_seen ?c' h = flushed_seen ?c h + delta_total (map fst (zip batch bases)) h" for h
        using ok by (intro marks_flushed) (auto simp: index_ok_def)
      then have marked: "tracked ?c'" "flushed_seen ?c' h = flushed_seen ?c h + delta_total batch h" for h using len by simp_all
      have "\<forall>p \<in> set (zip batch bases). is_metadata (fst p) \<noteq> None"
        using docs set_zip_leftD[of _ _ batch bases] by (metis prod.collapse)
      then have "cat_ok ?c'" using ok by (intro mark_pair_steps) (simp_all add: index_ok_def)
      moreover have "length (c_index_documents ?c') \<le> length (c_index_documents ?c)" by (rule mark_pair_docs)
      ultimately show ?thesis
        using s' marked seen documents_added_rows[OF added db] written(1) by (simp add: in_database_def ledger_def index_ok_def)
    qed
  qed
  then show "(\<forall>h. in_database s h \<longrightarrow> in_database s' h) \<and> (\<forall>h. ledger s' h = ledger s h) \<and> index_ok s'" "(\<forall>x. res = Inr x
    \<longrightarrow> length (c_index_documents (ix_catalog s')) \<le> length (c_index_documents (ix_catalog s)))" by blast+
qed

lemma drain_documents_step:
  assumes "index_ok s" "drain_index_documents (ix_catalog s) n = (batch, c)"
  shows "index_ok (s\<lparr>ix_catalog := c\<rparr>)" "ledger (s\<lparr>ix_catalog := c\<rparr>) h = ledger s h" "in_database (s\<lparr>ix_catalog := c\<rparr>) h = in_database s h"
    "\<forall>b \<in> set batch. faithful c b \<and> unwritten c b" "batch \<noteq> [] \<Longrightarrow> length (c_index_documents c) < length (c_index_documents (ix_catalog s))"
proof -
  have c: "c = snd (drain_index_documents (ix_catalog s) n)" "batch = fst (drain_index_documents (ix_catalog s) n)" using assms(2) by simp_all
  have st: "still (ix_catalog s) c" unfolding c by (rule still_drain_documents)
  have "cat_ok c" unfolding c by (rule catalog_step_ok[OF step_drain_index_documents]) (use assms(1) in \<open>simp add: index_ok_def\<close>)
  then show "index_ok (s\<lparr>ix_catalog := c\<rparr>)" using assms(1) still_flushed[OF st] by (simp add: index_ok_def)
  show "ledger (s\<lparr>ix_catalog := c\<rparr>) h = ledger s h" "in_database (s\<lparr>ix_catalog := c\<rparr>) h = in_database s h"
    using still_flushed[OF st] by (simp_all add: ledger_def in_database_def)
  have "unwritten c b" if "b \<in> set batch" for b
  proof -
    have "b \<in> (\<lambda>p. index_snapshot_of (ix_catalog s) (snd p)) ` set (take n (c_index_documents (ix_catalog s)))"
      using that by (simp add: c(2) drain_index_documents_def)
    then obtain p where p: "p \<in> set (c_index_documents (ix_catalog s))" "b = index_snapshot_of (ix_catalog s) (snd p)"
      by (blast dest: in_set_takeD)
    have q: "queues_ok (ix_catalog s)" "od_ok (c_index_documents (ix_catalog s))" using assms(1) by (simp_all add: index_ok_def cat_but_def shape_ok_def)
    then have "map_of (c_index_documents (ix_catalog s)) (fst p) = Some (snd p)" using p(1) by simp
    then have "snd p < c_next_ref (ix_catalog s) \<and> te_metadata (c_heap (ix_catalog s) (snd p)) \<noteq> None" using q(1) unfolding queues_ok_def by blast
    then show ?thesis unfolding c(1) p(2) by (simp add: unwritten_def drain_index_documents_def index_snapshot_of_def Let_def)
  qed
  then show "\<forall>b \<in> set batch. faithful c b \<and> unwritten c b" using drain_documents_faithful[of "ix_catalog s" n] still_faithful[OF st] c(2) by simp
  show "length (c_index_documents c) < length (c_index_documents (ix_catalog s))" if "batch \<noteq> []"
  proof -
    have "0 < n" "c_index_documents (ix_catalog s) \<noteq> []" using that assms(2) by (cases "n = 0"; auto simp: drain_index_documents_def)+
    then have "length (drop n (c_index_documents (ix_catalog s))) < length (c_index_documents (ix_catalog s))"
      unfolding length_drop by (intro diff_less) simp_all
    then show ?thesis unfolding c(1) by (simp add: drain_index_documents_def del: length_drop)
  qed
qed

lemma index_clock_state [simp]:
  "index_ok (s\<lparr>ix_calls := n\<rparr>) = index_ok s" "ledger (s\<lparr>ix_calls := n\<rparr>) h = ledger s h" "in_database (s\<lparr>ix_calls := n\<rparr>) h = in_database s h"
  by (simp_all add: index_ok_def ledger_def in_database_def)

lemma before_deadline_cases: "\<exists>go n. before_deadline E deadline s = (Inr go, s\<lparr>ix_calls := n\<rparr>) \<and> (go \<or> deadline \<noteq> None)"
proof (cases deadline)
  case None
  then show ?thesis by (intro exI[of _ True] exI[of _ "ix_calls s"]) (simp add: before_deadline_def io_return_def)
qed (auto simp: before_deadline_def io_return_def io_bind_def index_clock_def)

lemma flush_documents_loop_balanced:
  "index_ok s \<Longrightarrow> flush_documents_loop E deadline n s = (res, s') \<Longrightarrow>
     (\<forall>h. in_database s h \<longrightarrow> in_database s' h) \<and> (\<forall>h. ledger s' h = ledger s h) \<and> index_ok s'"
proof (induction n arbitrary: s)
  case (Suc n)
  obtain go k where go: "before_deadline E deadline s = (Inr go, s\<lparr>ix_calls := k\<rparr>)" "go \<or> deadline \<noteq> None"
    using before_deadline_cases by blast
  let ?s = "s\<lparr>ix_calls := k\<rparr>"
  obtain batch c where drain: "drain_index_documents (ix_catalog ?s) (ie_batch_size E) = (batch, c)" by fastforce
  have ok: "index_ok ?s" using Suc.prems(1) by simp
  note one = drain_documents_step[OF ok drain]
  consider "\<not> go" "(res, s') = (Inr (), ?s)" | "go" "batch = []" "(res, s') = (Inr (), ?s\<lparr>ix_catalog := c\<rparr>)"
    | r s2 where "go" "batch \<noteq> []" "write_batch E batch (?s\<lparr>ix_catalog := c\<rparr>) = (r, s2)"
      "(res, s') = (case r of Inl e \<Rightarrow> (Inl e, s2) | Inr _ \<Rightarrow> flush_documents_loop E deadline n s2)"
    using Suc.prems(2) go drain
    by (auto simp: io_bind_def io_assert_def io_return_def io_raise_def with_catalog_def io_seq_def split: if_splits sum.splits prod.splits)
  then show ?case
  proof cases
    case 1
    then show ?thesis using Suc.prems(1) by simp
  next
    case 2
    then show ?thesis using one by simp
  next
    case (3 r s2)
    note two = write_batch_result[OF one(1) _ 3(3)]
    have two': "(\<forall>h. in_database s h \<longrightarrow> in_database s2 h) \<and> (\<forall>h. ledger s2 h = ledger s h)" "index_ok s2"
      using two one by simp_all
    show ?thesis
    proof (cases r)
      case (Inl e)
      then show ?thesis using 3 two' by simp
    next
      case (Inr x)
      then have "flush_documents_loop E deadline n s2 = (res, s')" using 3 by simp
      from Suc.IH[OF two'(2) this] two'(1) show ?thesis by auto
    qed
  qed
qed (simp add: io_raise_def)

lemma flush_documents_balanced: "balanced True (flush_documents E deadline)"
proof (rule balancedI)
  fix s res s' assume "index_ok s" "flush_documents E deadline s = (res, s')"
  then show "(\<forall>h. in_database s h \<longrightarrow> in_database s' h) \<and> (\<forall>h. True \<or> in_database s h \<longrightarrow> ledger s' h = ledger s h)
     \<and> index_ok s'"
    unfolding flush_documents_def bind_get using flush_documents_loop_balanced by blast
qed

text \<open>The bound on the passes is never met.\<close>

lemma flush_documents_fuel:
  "index_ok s \<Longrightarrow> length (c_index_documents (ix_catalog s)) < n \<Longrightarrow> length (c_index_documents (ix_catalog s)) < m \<Longrightarrow>
     flush_documents_loop E deadline n s = flush_documents_loop E deadline m s"
proof (induction n arbitrary: m s)
  case (Suc n)
  obtain k where m: "m = Suc k" using Suc.prems(3) by (cases m) auto
  obtain go i where go: "before_deadline E deadline s = (Inr go, s\<lparr>ix_calls := i\<rparr>)"
    using before_deadline_cases by blast
  let ?s = "s\<lparr>ix_calls := i\<rparr>"
  obtain batch c where drain: "drain_index_documents (ix_catalog ?s) (ie_batch_size E) = (batch, c)" by fastforce
  have ok: "index_ok ?s" using Suc.prems(1) by simp
  note one = drain_documents_step[OF ok drain]
  have "io_seq (write_batch E batch) (flush_documents_loop E deadline n) (?s\<lparr>ix_catalog := c\<rparr>)
      = io_seq (write_batch E batch) (flush_documents_loop E deadline k) (?s\<lparr>ix_catalog := c\<rparr>)" if "batch \<noteq> []"
  proof -
    obtain r s2 where w: "write_batch E batch (?s\<lparr>ix_catalog := c\<rparr>) = (r, s2)" by fastforce
    have "flush_documents_loop E deadline n s2 = flush_documents_loop E deadline k s2" if "r = Inr x" for x
      using write_batch_result[OF one(1) _ w] that one(4) one(5)[OF \<open>batch \<noteq> []\<close>] Suc.prems m by (intro Suc.IH) auto
    then show ?thesis using w by (simp add: io_seq_def io_bind_def split: sum.split)
  qed
  then show ?case unfolding m using go drain by (simp add: io_bind_def with_catalog_def)
qed simp

section \<open>Counters\<close>

lemma build_all_update:
  "build_all build_counter_update batch = Inr us \<Longrightarrow> map cu_info_hash us = map (\<lambda>s. hex_text (is_info_hash s)) batch
     \<and> update_total cu_seen_delta us (hex_text h) = delta_total batch h \<and> (\<forall>s \<in> set batch. 0 \<le> is_seen_delta s)"
proof (induction batch arbitrary: us)
  case (Cons s batch)
  obtain u rest where d: "build_counter_update s = Inr u" "build_all build_counter_update batch = Inr rest" "us = u # rest"
    using Cons.prems by (auto split: sum.splits)
  then have "cu_info_hash u = hex_text (is_info_hash s)" "cu_seen_delta u = is_seen_delta s" "0 \<le> is_seen_delta s"
    by (auto simp: build_counter_update_def Let_def split: if_splits)
  with Cons.IH[OF d(2)] d(3) show ?case by (simp add: delta_total_def)
qed (simp add: delta_total_def)

lemma delta_total_filter: "(\<And>s. is_info_hash s = h \<Longrightarrow> P s) \<Longrightarrow> delta_total (filter P ss) h = delta_total ss h"
  by (induction ss) (auto simp: delta_total_def)

text \<open>Starting a hash over in the database does not touch what is counted for the others.\<close>

definition quiet_at :: "bytes \<Rightarrow> catalog \<Rightarrow> catalog \<Rightarrow> bool" where
  "quiet_at h c c' \<longleftrightarrow> (\<forall>r. te_info_hash (c_heap c' r) = te_info_hash (c_heap c r)
     \<and> (te_info_hash (c_heap c r) = h \<longrightarrow> te_flushed_seen (c_heap c' r) = te_flushed_seen (c_heap c r))
     \<and> (te_flushed_seen (c_heap c' r) \<noteq> 0 \<longrightarrow> te_flushed_seen (c_heap c r) \<noteq> 0))"

lemma quiet_at_flushed:
  assumes "quiet_at h c c'" "tracked c"
  shows "flushed_seen c' h = flushed_seen c h" "tracked c'"
proof -
  let ?R = "{r. te_flushed_seen (c_heap c r) \<noteq> 0}"
  have R: "finite ?R" "{r. te_flushed_seen (c_heap c' r) \<noteq> 0} \<subseteq> ?R"
    using assms unfolding tracked_def quiet_at_def by blast+
  then show "tracked c'" unfolding tracked_def by (auto intro: finite_subset)
  have "flushed_seen c' h = (\<Sum>r\<in>?R. if te_info_hash (c_heap c' r) = h then int (te_flushed_seen (c_heap c' r)) else 0)"
    by (rule flushed_seen_over[OF R])
  also have "\<dots> = flushed_seen c h"
    unfolding flushed_seen_def using assms(1) by (intro sum.cong) (auto simp: quiet_at_def)
  finally show "flushed_seen c' h = flushed_seen c h" .
qed

lemma still_quiet: "quiet_at h c c1 \<Longrightarrow> still c1 c2 \<Longrightarrow> quiet_at h c c2"
  by (simp add: quiet_at_def still_def)

lemma reset_quiet:
  assumes "cat_ok c" "g \<noteq> h"
  shows "quiet_at h c (reset_index_base c g)"
proof (cases "map_of (c_entries c) g")
  case (Some r)
  then have g: "te_info_hash (c_heap c r) = g" using assms(1) by (auto simp: cat_but_def shape_ok_def)
  let ?c2 = "(upd_entry c r (\<lambda>e. e\<lparr>te_index_base := None, te_flushed_seen := 0, te_flushed_announce := 0\<rparr>))
     \<lparr>c_index_counters := AList.delete g (c_index_counters c)\<rparr>"
  have two: "quiet_at h c ?c2" using g assms(2) by (auto simp: quiet_at_def)
  have "still ?c2 (reset_index_base c g)"
  proof -
    have q: "te_info_hash (c_heap (queue_document_locked c' r') k) = te_info_hash (c_heap c' k)"
      "te_flushed_seen (c_heap (queue_document_locked c' r') k) = te_flushed_seen (c_heap c' k)" for c' r' k
      using still_queue[of c' r'] by (simp_all add: still_def)
    show ?thesis unfolding still_def reset_index_base_def Some option.case Let_def
      by (simp add: q forget_known_locked_def)
  qed
  then show ?thesis by (rule still_quiet[OF two])
qed (simp add: reset_index_base_def quiet_at_def)

definition resets :: "catalog \<Rightarrow> string list \<Rightarrow> catalog" where
  "resets c hs = foldl (\<lambda>c h. reset_index_base c (from_hex h)) c hs"

lemma resets_quiet:
  "cat_ok c \<Longrightarrow> tracked c \<Longrightarrow> \<forall>g \<in> set gs. from_hex g \<noteq> h \<Longrightarrow> cat_ok (resets c gs) \<and> tracked (resets c gs) \<and> flushed_seen (resets c gs) h = flushed_seen c h"
proof (induction gs arbitrary: c)
  case (Cons g gs)
  let ?c = "reset_index_base c (from_hex g)"
  have "quiet_at h c ?c" using Cons.prems by (intro reset_quiet) auto
  note one = quiet_at_flushed[OF this Cons.prems(2)]
  have "cat_ok ?c" by (rule catalog_step_ok[OF step_reset_index_base Cons.prems(1)])
  with Cons.IH[of ?c] Cons.prems(3) one show ?case by (simp add: resets_def)
qed (simp add: resets_def)

lemma resets_ok: "cat_ok c \<Longrightarrow> cat_ok (resets c gs)"
proof (induction gs arbitrary: c)
  case (Cons g gs)
  have "cat_ok (reset_index_base c (from_hex g))" by (rule catalog_step_ok[OF step_reset_index_base Cons.prems])
  with Cons.IH[of "reset_index_base c (from_hex g)"] show ?case by (simp add: resets_def)
qed (simp add: resets_def)

lemma resets_tracked:
  assumes "tracked c" shows "tracked (resets c gs)"
proof -
  have one: "tracked (reset_index_base c g)" if "tracked c" for c g
  proof (cases "map_of (c_entries c) g")
    case (Some r)
    have "te_flushed_seen (c_heap (reset_index_base c g) k) \<noteq> 0 \<Longrightarrow> te_flushed_seen (c_heap c k) \<noteq> 0" for k
      using still_queue[unfolded still_def, rule_format]
      by (auto simp: reset_index_base_def Some Let_def forget_known_locked_def split: if_splits)
    then have "{k. te_flushed_seen (c_heap (reset_index_base c g) k) \<noteq> 0} \<subseteq> {k. te_flushed_seen (c_heap c k) \<noteq> 0}" by blast
    then show ?thesis using that unfolding tracked_def by (rule finite_subset)
  qed (use that in \<open>simp add: reset_index_base_def\<close>)
  show ?thesis using assms
  proof (induction gs arbitrary: c)
    case (Cons g gs)
    from Cons.IH[OF one[OF Cons.prems, of "from_hex g"]] show ?case by (simp add: resets_def)
  qed (simp add: resets_def)
qed

definition counter_work :: "catalog \<Rightarrow> nat" where
  "counter_work c = length (c_index_counters c) + length (c_orphan_counters c)"

lemma orphans_unchanged [simp]:
  "c_orphan_counters (upd_entry c r f) = c_orphan_counters c"
  "c_orphan_counters (set_state_locked c r st) = c_orphan_counters c"
  "c_orphan_counters (index_entry_locked c r) = c_orphan_counters c"
  "c_orphan_counters (drop_unwritten_metadata_locked c r) = c_orphan_counters c"
  by (simp_all add: upd_entry_def set_state_locked_def index_entry_locked_def drop_unwritten_metadata_locked_def Let_def)

lemma orphans_queue [simp]: "c_orphan_counters (queue_document_locked c r) = c_orphan_counters c"
  by (simp add: queue_document_locked_def Let_def)

lemma reset_work: "counter_work (reset_index_base c g) \<le> counter_work c"
proof (cases "map_of (c_entries c) g")
  case (Some r)
  have d: "length (AList.delete k (AList.delete g xs)) \<le> length xs" "length (AList.delete g xs) \<le> length xs" for k and xs :: "(bytes, ref) odict"
    using length_delete_le[of k "AList.delete g xs"] length_delete_le[of g xs] by linarith+
  show ?thesis by (simp add: counter_work_def reset_index_base_def Some Let_def forget_known_locked_def d)
qed (simp add: reset_index_base_def)

lemma resets_work: "counter_work (resets c gs) \<le> counter_work c"
proof (induction gs arbitrary: c)
  case (Cons g gs)
  from order_trans[OF Cons.IH[of "reset_index_base c (from_hex g)"] reset_work] show ?case by (simp add: resets_def)
qed (simp add: resets_def)

lemma add_flushed_work [simp]: "counter_work (add_flushed c s) = counter_work c" "counter_work (foldl add_flushed c ss) = counter_work c"
proof -
  show one: "counter_work (add_flushed c s) = counter_work c" for c s by (simp add: counter_work_def add_flushed_def)
  show "counter_work (foldl add_flushed c ss) = counter_work c" by (induction ss arbitrary: c) (simp_all add: one)
qed

lemma write_counters_result:
  assumes ok: "index_ok s" and batch: "\<forall>b \<in> set batch. faithful (ix_catalog s) b" and run: "write_counters E batch s = (res, s')"
  shows "(\<forall>h. in_database s h \<longrightarrow> in_database s' h) \<and> (\<forall>h. in_database s h \<longrightarrow> ledger s' h = ledger s h) \<and> index_ok s'" "(\<forall>x. res = Inr x
    \<longrightarrow> counter_work (ix_catalog s') \<le> counter_work (ix_catalog s))"
proof -
  let ?c = "ix_catalog s" and ?d = "ix_database s"
  have failed: "(\<forall>h. in_database s h \<longrightarrow> in_database s' h) \<and> (\<forall>h. in_database s h \<longrightarrow> ledger s' h = ledger s h) \<and> index_ok s'"
    if "ds_main (ix_database s') = ds_main ?d" "ds_writer (ix_database s')" "ix_catalog s' = ?c \<or> ix_catalog s' = requeue_index_counters ?c batch"
  proof -
    have "still ?c (ix_catalog s')" using that(3) still_requeue_counters[of ?c batch] by auto
    moreover have "cat_ok (requeue_index_counters ?c batch)"
      by (rule catalog_step_ok[OF step_requeue_index_counters]) (use ok in \<open>simp add: index_ok_def\<close>)
    then have "cat_ok (ix_catalog s')" using that(3) ok by (auto simp: index_ok_def)
    ultimately show ?thesis using that(1,2) ok still_flushed by (simp add: in_database_def ledger_def index_ok_def)
  qed
  have writer: "ds_writer ?d" using ok by (simp add: index_ok_def)
  have "((\<forall>h. in_database s h \<longrightarrow> in_database s' h) \<and> (\<forall>h. in_database s h \<longrightarrow> ledger s' h = ledger s h) \<and> index_ok s')
    \<and> (\<forall>x. res = Inr x \<longrightarrow> counter_work (ix_catalog s') \<le> counter_work (ix_catalog s))"
  proof (cases "build_all build_counter_update batch")
    case (Inl e)
    then have out: "res = Inl e" "ds_main (ix_database s') = ds_main ?d" "ds_writer (ix_database s')"
      "ix_catalog s' = ?c \<or> ix_catalog s' = requeue_index_counters ?c batch"
      using run writer by (auto simp: write_counters_def io_bind_def io_catch_def lift_index_def io_raise_def io_seq_def with_catalog_def split: if_splits)
    show ?thesis using failed[OF out(2-4)] out(1) by simp
  next
    case (Inr us)
    obtain r d' where w: "update_counters (ie_db E) us ?d = (r, d')" by fastforce
    note written = update_counters_any[OF writer w]
    show ?thesis
    proof (cases r)
      case err: (Inl e)
      then have out: "\<exists>e. res = Inl e" "ds_main (ix_database s') = ds_main ?d" "ds_writer (ix_database s')"
        "ix_catalog s' = ?c \<or> ix_catalog s' = requeue_index_counters ?c batch"
        using run Inr w written(1) written(2)[OF err]
        by (auto simp: write_counters_def io_bind_def io_catch_def lift_index_def io_raise_def io_return_def io_seq_def with_catalog_def on_db_def split: if_splits)
      show ?thesis using failed[OF out(2-4)] out(1) by auto
    next
      case wrote: (Inr missing)
      define kept where "kept = filter (\<lambda>s. hex_text (is_info_hash s) \<notin> set missing) batch"
      let ?m = "foldl add_flushed ?c kept"
      let ?c' = "resets ?m missing"
      have s': "ix_catalog s' = ?c'" "ix_database s' = d'" "res = Inr ()"
        using run Inr w wrote unfolding write_counters_def kept_def mark_counters_written_def
        by (auto simp: io_bind_def io_catch_def lift_index_def io_return_def io_seq_def with_catalog_def on_db_def io_update_def resets_def)
      have updates: "map cu_info_hash us = map (\<lambda>s. hex_text (is_info_hash s)) batch" "\<forall>b \<in> set batch. 0 \<le> is_seen_delta b"
        "update_total cu_seen_delta us (hex_text h) = delta_total batch h" for h
        using build_all_update[OF Inr] by blast+
      have db: "db_ok (ds_main ?d)" using ok by (simp add: index_ok_def)
      have added: "db_ok (ds_main d')" "missing = map cu_info_hash (filter (\<lambda>u. \<not> has_row (cu_info_hash u) (ds_main ?d)) us)"
        "has_row h (ds_main d') = has_row h (ds_main ?d)"
        "seen_of (ds_main d') h = seen_of (ds_main ?d) h + (if has_row h (ds_main ?d) then update_total cu_seen_delta us h else 0)" for h
        using written(3)[OF wrote] db by (simp_all add: counters_added_def)
      have cat: "cat_ok ?c" "tracked ?c" using ok by (simp_all add: index_ok_def)
      have "cat_ok ?m" using catalog_step_ok[OF step_mark_counters_written cat(1), of kept] by (simp add: mark_counters_written_def)
      have "still (add_flushed c b) (add_flushed c b)" for c b by simp
      moreover have "\<forall>p \<in> set (map (\<lambda>b. (b, ())) kept). faithful ?c (fst p) \<and> 0 \<le> is_seen_delta (fst p)"
        using batch updates(2) by (auto simp: kept_def)
      moreover have "foldl (\<lambda>c (p :: index_snapshot \<times> unit). add_flushed c (fst p)) c (map (\<lambda>b. (b, ())) ks) = foldl add_flushed c ks" for c ks
        by (induction ks arbitrary: c) simp_all
      ultimately have m: "tracked ?m" "flushed_seen ?m h = flushed_seen ?c h + delta_total kept h" for h
        using marks_flushed[of "\<lambda>c p. add_flushed c (fst p)" ?c "map (\<lambda>b. (b, ())) kept" h] cat(2) by (simp_all add: comp_def)
      have here: "hex_text h \<notin> set missing" if "in_database s h" for h
        using that added(2) by (auto simp: in_database_def)
      have "ledger s' h = ledger s h" if "in_database s h" for h
      proof -
        have "\<forall>g \<in> set missing. from_hex g \<noteq> h"
        proof
          fix g assume "g \<in> set missing"
          then have "g \<in> cu_info_hash ` set us" using added(2) by auto
          then have "g \<in> (\<lambda>b. hex_text (is_info_hash b)) ` set batch" using updates(1) by (metis set_map)
          then show "from_hex g \<noteq> h" using here[OF that] \<open>g \<in> set missing\<close> by (auto simp: from_hex_text)
        qed
        from resets_quiet[OF \<open>cat_ok ?m\<close> m(1) this] m(2)[of h] have "flushed_seen ?c' h = flushed_seen ?c h + delta_total kept h" by simp
        moreover have "delta_total kept h = delta_total batch h" unfolding kept_def by (rule delta_total_filter) (use here[OF that] in simp)
        ultimately show ?thesis using s' added(4) updates(3) that by (simp add: ledger_def in_database_def)
      qed
      moreover have "cat_ok ?c'" "tracked ?c'" "counter_work ?c' \<le> counter_work ?c"
        using resets_ok[OF \<open>cat_ok ?m\<close>] resets_tracked[OF m(1)] resets_work[of ?m missing] by simp_all
      ultimately show ?thesis using s' added(1,3) written(1) by (simp add: in_database_def index_ok_def)
    qed
  qed
  then show "(\<forall>h. in_database s h \<longrightarrow> in_database s' h) \<and> (\<forall>h. in_database s h \<longrightarrow> ledger s' h = ledger s h) \<and> index_ok s'" "(\<forall>x. res = Inr x
    \<longrightarrow> counter_work (ix_catalog s') \<le> counter_work (ix_catalog s))" by blast+
qed

text \<open>Draining shortens the queues, by at least the length of what it hands out.\<close>

lemma drain_loop_work: "length (fst (drain_counters c limit result)) + length (c_index_counters (snd (drain_counters c limit result))) \<le> length result + length (c_index_counters c)
    \<and> c_orphan_counters (snd (drain_counters c limit result)) = c_orphan_counters c"
proof (induction c limit result rule: drain_counters.induct)
  case (1 c limit result)
  show ?case
  proof (cases "c_index_counters c")
    case Nil
    then show ?thesis by (subst drain_counters.simps, subst (2) drain_counters.simps, subst (3) drain_counters.simps) simp
  next
    case (Cons p counters)
    obtain h r where p: "p = (h, r)" by (cases p)
    let ?c1 = "c\<lparr>c_index_counters := counters\<rparr>"
    note IH = "1.IH"[OF Cons p[symmetric]]
    let ?e = "c_heap ?c1 r"
    consider "\<not> length result < limit" | "length result < limit" "te_index_base ?e = None"
      | "length result < limit" "te_index_base ?e \<noteq> None" "te_seen_count ?e > te_flushed_seen ?e \<or> te_announce_count ?e > te_flushed_announce ?e"
      | "length result < limit" "te_index_base ?e \<noteq> None" "\<not> (te_seen_count ?e > te_flushed_seen ?e \<or> te_announce_count ?e > te_flushed_announce ?e)"
      by blast
    then show ?thesis
    proof cases
      case 1
      then have "drain_counters c limit result = (result, c)" using Cons p by (subst drain_counters.simps) simp
      then show ?thesis by simp
    next
      case 2
      define c2 where "c2 = (if te_metadata ?e \<noteq> None then queue_document_locked ?c1 r else ?c1)"
      have eq: "drain_counters c limit result = drain_counters c2 limit result"
        unfolding c2_def using Cons p 2 by (subst drain_counters.simps) (simp add: Let_def)
      have c2: "length (c_index_counters c2) \<le> length (c_index_counters c)" "c_orphan_counters c2 = c_orphan_counters c"
        unfolding c2_def using Cons length_delete_le[of "te_info_hash ?e" counters] by auto
      have "length (fst (drain_counters c2 limit result)) + length (c_index_counters (snd (drain_counters c2 limit result))) \<le> length result + length (c_index_counters c2)
          \<and> c_orphan_counters (snd (drain_counters c2 limit result)) = c_orphan_counters c2"
        unfolding c2_def by (rule IH(1)) (use 2 in simp_all)
      with c2 show ?thesis unfolding eq by auto
    next
      case 3
      have eq: "drain_counters c limit result = drain_counters ?c1 limit (result @ [index_snapshot_of ?c1 r])"
        using Cons p 3 by (subst drain_counters.simps) (auto simp: Let_def)
      have "length (fst (drain_counters ?c1 limit (result @ [index_snapshot_of ?c1 r]))) + length (c_index_counters (snd (drain_counters ?c1 limit (result @ [index_snapshot_of ?c1 r]))))
          \<le> length (result @ [index_snapshot_of ?c1 r]) + length (c_index_counters ?c1)
          \<and> c_orphan_counters (snd (drain_counters ?c1 limit (result @ [index_snapshot_of ?c1 r]))) = c_orphan_counters ?c1"
        by (rule IH(2)) (use 3 in simp_all)
      then show ?thesis unfolding eq using Cons by simp
    next
      case 4
      have eq: "drain_counters c limit result = drain_counters ?c1 limit result"
        using Cons p 4 by (subst drain_counters.simps) (auto simp: Let_def)
      have "length (fst (drain_counters ?c1 limit result)) + length (c_index_counters (snd (drain_counters ?c1 limit result))) \<le> length result + length (c_index_counters ?c1)
          \<and> c_orphan_counters (snd (drain_counters ?c1 limit result)) = c_orphan_counters ?c1"
        by (rule IH(3)) (use 4 in simp_all)
      then show ?thesis unfolding eq using Cons by simp
    qed
  qed
qed

lemma drain_orphans_work: "length (fst (drain_orphans c rs limit result)) + length (snd (drain_orphans c rs limit result)) \<le> length result + length rs"
proof (induction c rs limit result rule: drain_orphans.induct)
  case (2 c r rs limit result)
  then show ?case by (auto simp: Let_def split: if_splits)
qed simp

lemma drain_counters_work: "length (fst (drain_index_counters c limit)) + counter_work (snd (drain_index_counters c limit)) \<le> counter_work c"
  using drain_orphans_work[of c "c_orphan_counters c" limit "[]"]
    drain_loop_work[of "c\<lparr>c_orphan_counters := snd (drain_orphans c (c_orphan_counters c) limit [])\<rparr>" limit "fst (drain_orphans c (c_orphan_counters c) limit [])"]
  by (simp add: drain_index_counters_def counter_work_def split_beta)

lemma drain_counters_step:
  assumes "index_ok s" "drain_index_counters (ix_catalog s) n = (batch, c)"
  shows "index_ok (s\<lparr>ix_catalog := c\<rparr>)" "ledger (s\<lparr>ix_catalog := c\<rparr>) h = ledger s h" "in_database (s\<lparr>ix_catalog := c\<rparr>) h = in_database s h"
    "\<forall>b \<in> set batch. faithful c b" "batch \<noteq> [] \<Longrightarrow> counter_work c < counter_work (ix_catalog s)"
proof -
  have c: "c = snd (drain_index_counters (ix_catalog s) n)" "batch = fst (drain_index_counters (ix_catalog s) n)" using assms(2) by simp_all
  have st: "still (ix_catalog s) c" unfolding c by (rule still_drain_counters)
  have "cat_ok c" unfolding c by (rule catalog_step_ok[OF step_drain_index_counters]) (use assms(1) in \<open>simp add: index_ok_def\<close>)
  then show "index_ok (s\<lparr>ix_catalog := c\<rparr>)" using assms(1) still_flushed[OF st] by (simp add: index_ok_def)
  show "ledger (s\<lparr>ix_catalog := c\<rparr>) h = ledger s h" "in_database (s\<lparr>ix_catalog := c\<rparr>) h = in_database s h"
    using still_flushed[OF st] by (simp_all add: ledger_def in_database_def)
  show "\<forall>b \<in> set batch. faithful c b" using drain_counters_faithful[of "ix_catalog s" n] still_faithful[OF st] c(2) by simp
  show "counter_work c < counter_work (ix_catalog s)" if "batch \<noteq> []"
    using that drain_counters_work[of "ix_catalog s" n] length_greater_0_conv[of batch] unfolding c by linarith
qed

lemma flush_counters_loop_balanced:
  "index_ok s \<Longrightarrow> flush_counters_loop E deadline n s = (res, s') \<Longrightarrow>
     (\<forall>h. in_database s h \<longrightarrow> in_database s' h) \<and> (\<forall>h. in_database s h \<longrightarrow> ledger s' h = ledger s h) \<and> index_ok s'"
proof (induction n arbitrary: s)
  case (Suc n)
  obtain go k where go: "before_deadline E deadline s = (Inr go, s\<lparr>ix_calls := k\<rparr>)" "go \<or> deadline \<noteq> None"
    using before_deadline_cases by blast
  let ?s = "s\<lparr>ix_calls := k\<rparr>"
  obtain batch c where drain: "drain_index_counters (ix_catalog ?s) (ie_batch_size E) = (batch, c)" by fastforce
  have ok: "index_ok ?s" using Suc.prems(1) by simp
  note one = drain_counters_step[OF ok drain]
  consider "\<not> go" "(res, s') = (Inr (), ?s)" | "go" "batch = []" "(res, s') = (Inr (), ?s\<lparr>ix_catalog := c\<rparr>)"
    | r s2 where "go" "batch \<noteq> []" "write_counters E batch (?s\<lparr>ix_catalog := c\<rparr>) = (r, s2)"
      "(res, s') = (case r of Inl e \<Rightarrow> (Inl e, s2) | Inr _ \<Rightarrow> flush_counters_loop E deadline n s2)"
    using Suc.prems(2) go drain
    by (auto simp: io_bind_def io_assert_def io_return_def io_raise_def with_catalog_def io_seq_def split: if_splits sum.splits prod.splits)
  then show ?case
  proof cases
    case 1
    then show ?thesis using Suc.prems(1) by simp
  next
    case 2
    then show ?thesis using one by simp
  next
    case (3 r s2)
    note two = write_counters_result[OF one(1) _ 3(3)]
    have two': "(\<forall>h. in_database s h \<longrightarrow> in_database s2 h) \<and> (\<forall>h. in_database s h \<longrightarrow> ledger s2 h = ledger s h)" "index_ok s2"
      using two one by simp_all
    show ?thesis
    proof (cases r)
      case (Inl e)
      then show ?thesis using 3 two' by simp
    next
      case (Inr x)
      then have "flush_counters_loop E deadline n s2 = (res, s')" using 3 by simp
      from Suc.IH[OF two'(2) this] two'(1) show ?thesis by auto
    qed
  qed
qed (simp add: io_raise_def)

lemma flush_counters_balanced: "balanced False (flush_counters E deadline)"
proof (rule balancedI)
  fix s res s' assume "index_ok s" "flush_counters E deadline s = (res, s')"
  then show "(\<forall>h. in_database s h \<longrightarrow> in_database s' h) \<and> (\<forall>h. False \<or> in_database s h \<longrightarrow> ledger s' h = ledger s h)
     \<and> index_ok s'"
    unfolding flush_counters_def bind_get using flush_counters_loop_balanced by blast
qed

lemma flush_counters_fuel:
  "index_ok s \<Longrightarrow> counter_work (ix_catalog s) < n \<Longrightarrow> counter_work (ix_catalog s) < m \<Longrightarrow>
     flush_counters_loop E deadline n s = flush_counters_loop E deadline m s"
proof (induction n arbitrary: m s)
  case (Suc n)
  obtain k where m: "m = Suc k" using Suc.prems(3) by (cases m) auto
  obtain go i where go: "before_deadline E deadline s = (Inr go, s\<lparr>ix_calls := i\<rparr>)"
    using before_deadline_cases by blast
  let ?s = "s\<lparr>ix_calls := i\<rparr>"
  obtain batch c where drain: "drain_index_counters (ix_catalog ?s) (ie_batch_size E) = (batch, c)" by fastforce
  have ok: "index_ok ?s" using Suc.prems(1) by simp
  note one = drain_counters_step[OF ok drain]
  have "io_seq (write_counters E batch) (flush_counters_loop E deadline n) (?s\<lparr>ix_catalog := c\<rparr>)
      = io_seq (write_counters E batch) (flush_counters_loop E deadline k) (?s\<lparr>ix_catalog := c\<rparr>)" if "batch \<noteq> []"
  proof -
    obtain r s2 where w: "write_counters E batch (?s\<lparr>ix_catalog := c\<rparr>) = (r, s2)" by fastforce
    have "flush_counters_loop E deadline n s2 = flush_counters_loop E deadline k s2" if "r = Inr x" for x
      using write_counters_result[OF one(1) _ w] that one(4) one(5)[OF \<open>batch \<noteq> []\<close>] Suc.prems m by (intro Suc.IH) auto
    then show ?thesis using w by (simp add: io_seq_def io_bind_def split: sum.split)
  qed
  then show ?case unfolding m using go drain by (simp add: io_bind_def with_catalog_def)
qed simp

end
