(* ===== verification/Indexer_Properties.thy ===== *)
theory Indexer_Properties
  imports Indexer_Ledger
begin

text \<open>
  What the index thread guarantees: it survives every error with a bounded backoff; each
  sighting it counts as written is in the database exactly once; a write that fails puts its
  documents back where they were.
\<close>

section \<open>The thread\<close>

lemma balanced_weaken: "balanced True m \<Longrightarrow> balanced False m"
  by (simp add: balanced_def)

lemma balanced_catch: "balanced all m \<Longrightarrow> (\<And>e. balanced all (handler e)) \<Longrightarrow> balanced all (io_catch m handler)"
proof (rule balancedI)
  fix s res s' assume m: "balanced all m" and handler: "\<And>e. balanced all (handler e)" and ok: "index_ok s"
    and run: "io_catch m handler s = (res, s')"
  obtain r s1 where r: "m s = (r, s1)" by fastforce
  note one = m[unfolded balanced_def, rule_format, OF ok r]
  show "(\<forall>h. in_database s h \<longrightarrow> in_database s' h) \<and> (\<forall>h. all \<or> in_database s h \<longrightarrow> ledger s' h = ledger s h) \<and> index_ok s'"
  proof (cases r)
    case (Inl e)
    then have "handler e s1 = (res, s')" using r run by (simp add: io_catch_def)
    from handler[unfolded balanced_def, rule_format, OF _ this] one show ?thesis by auto
  qed (use one r run in \<open>simp add: io_catch_def\<close>)
qed

lemma balanced_when: "balanced all m \<Longrightarrow> balanced all (io_when c m)"
  by (simp add: io_when_def balanced_simple)

lemma balanced_catalog:
  assumes "\<And>c. still c (snd (f c))" "\<And>c. cat_ok c \<Longrightarrow> cat_ok (snd (f c))"
  shows "balanced all (with_catalog f)"
  using still_flushed[OF assms(1)] assms(2) by (auto simp: balanced_def with_catalog_def index_ok_def ledger_def in_database_def)

text \<open>Queries leave the database as it is.\<close>

definition reads :: "'a db \<Rightarrow> bool" where
  "reads m \<longleftrightarrow> untouched ds_main m \<and> untouched ds_writer m"

lemma reads_basic:
  "reads (io_return x)" "reads (io_raise e)" "reads (io_get g)" "reads (io_assert b e)" "reads (db_query E q)"
  by (auto simp: reads_def intro!: untouched_rules) (simp_all add: untouched_def db_query_def Let_def)

lemma reads_bind: "reads m \<Longrightarrow> (\<And>x. reads (f x)) \<Longrightarrow> reads (io_bind m f)"
  by (simp add: reads_def untouched_bind)

lemma reads_seq: "reads m \<Longrightarrow> reads n \<Longrightarrow> reads (io_seq m n)"
  by (simp add: reads_def untouched_seq)

lemma reads_when: "reads m \<Longrightarrow> reads (io_when c m)"
  by (simp add: io_when_def reads_basic)

lemmas reads_rules = reads_basic reads_bind reads_seq reads_when

lemma balanced_db: "reads m \<Longrightarrow> balanced all (on_db m)"
  by (auto simp: balanced_def on_db_def reads_def untouched_def Let_def index_ok_def ledger_def in_database_def)

lemma reads_lookup_loop: "reads (lookup_loop E hs result)"
proof (induction E hs result rule: lookup_loop.induct)
  case (1 E hs result)
  show ?case
  proof (cases "hs = []")
    case False
    then have "reads (io_bind (db_query E (\<lambda>d. filter (\<lambda>r. tr_info_hash r \<in> set (take MAX_LOOKUP_PARAMETERS hs)) (db_torrents d))) (\<lambda>rows.
        lookup_loop E (drop MAX_LOOKUP_PARAMETERS hs)
          (foldl (\<lambda>m r. AList.update (tr_info_hash r) (tr_seen_count r, tr_announce_count r, tr_first_seen r) m) result rows)))"
      by (intro reads_rules "1.IH")
    with False show ?thesis by (subst lookup_loop.simps) simp
  qed (subst lookup_loop.simps, simp add: reads_rules)
qed

lemma reads_queries: "reads (connect_reader E)" "reads (lookup_counters E hs r)" "reads (document_totals E r)"
  by (auto simp: connect_reader_def lookup_counters_def document_totals_def intro!: reads_rules reads_lookup_loop split: option.split)

lemma still_check: "still c (apply_database_check found c h)"
proof (cases "map_of (c_needs_check c) h")
  case (Some r)
  show ?thesis unfolding apply_database_check_def Some Let_def option.case
    by (auto simp: still_def)
qed (simp add: apply_database_check_def)

lemma still_checks: "still c (apply_database_checks c hs found)" "still c (set_database_check c b)"
proof -
  show "still c (apply_database_checks c hs found)" unfolding apply_database_checks_def by (rule still_foldl) (rule still_check)
  have "still (c\<lparr>c_check_database := b\<rparr>) (foldl check_off (c\<lparr>c_check_database := b\<rparr>) rs)" for rs
    by (rule still_foldl) (simp add: still_def check_off_def)
  then show "still c (set_database_check c b)" by (cases b) (simp_all add: set_database_check_def Let_def still_def)
qed

lemma balanced_checks:
  "balanced all (with_catalog (\<lambda>c. ((), apply_database_checks c hs found)))" "balanced all (with_catalog (\<lambda>c. ((), set_database_check c b)))"
  by (auto intro!: balanced_catalog still_checks catalog_step_ok[OF step_apply_database_checks] catalog_step_ok[OF step_set_database_check])

lemmas balanced_rules = balanced_simple balanced_bind balanced_seq balanced_catch balanced_when balanced_checks balanced_update
  balanced_db reads_queries balanced_weaken[OF flush_documents_balanced] flush_counters_balanced

lemma balanced_reader: "balanced False (thread_reader E)" "balanced False close_reader" "balanced False record_error"
  by (auto simp: thread_reader_def close_reader_def record_error_def intro!: balanced_rules)

lemma balanced_check_batches: "balanced False (check_batches E n)"
  by (induction n) (auto intro!: balanced_rules balanced_reader)

lemma balanced_flush_checks: "balanced False (flush_checks E)"
  unfolding flush_checks_def
  by (auto intro!: balanced_rules balanced_reader balanced_check_batches split: option.split)

lemma balanced_refresh: "balanced False (refresh_count E t)"
  unfolding refresh_count_def by (auto intro!: balanced_rules balanced_reader)

lemma balanced_run_due_work: "balanced False (run_due_work E)"
  unfolding run_due_work_def by (intro balanced_rules balanced_reader balanced_flush_checks balanced_refresh) (simp_all add: Let_def)

lemma balanced_rounds: "balanced False (indexer_rounds E n)"
  by (induction n) (auto intro!: balanced_rules balanced_run_due_work)

lemma balanced_final: "balanced False (final_flush E)"
  unfolding final_flush_def Let_def by (auto intro!: balanced_rules balanced_reader)

lemma balanced_thread: "balanced False (indexer_run E n)"
  unfolding indexer_run_def by (intro balanced_rules balanced_reader balanced_rounds balanced_final)

section \<open>Backing off\<close>

lemma backoff_basic:
  "untouched ix_backoff (index_clock E)" "untouched ix_backoff (on_db d)" "untouched ix_backoff (with_catalog f)" "untouched ix_backoff (lift_index r)"
  by (simp_all add: untouched_def index_clock_def on_db_def Let_def with_catalog_def lift_index_def io_raise_def io_return_def split: sum.split)

lemma untouched_catch: "untouched g m \<Longrightarrow> (\<And>e. untouched g (handler e)) \<Longrightarrow> untouched g (io_catch m handler)"
  by (simp add: untouched_def io_catch_def split_beta split: sum.split)

lemma untouched_when: "untouched g m \<Longrightarrow> untouched g (io_when c m)"
  by (simp add: io_when_def untouched_steps)

lemmas backoff_rules = untouched_rules untouched_catch untouched_when backoff_basic

lemma backoff_small:
  "untouched ix_backoff (thread_reader E)" "untouched ix_backoff (before_deadline E deadline)" "untouched ix_backoff close_reader" "untouched ix_backoff record_error"
  "untouched ix_backoff (write_batch E batch)" "untouched ix_backoff (write_counters E batch)"
  unfolding thread_reader_def before_deadline_def write_batch_def write_counters_def close_reader_def record_error_def
  by (auto intro!: backoff_rules split: option.split)

lemma backoff_loops:
  "untouched ix_backoff (flush_documents_loop E deadline n)" "untouched ix_backoff (flush_counters_loop E deadline n)" "untouched ix_backoff (check_batches E n)"
  by (induction n) (auto intro!: backoff_rules backoff_small)

lemma backoff_flushes:
  "untouched ix_backoff (flush_documents E deadline)" "untouched ix_backoff (flush_counters E deadline)" "untouched ix_backoff (flush_checks E)"
  "untouched ix_backoff (refresh_count E t)"
  unfolding flush_documents_def flush_counters_def flush_checks_def refresh_count_def
  by (auto intro!: backoff_rules backoff_small backoff_loops split: option.split)

text \<open>The work that is due, up to the reset of the backoff.\<close>

definition due_work :: "indexer_env \<Rightarrow> real \<Rightarrow> unit index" where
  "due_work E now =
     io_seq (io_bind (io_get ix_next_checks) (\<lambda>t. io_when (now \<ge> t)
            (io_seq (flush_checks E) (io_update (\<lambda>s. s\<lparr>ix_next_checks := now + ie_check_seconds E\<rparr>)))))
        (io_seq (io_bind (io_get ix_next_documents) (\<lambda>t. io_when (now \<ge> t)
            (io_seq (flush_documents E None) (io_update (\<lambda>s. s\<lparr>ix_next_documents := now + ie_document_seconds E\<rparr>)))))
        (io_seq (io_bind (io_get ix_next_counters) (\<lambda>t. io_when (now \<ge> t)
            (io_seq (flush_counters E None) (io_update (\<lambda>s. s\<lparr>ix_next_counters := now + ie_counter_seconds E\<rparr>)))))
        (io_bind (io_get ix_next_count) (\<lambda>t. io_when (now \<ge> t)
            (io_seq (refresh_count E True) (io_update (\<lambda>s. s\<lparr>ix_next_count := now + ie_count_seconds E\<rparr>)))))))"

lemma seq_assoc: "io_seq (io_seq m n) k = io_seq m (io_seq n k)"
  by (auto simp: fun_eq_iff io_seq_def io_bind_def split: prod.split sum.split)

lemma backoff_due: "untouched ix_backoff (due_work E now)"
  unfolding due_work_def by (auto intro!: backoff_rules backoff_flushes)

definition next_backoff :: "indexer_env \<Rightarrow> real \<Rightarrow> real" where
  "next_backoff E b = (if b = 0 then ie_backoff_start E else min (2 * b) (ie_backoff_max E))"

lemma run_due_work_parts:
  "run_due_work E =
     io_bind (index_clock E) (\<lambda>now.
     io_seq (io_catch (io_seq (due_work E now)
        (io_update (\<lambda>s. s\<lparr>ix_backoff := 0,
            ix_wake_at := min (min (ix_next_checks s) (ix_next_documents s)) (min (ix_next_counters s) (ix_next_count s))\<rparr>)))
        (\<lambda>e. io_seq record_error (io_seq close_reader (io_update (\<lambda>s.
             s\<lparr>ix_backoff := next_backoff E (ix_backoff s), ix_wake_at := now + next_backoff E (ix_backoff s)\<rparr>)))))
     (io_bind (io_get (\<lambda>s. ix_wake_at s \<ge> now \<or> ix_backoff s = 0)) index_assert))"
  by (simp add: run_due_work_def due_work_def seq_assoc Let_def next_backoff_def)

lemma run_due_work_outcome:
  fixes s :: indexer
  assumes "0 < ie_backoff_start E" "ie_backoff_start E \<le> ie_backoff_max E" "0 \<le> ix_backoff s"
  shows "\<exists>s'. run_due_work E s = (Inr (), s')
    \<and> (case fst (due_work E (ie_clock E (ix_calls s)) (s\<lparr>ix_calls := ix_calls s + 1\<rparr>)) of
         Inr _ \<Rightarrow> ix_backoff s' = 0
       | Inl e \<Rightarrow> ix_backoff s' = next_backoff E (ix_backoff s) \<and> ix_wake_at s' = ie_clock E (ix_calls s) + ix_backoff s' \<and> \<not> ix_reader s')"
proof -
  let ?now = "ie_clock E (ix_calls s)" and ?s = "s\<lparr>ix_calls := ix_calls s + 1\<rparr>"
  obtain r s1 where due: "due_work E ?now ?s = (r, s1)" by fastforce
  have b: "ix_backoff s1 = ix_backoff s" using backoff_due[of E ?now, unfolded untouched_def, rule_format, of ?s] due by simp
  have "0 \<le> next_backoff E (ix_backoff s)" using assms by (simp add: next_backoff_def)
  then show ?thesis using due b
    by (cases r) (simp_all add: run_due_work_parts io_bind_def index_clock_def io_seq_def io_catch_def io_update_def io_get_def
      io_assert_def io_return_def record_error_def close_reader_def)
qed

lemma next_backoff_bounds:
  "0 < ie_backoff_start E \<Longrightarrow> ie_backoff_start E \<le> ie_backoff_max E \<Longrightarrow> b = 0 \<or> ie_backoff_start E \<le> b \<and> b \<le> ie_backoff_max E \<Longrightarrow>
     ie_backoff_start E \<le> next_backoff E b \<and> next_backoff E b \<le> ie_backoff_max E"
  by (auto simp: next_backoff_def)

text \<open>The states the thread's backoff can be in.\<close>

definition backoff_ok :: "indexer_env \<Rightarrow> indexer \<Rightarrow> bool" where
  "backoff_ok E s \<longleftrightarrow> ix_backoff s = 0 \<or> ie_backoff_start E \<le> ix_backoff s \<and> ix_backoff s \<le> ie_backoff_max E"

lemma run_due_work_bounds:
  assumes "0 < ie_backoff_start E" "ie_backoff_start E \<le> ie_backoff_max E" "backoff_ok E s"
  shows "\<exists>s'. run_due_work E s = (Inr (), s') \<and> backoff_ok E s'"
proof -
  have "0 \<le> ix_backoff s" using assms by (auto simp: backoff_ok_def)
  from run_due_work_outcome[OF assms(1,2) this] next_backoff_bounds[OF assms(1,2), of "ix_backoff s"] assms(3)
  show ?thesis
    by (cases "fst (due_work E (ie_clock E (ix_calls s)) (s\<lparr>ix_calls := ix_calls s + 1\<rparr>))") (auto simp: backoff_ok_def)
qed

lemma indexer_rounds_bounds:
  assumes "0 < ie_backoff_start E" "ie_backoff_start E \<le> ie_backoff_max E"
  shows "backoff_ok E s \<Longrightarrow> \<exists>s'. indexer_rounds E n s = (Inr (), s') \<and> backoff_ok E s'"
proof (induction n arbitrary: s)
  case (Suc n)
  let ?s = "s\<lparr>ix_calls := ix_calls s + 1\<rparr>"
  have here: "backoff_ok E (t\<lparr>ix_calls := k\<rparr>) = backoff_ok E t" for t k by (simp add: backoff_ok_def)
  have "\<exists>s1. io_when (ie_clock E (ix_calls s) \<ge> ix_wake_at s) (run_due_work E) ?s = (Inr (), s1) \<and> backoff_ok E s1"
    using run_due_work_bounds[OF assms, of ?s] Suc.prems by (simp add: io_when_def io_return_def here)
  then obtain s1 where s1: "io_when (ie_clock E (ix_calls s) \<ge> ix_wake_at s) (run_due_work E) ?s = (Inr (), s1)" "backoff_ok E s1" by blast
  obtain s' where "indexer_rounds E n (s1\<lparr>ix_calls := ix_calls s1 + 1\<rparr>) = (Inr (), s')" "backoff_ok E s'"
    using Suc.IH[of "s1\<lparr>ix_calls := ix_calls s1 + 1\<rparr>"] s1(2) by (auto simp: here)
  then have "indexer_rounds E (Suc n) s = (Inr (), s')" using s1(1)
    by (simp add: io_bind_def io_seq_def index_clock_def io_get_def)
  with \<open>backoff_ok E s'\<close> show ?case by blast
qed (simp add: io_return_def)

lemma indexer_run_returns:
  assumes "0 < ie_backoff_start E" "ie_backoff_start E \<le> ie_backoff_max E" "backoff_ok E s"
  shows "fst (indexer_run E n s) = Inr ()"
proof -
  obtain s1 where s1: "indexer_rounds E n s = (Inr (), s1)" using indexer_rounds_bounds[OF assms] by blast
  have "fst (final_flush E s1) = Inr ()"
    by (auto simp: final_flush_def Let_def io_bind_def index_clock_def io_catch_def io_seq_def record_error_def io_update_def split: prod.split sum.split)
  then show ?thesis using s1
    by (auto simp: indexer_run_def io_seq_def io_bind_def close_reader_def io_update_def split: prod.split sum.split)
qed

section \<open>The guarantees\<close>

lemma requeue_undoes_drain:
  assumes "cat_ok c"
  shows "requeue_index_documents (snd (drain_index_documents c n)) (fst (drain_index_documents c n)) = c"
proof -
  let ?d = "c_index_documents c"
  have ok: "od_ok ?d" "queues_ok c" using assms by (simp_all add: cat_but_def shape_ok_def)
  have restored: "foldl (\<lambda>docs s. if is_info_hash s \<in> fst ` set docs then docs else (is_info_hash s, is_entry s) # docs) ys
      (rev (map (\<lambda>p. index_snapshot_of c (snd p)) xs)) = xs @ ys"
    if "od_ok (xs @ ys)" "\<forall>p \<in> set xs. te_info_hash (c_heap c (snd p)) = fst p" for xs ys
    using that
  proof (induction xs)
    case (Cons p xs)
    moreover have "od_ok (xs @ ys)" "fst p \<notin> fst ` set (xs @ ys)" using Cons.prems(1) by auto
    ultimately show ?case by (auto simp: index_snapshot_of_def Let_def)
  qed simp
  have "te_info_hash (c_heap c (snd p)) = fst p" if "p \<in> set (take n ?d)" for p
  proof -
    have "map_of ?d (fst p) = Some (snd p)" using in_set_takeD[OF that] ok(1) by simp
    then show ?thesis using ok(2) unfolding queues_ok_def by blast
  qed
  then show ?thesis using restored[of "take n ?d" "drop n ?d"] ok(1)
    by (simp add: requeue_index_documents_def drain_index_documents_def)
qed

text \<open>
  C38: A batch of documents that the database refuses with an error of its own is put back: the
  catalog is what it was before the batch was taken from it, with the documents in the same
  order, and the database has not changed.
\<close>

theorem refused_batch_put_back:
  assumes "index_ok s" "drain_index_documents (ix_catalog s) n = (batch, c)"
    and "write_batch E batch (s\<lparr>ix_catalog := c\<rparr>) = (Inl IndexSqlite, s')"
  shows "ix_catalog s' = ix_catalog s \<and> ds_main (ix_database s') = ds_main (ix_database s)"
proof -
  let ?d = "ix_database s"
  have restored: "requeue_index_documents c batch = ix_catalog s"
    using requeue_undoes_drain[of "ix_catalog s" n] assms(1,2) by (simp add: index_ok_def)
  have writer: "ds_writer ?d" using assms(1) by (simp add: index_ok_def)
  have no_other: "build_all build_document batch \<noteq> Inl IndexSqlite"
  proof
    have "build_all build_document xs = Inl e \<Longrightarrow> e = IndexOther" for xs e
      by (induction xs) (auto simp: build_document_def Let_def split: option.splits sum.splits if_splits)
    moreover assume "build_all build_document batch = Inl IndexSqlite"
    ultimately show False by blast
  qed
  show ?thesis
  proof (cases "build_all build_document batch")
    case (Inl e)
    then show ?thesis using assms(3) no_other
      by (auto simp: write_batch_def io_bind_def io_catch_def lift_index_def io_raise_def io_seq_def with_catalog_def split: if_splits)
  next
    case (Inr docs)
    obtain r d' where w: "write_documents (ie_db E) docs ?d = (r, d')" by fastforce
    note written = write_documents_any[OF writer w]
    obtain e where "r = Inl e" "ix_catalog s' = requeue_index_documents c batch" "ix_database s' = d'"
      using assms(3) Inr w
      by (cases r) (auto simp: write_batch_def io_bind_def io_catch_def lift_index_def io_raise_def io_return_def io_seq_def with_catalog_def on_db_def
        io_update_def split: if_splits)
    then show ?thesis using written(2) restored by simp
  qed
qed

text \<open>
  C39: Writing documents counts every sighting once. Whatever statement of whatever batch fails and
  wherever the flush stops, for every info hash the sightings in the database grow by exactly what
  the catalog now counts as written, and no row is lost; a flush without a deadline that returns
  has emptied the queue.
\<close>

theorem document_flush_counts_once:
  assumes "index_ok s" "flush_documents E deadline s = (res, s')"
  shows "(\<forall>h. seen_of (ds_main (ix_database s')) (hex_text h) - seen_of (ds_main (ix_database s)) (hex_text h)
             = flushed_seen (ix_catalog s') h - flushed_seen (ix_catalog s) h
           \<and> (in_database s h \<longrightarrow> in_database s' h))
         \<and> (res = Inr () \<and> deadline = None \<and> 1 \<le> ie_batch_size E \<longrightarrow> c_index_documents (ix_catalog s') = [])"
proof -
  have empties: "flush_documents_loop E None n s = (Inr (), s') \<Longrightarrow> 1 \<le> ie_batch_size E \<Longrightarrow> c_index_documents (ix_catalog s') = []" for n s s'
  proof (induction n arbitrary: s)
    case (Suc n)
    then show ?case
      by (auto simp: io_bind_def io_seq_def io_return_def before_deadline_def with_catalog_def drain_index_documents_def split: if_splits prod.splits sum.splits)
  qed (simp add: io_raise_def)
  have "in_database s h \<longrightarrow> in_database s' h" "ledger s' h = ledger s h" for h
    using flush_documents_balanced[unfolded balanced_def, rule_format, OF assms] by simp_all
  moreover have "res = Inr () \<and> deadline = None \<and> 1 \<le> ie_batch_size E \<longrightarrow> c_index_documents (ix_catalog s') = []"
    using assms(2) empties unfolding flush_documents_def bind_get by blast
  ultimately show ?thesis unfolding ledger_def by (smt (verit))
qed

text \<open>
  C1: The index thread keeps its books over any number of rounds, the final flush included and
  whatever fails on the way: for a torrent that is in the database, the sightings added there are
  exactly those the catalog marked as written, so none is lost and none is written twice.
\<close>

theorem index_thread_counts_once:
  assumes "index_ok s" "in_database s h" "indexer_run E n s = (res, s')"
  shows "in_database s' h \<and> index_ok s'
    \<and> seen_of (ds_main (ix_database s')) (hex_text h) - seen_of (ds_main (ix_database s)) (hex_text h)
      = flushed_seen (ix_catalog s') h - flushed_seen (ix_catalog s) h"
proof -
  from balanced_thread[unfolded balanced_def, rule_format, OF assms(1,3)] assms(2)
  have "in_database s' h" "ledger s' h = ledger s h" "index_ok s'" by blast+
  then show ?thesis unfolding ledger_def by linarith
qed

text \<open>
  C4: The index thread survives every error. With the backoff in its bounds, any number of rounds
  and the final flush return without raising, however the catalog looks and whatever statement,
  assertion or conversion fails, and the backoff stays 0 or between its start and its maximum; a
  run that fails doubles it up to the maximum and sleeps that long.
\<close>

theorem index_thread_survives:
  assumes "0 < ie_backoff_start E" "ie_backoff_start E \<le> ie_backoff_max E" "backoff_ok E s"
  shows "fst (indexer_run E n s) = Inr () \<and> fst (indexer_rounds E n s) = Inr () \<and> backoff_ok E (snd (indexer_rounds E n s))
    \<and> (\<forall>e. fst (due_work E (ie_clock E (ix_calls s)) (s\<lparr>ix_calls := ix_calls s + 1\<rparr>)) = Inl e \<longrightarrow>
          ix_backoff (snd (run_due_work E s)) = (if ix_backoff s = 0 then ie_backoff_start E else min (2 * ix_backoff s) (ie_backoff_max E))
          \<and> ix_wake_at (snd (run_due_work E s)) = ie_clock E (ix_calls s) + ix_backoff (snd (run_due_work E s)))"
proof -
  obtain s1 where "indexer_rounds E n s = (Inr (), s1)" "backoff_ok E s1" using indexer_rounds_bounds[OF assms] by blast
  moreover have "0 \<le> ix_backoff s" using assms by (auto simp: backoff_ok_def)
  note this_run = run_due_work_outcome[OF assms(1,2) this]
  obtain s2 where "run_due_work E s = (Inr (), s2)"
    "\<forall>e. fst (due_work E (ie_clock E (ix_calls s)) (s\<lparr>ix_calls := ix_calls s + 1\<rparr>)) = Inl e \<longrightarrow>
       ix_backoff s2 = next_backoff E (ix_backoff s) \<and> ix_wake_at s2 = ie_clock E (ix_calls s) + ix_backoff s2"
    using this_run by (cases "fst (due_work E (ie_clock E (ix_calls s)) (s\<lparr>ix_calls := ix_calls s + 1\<rparr>))") auto
  ultimately show ?thesis using indexer_run_returns[OF assms] by (simp add: next_backoff_def)
qed

section \<open>A sample\<close>

text \<open>One fetched torrent whose document is waiting, and an empty database.\<close>

definition sample_hash :: bytes where "sample_hash = replicate 20 170"

definition sample_torrent :: torrent_metadata where
  "sample_torrent = \<lparr>md_info_hash = sample_hash, md_name = [], md_total_size = 7, md_piece_length = 1, md_file_count = 1, md_files = [],
     md_is_private = False, md_fetched_at = 0, md_source_peer = None, md_search_text = []\<rparr>"

definition seen_catalog :: catalog where
  "seen_catalog = enable_index_tracking (snd (record_hash (new_catalog 2 3 3 2 30) sample_hash SOURCE_ANNOUNCE_PEER None 5 None)) 9 False"

definition queued_catalog :: catalog where
  "queued_catalog = snd (store_metadata seen_catalog (0, sample_torrent) 6 None)"

definition sample_index_env :: indexer_env where
  "sample_index_env = \<lparr>ie_db = quiet_db, ie_clock = real, ie_document_seconds = 1, ie_counter_seconds = 1, ie_count_seconds = 1,
     ie_check_seconds = 1, ie_backoff_start = 1, ie_backoff_max = 8, ie_batch_size = 5, ie_final_flush_seconds = 3\<rparr>"

definition sample_indexer :: indexer where
  "sample_indexer = (case new_indexer sample_index_env queued_catalog empty_state of Inr s \<Rightarrow> s)"

lemma seen_catalog_eval:
  "c_entries seen_catalog = [(sample_hash, 0)]" "c_next_ref seen_catalog = 1" "c_index_tracking seen_catalog" "c_index_documents seen_catalog = []"
  "c_index_max_pending seen_catalog = 9" "c_max_entries seen_catalog = 2"
  by (simp_all add: seen_catalog_def catalog_eval Let_def enable_index_tracking_def)

lemma seen_catalog_heap:
  "te_flushed_seen (c_heap seen_catalog r) = 0"
  "te_info_hash (c_heap seen_catalog 0) = sample_hash" "te_seen_count (c_heap seen_catalog 0) = 1" "te_announce_count (c_heap seen_catalog 0) = 1"
  "te_first_seen (c_heap seen_catalog 0) = 5" "te_last_seen (c_heap seen_catalog 0) = 5" "te_index_base (c_heap seen_catalog 0) = None"
  "te_flushed_announce (c_heap seen_catalog 0) = 0"
  by (simp_all add: seen_catalog_def catalog_eval Let_def enable_index_tracking_def)

lemma seen_catalog_ok: "cat_ok seen_catalog"
  unfolding seen_catalog_def by (rule catalog_step_ok[OF step_enable_index_tracking catalog_step_ok[OF step_record_hash]]) (simp add: new_catalog_ok)

lemma queued_catalog_eval:
  "c_index_documents queued_catalog = [(sample_hash, 0)]" "te_flushed_seen (c_heap queued_catalog r) = 0"
  "index_snapshot_of queued_catalog 0 = \<lparr>is_info_hash = sample_hash, is_metadata = Some (0, sample_torrent), is_seen_count = 1,
     is_announce_count = 1, is_first_seen = 5, is_last_seen = 5, is_base = None, is_entry = 0, is_seen_delta = 1, is_announce_delta = 1\<rparr>"
  "map_of (c_entries queued_catalog) sample_hash = Some 0" "cat_ok queued_catalog"
proof -
  have "md_info_hash (snd (0 :: nat, sample_torrent)) \<in> fst ` set (c_entries seen_catalog)" by (simp add: seen_catalog_eval sample_torrent_def)
  then show "cat_ok queued_catalog" unfolding queued_catalog_def by (intro catalog_step_ok[OF step_store_metadata] seen_catalog_ok)
  have one: "queue_document_locked c r = c\<lparr>c_index_counters := AList.delete (te_info_hash (c_heap c r)) (c_index_counters c),
      c_index_documents := [(te_info_hash (c_heap c r), r)]\<rparr>" if "c_index_documents c = []" "1 \<le> c_index_max_pending c" for c r
    using that by (simp add: queue_document_locked_def Let_def)
  have kept: "c_index_documents (set_state_locked c r st) = c_index_documents c" "c_index_documents (forget_known_locked c r) = c_index_documents c"
    "c_index_max_pending (set_state_locked c r st) = c_index_max_pending c" "c_index_max_pending (forget_known_locked c r) = c_index_max_pending c"
    "c_index_documents (index_entry_locked c r) = c_index_documents c" "c_index_max_pending (index_entry_locked c r) = c_index_max_pending c"
    "c_index_tracking (set_state_locked c r st) = c_index_tracking c" "c_index_tracking (forget_known_locked c r) = c_index_tracking c"
    "c_index_tracking (index_entry_locked c r) = c_index_tracking c" for c r st
    by (simp_all add: set_state_locked_def forget_known_locked_def Let_def upd_entry_def index_entry_locked_def)
  note evals = queued_catalog_def store_metadata_def sample_torrent_def get_or_create_locked_def seen_catalog_eval seen_catalog_heap
      one kept Let_def upd_entry_def
  show "c_index_documents queued_catalog = [(sample_hash, 0)]" by (simp add: evals)
  show "te_flushed_seen (c_heap queued_catalog r) = 0" by (simp add: evals)
  have "te_info_hash (c_heap queued_catalog 0) = sample_hash" "te_metadata (c_heap queued_catalog 0) = Some (0, sample_torrent)"
    "te_seen_count (c_heap queued_catalog 0) = 1" "te_announce_count (c_heap queued_catalog 0) = 1" "te_first_seen (c_heap queued_catalog 0) = 5"
    "te_last_seen (c_heap queued_catalog 0) = 5" "te_index_base (c_heap queued_catalog 0) = None" "te_flushed_announce (c_heap queued_catalog 0) = 0"
    "te_flushed_seen (c_heap queued_catalog 0) = 0"
    by (simp add: evals)+
  then show "index_snapshot_of queued_catalog 0 = \<lparr>is_info_hash = sample_hash, is_metadata = Some (0, sample_torrent), is_seen_count = 1,
       is_announce_count = 1, is_first_seen = 5, is_last_seen = 5, is_base = None, is_entry = 0, is_seen_delta = 1, is_announce_delta = 1\<rparr>"
    by (simp add: index_snapshot_of_def)
  show "map_of (c_entries queued_catalog) sample_hash = Some 0" by (simp add: evals)
qed

lemma sample_indexer_eval [simp]:
  "ix_catalog sample_indexer = queued_catalog" "ix_database sample_indexer = empty_state" "ix_backoff sample_indexer = 0" "ix_calls sample_indexer = 0"
  by (simp_all add: sample_indexer_def new_indexer_def sample_index_env_def)

lemma sample_indexer_ok: "index_ok sample_indexer"
  by (simp add: index_ok_def queued_catalog_eval tracked_def empty_state_def empty_database_ok)

definition broken_env :: indexer_env where
  "broken_env = sample_index_env\<lparr>ie_db := quiet_db\<lparr>de_fails := (\<lambda>_. True)\<rparr>\<rparr>"

lemma queued_document: "build_document (index_snapshot_of queued_catalog 0) = Inr \<lparr>dc_info_hash = hex_text sample_hash, dc_name = [], dc_size = 7,
    dc_file_count = 1, dc_piece_length = 1, dc_is_private = False, dc_fetched_at = 0, dc_seen_count = 1, dc_announce_count = 1,
    dc_first_seen = 5, dc_last_seen = 5, dc_files = []\<rparr>"
  by (simp add: build_document_def queued_catalog_eval sample_torrent_def MAX_SQLITE_INTEGER_def)

lemma length_hex: "length (hex_text h) = 2 * length h"
  by (induction h) (simp_all add: hex_text_def)

lemma sample_hex: "length (hex_text sample_hash) = 40"
  by (simp add: sample_hash_def length_hex)

theorem refused_batch_put_back_witness:
  "c_index_documents (ix_catalog (snd (write_batch broken_env (fst (drain_index_documents queued_catalog 5))
     (sample_indexer\<lparr>ix_catalog := snd (drain_index_documents queued_catalog 5)\<rparr>)))) = [(sample_hash, 0)]"
proof -
  obtain batch c where drain: "drain_index_documents queued_catalog 5 = (batch, c)" by fastforce
  obtain r s' where run: "write_batch broken_env batch (sample_indexer\<lparr>ix_catalog := c\<rparr>) = (r, s')" by fastforce
  have "batch = [index_snapshot_of queued_catalog 0]" using drain by (auto simp: drain_index_documents_def queued_catalog_eval)
  then have "r = Inl IndexSqlite" using run sample_hex
    by (auto simp: write_batch_def queued_document io_bind_def io_catch_def lift_index_def io_raise_def io_return_def io_seq_def with_catalog_def on_db_def
      write_documents_def transaction_def io_get_def io_assert_def broken_env_def sample_index_env_def empty_state_def Let_def)
  with refused_batch_put_back[of sample_indexer 5 batch c broken_env s'] sample_indexer_ok drain run
  have "ix_catalog s' = queued_catalog" by simp
  then show ?thesis using drain run by (simp add: queued_catalog_eval)
qed

theorem document_flush_counts_once_witness:
  "seen_of (ds_main (ix_database (snd (flush_documents sample_index_env None sample_indexer)))) (hex_text sample_hash)
     = flushed_seen (ix_catalog (snd (flush_documents sample_index_env None sample_indexer))) sample_hash"
proof -
  obtain res s' where run: "flush_documents sample_index_env None sample_indexer = (res, s')" by fastforce
  have "flushed_seen queued_catalog sample_hash = 0" by (simp add: flushed_seen_def queued_catalog_eval)
  moreover have "seen_of (ds_main empty_state) h = 0" for h by (simp add: seen_of_def empty_state_def empty_database_def)
  ultimately show ?thesis using document_flush_counts_once[OF sample_indexer_ok run] run by simp
qed

text \<open>The same thread with the torrent in the database already.\<close>

definition stored_indexer :: indexer where
  "stored_indexer = sample_indexer\<lparr>ix_database := empty_state\<lparr>ds_main := empty_database\<lparr>
     db_torrents := [(document_row quiet_db 1 example_document)\<lparr>tr_info_hash := hex_text sample_hash\<rparr>],
     db_totals := Some \<lparr>tot_documents = 1, tot_size = 7, tot_last_id = 1\<rparr>\<rparr>\<rparr>\<rparr>"

lemma stored_indexer_ok: "index_ok stored_indexer" "in_database stored_indexer sample_hash" "seen_of (ds_main (ix_database stored_indexer)) (hex_text sample_hash) = 5"
  by (simp_all add: stored_indexer_def index_ok_def queued_catalog_eval tracked_def empty_state_def empty_database_def db_ok_def in_database_def has_row_def
    seen_of_def document_row_def example_document_def)

theorem index_thread_counts_once_witness:
  "seen_of (ds_main (ix_database (snd (indexer_run sample_index_env 4 stored_indexer)))) (hex_text sample_hash)
     = 5 + flushed_seen (ix_catalog (snd (indexer_run sample_index_env 4 stored_indexer))) sample_hash"
proof -
  obtain res s' where run: "indexer_run sample_index_env 4 stored_indexer = (res, s')" by fastforce
  have "flushed_seen (ix_catalog stored_indexer) sample_hash = 0" by (simp add: flushed_seen_def queued_catalog_eval stored_indexer_def)
  then show ?thesis using index_thread_counts_once[OF stored_indexer_ok(1,2) run] run stored_indexer_ok(3) by simp
qed

theorem index_thread_survives_witness: "fst (indexer_run broken_env 7 sample_indexer) = Inr ()"
  using index_thread_survives[of broken_env sample_indexer 7] by (simp add: broken_env_def sample_index_env_def backoff_ok_def)

section \<open>A commit that stays open, again\<close>

text \<open>
  C40: After a commit that raised and left its transaction open, documents are lost: the assertion
  of \<open>transaction\<close> stops every further batch, and since that is not an error of the database the
  batch is not put back, so its documents are gone from the queue and in no file.
\<close>

theorem failed_commit_loses_documents:
  assumes "ds_open (ix_database s) \<noteq> None" "drain_index_documents (ix_catalog s) n = (batch, c)" "batch \<noteq> []"
    and "build_all build_document batch = Inr docs"
  shows "write_batch E batch (s\<lparr>ix_catalog := c\<rparr>) = (Inl IndexOther, s\<lparr>ix_catalog := c\<rparr>)
    \<and> length (c_index_documents c) < length (c_index_documents (ix_catalog s))"
proof
  have "write_documents (ie_db E) docs (ix_database s) = (Inl DbAssertion, ix_database s)"
    using assms(1) by (auto simp: write_documents_def transaction_def io_bind_def io_get_def io_seq_def io_assert_def io_return_def io_raise_def)
  then show "write_batch E batch (s\<lparr>ix_catalog := c\<rparr>) = (Inl IndexOther, s\<lparr>ix_catalog := c\<rparr>)"
    using assms(4) by (simp add: write_batch_def io_bind_def io_catch_def lift_index_def io_raise_def io_return_def on_db_def Let_def)
  show "length (c_index_documents c) < length (c_index_documents (ix_catalog s))"
    using assms(2,3) by (cases "n = 0"; cases "c_index_documents (ix_catalog s)") (auto simp: drain_index_documents_def)
qed

text \<open>Such a state is reached: a first commit that fails so, then the queued document.\<close>

definition stuck_indexer :: indexer where
  "stuck_indexer = sample_indexer\<lparr>ix_database := snd (write_documents (quiet_db\<lparr>de_fails := (\<lambda>n. n = 1), de_stays_open := (\<lambda>_. True)\<rparr>) [] empty_state)\<rparr>"

theorem failed_commit_loses_documents_witness:
  "length (c_index_documents (snd (drain_index_documents (ix_catalog stuck_indexer) 5))) < 1"
proof -
  obtain batch c where drain: "drain_index_documents (ix_catalog stuck_indexer) 5 = (batch, c)" by fastforce
  have queued: "ix_catalog stuck_indexer = queued_catalog" by (simp add: stuck_indexer_def)
  have "ds_open (ix_database stuck_indexer) \<noteq> None" using failed_commit_happens by (auto simp: stuck_indexer_def)
  moreover have "batch = [index_snapshot_of queued_catalog 0]" using drain queued by (auto simp: drain_index_documents_def queued_catalog_eval)
  then have "batch \<noteq> []" "\<exists>docs. build_all build_document batch = Inr docs" by (simp_all add: queued_document)
  ultimately show ?thesis
    using failed_commit_loses_documents[of stuck_indexer 5 batch c _ sample_index_env] drain queued by (auto simp: queued_catalog_eval)
qed

end
