(* ===== verification/Spec2Isabelle.thy ===== *)
theory Spec2Isabelle
  imports Lookup_Properties Catalog_Properties Honest_Peer Stream_Encryption Utp_Properties Crawler_Properties Send_Windows
    Indexer_Properties
begin

text \<open>
  \<^bold>\<open>A verification of the BitTorrent DHT scraper\<close> (\<open>src/dht_scraper\<close>, Python).

  \<^bold>\<open>The program.\<close> The crawler thread (\<open>dht_crawler.py\<close>) walks the DHT over a few UDP sockets
  (\<open>dht_node_sockets.py\<close>), answers queries, and records every info hash it sees in the catalog
  (\<open>torrent_catalog.py\<close>). Hashes without peers get a \<open>get_peers\<close> lookup (\<open>dht_lookup.py\<close>). The
  fetch thread takes the best candidates of the catalog and downloads their metadata over TCP
  (\<open>metadata_fetcher.py\<close>), over an encrypted stream (\<open>stream_encryption.py\<close>) or over uTP
  (\<open>utp_transport.py\<close>). The index thread (\<open>search_indexer.py\<close>) copies what was fetched, with its
  counters, into a SQLite file (\<open>torrent_database.py\<close>), and asks the file about new hashes. The
  threads meet only in the catalog, whose methods are atomic under its lock.

  \<^bold>\<open>Theories and modules.\<close>
  \<^item> \<open>Scraper_Prelude\<close>: bytes, insertion-ordered dictionaries (association lists, \<open>odict\<close>) and the
    lemmas on lists and dictionaries that the components share (\<open>dict_simps\<close>). \<open>Fallible_State\<close>:
    steps that change a state and may raise, with triples and frame rules. \<open>Utf8_Text\<close>: decoding.
  \<^item> \<open>Bencode_Codec\<close>, \<open>Krpc_Messages\<close>, \<open>Peer_Wire_Messages\<close>, \<open>Torrent_Info_Summary\<close>,
    \<open>Node_Identity\<close>, \<open>Bounded_Recent_Map\<close>: the modules of the same names. The codecs are proved to
    round-trip and to fail only with their own errors; \<open>Bounded_Recent_Map\<close> states the locale
    \<open>recent_store\<close> that the send windows and the caches rely on.
  \<^item> \<open>Torrent_Catalog\<close> (the entries in a heap of objects, the queues and counters, one definition per
    method), \<open>Catalog_Invariant\<close> and \<open>Catalog_Operations\<close> (the invariant \<open>cat_ok\<close> and that every
    method keeps it, as the step relation \<open>catalog_step\<close>), \<open>Catalog_Properties\<close> (what the methods
    return, eviction, counts), \<open>Catalog_Claims\<close> (what keeps a lookup claim).
  \<^item> \<open>Dht_Lookup\<close>, \<open>Lookup_Invariant\<close>, \<open>Lookup_Properties\<close>, \<open>Lookup_Calls\<close>: the lookup manager, its
    tables, its rate limit, and that each lookup ends and reports once.
  \<^item> \<open>Dht_Node_Sockets\<close>, \<open>Dht_Crawler\<close>, \<open>Crawler_Invariant\<close>, \<open>Crawler_Steps\<close>,
    \<open>Crawler_Properties\<close>, \<open>Send_Windows\<close>: the sockets and the crawler. Every handler and the main
    loop run on one state record; every assertion, \<open>KeyError\<close> and \<open>OSError\<close> of the code is a branch,
    and \<open>run()\<close> is proved to take none of the raising ones, whatever arrives. The composition with
    the lookups and the catalog is exact: the claims in the catalog are the active lookups.
  \<^item> \<open>Metadata_Fetcher\<close>, \<open>Metadata_Session\<close>, \<open>Honest_Peer\<close>: a fetch session over an abstract
    stream, its outcomes, and that an honest peer's metadata is fetched.
    \<open>Stream_Encryption\<close>: RC4, the key exchange and the encrypted fetch. \<open>Utp_Transport\<close>,
    \<open>Utp_Properties\<close>: the uTP connection as a state machine, in-order delivery and resending.
  \<^item> \<open>Search_Terms\<close>, \<open>Torrent_Database\<close>, \<open>Database_Properties\<close>: the tokenizer, the typo index with
    an independent definition of one edit, the tables and their transactions, which are atomic
    whichever statement fails. \<open>Search_Indexer\<close>, \<open>Indexer_Ledger\<close>, \<open>Indexer_Properties\<close>: the index
    thread, and that what it counts as written is in the database exactly once.

  \<^bold>\<open>Conventions.\<close> A raised exception is the left side of a sum; a failed \<open>assert\<close> is a value of its
  own and not assumed away, so that \<open>never raises\<close> includes the assertions. Python integers are
  \<open>int\<close> or, where they cannot be negative, \<open>nat\<close>; sequence numbers of uTP are 16-bit words and
  bytes 8-bit words. Floats (times, rates) are exact reals. The limits Python sets on recursion and
  on the digits of \<open>int()\<close> are not modelled; the callers treat both like the \<open>ValueError\<close>s.

  \<^bold>\<open>Parameters.\<close> What is not under \<open>src\<close> is an argument: random bytes, clocks, SHA-1, HMAC,
  \<open>str.lower\<close>, \<open>strip\<close> and \<open>casefold\<close>, \<open>unicodedata\<close>, the text forms of IPv6 addresses, the name
  resolver, the answers of sockets, which SQLite statement fails and what \<open>json\<close> writes, and what the
  other threads do to the catalog between two steps (\<open>background_step\<close>).

  \<^bold>\<open>Fuel and bounds.\<close> The fetch sessions have fuel for the loops that wait for a message; any fuel
  above the number of incoming bytes gives the same result, since every frame takes bytes. The
  search for a free uTP connection id takes at most \<open>2 ^ 16\<close> tries. The flush loops of the index
  thread have the length of their queue as bound, which each pass shortens
  (\<open>flush_documents_fuel\<close>, \<open>flush_counters_fuel\<close>). The main loops run for any number of rounds.

  \<^bold>\<open>Not modelled.\<close> The full-text queries of the database (\<open>search\<close>, \<open>run_match\<close>), whose semantics is
  SQLite's; the fetch engine's tasks; \<open>scraper_runtime.py\<close>, \<open>web_interface.py\<close>,
  \<open>magnet_link.py\<close>, \<open>__main__.py\<close> and \<open>event_log.py\<close>, which wire the threads, format answers and
  configure libraries; \<open>web_page.py\<close>, a constant page.
\<close>

end
